(* ===== verification/Prelude.thy ===== *)
theory Prelude
  imports Main "HOL-Library.Word" "HOL-Library.AList"
begin

text \<open>
  What every component of the model shares: the types that stand for Go's basic types, the
  clock, decimal printing, and generic lemmas on lists, association lists and words.

  \<^item> \<open>time\<close> is \<^verbatim>\<open>time.Time\<close>, an instant in nanoseconds counted from Go's zero
    \<^verbatim>\<open>Time\<close>; \<^verbatim>\<open>Before\<close>, \<^verbatim>\<open>After\<close> and \<^verbatim>\<open>Add\<close> are \<open><\<close>, \<open>>\<close> and \<open>+\<close>;
  \<^item> \<open>duration\<close> is \<^verbatim>\<open>time.Duration\<close> in nanoseconds; \<open>time_Sub\<close> saturates as
    \<^verbatim>\<open>Time.Sub\<close> does;
  \<^item> a Go \<^verbatim>\<open>int\<close> is an \<open>int\<close>, and each component proves the bounds that keep its
    counters inside 64 bits; \<^verbatim>\<open>uint64\<close> is a \<open>64 word\<close>;
  \<^item> a result \<^verbatim>\<open>(T, error)\<close> is a sum with the error on the left;
  \<^item> a Go map is an association list with distinct keys: the list order is the iteration
    order, which Go leaves open, so theorems about iteration hold for every order.
\<close>

named_theorems gatex_defs \<open>definitions of operations, to unfold\<close>
named_theorems gatex_inv \<open>invariant preservation\<close>

type_synonym time = int
type_synonym duration = int
type_synonym bytes = "char list"
type_synonym ('k, 'v) gomap = "('k \<times> 'v) list"

abbreviation (input) zeroTime :: time where
  "zeroTime \<equiv> 0"

definition Second :: duration where
  "Second = 1000000000"

lemma Second_pos [simp]: "0 < Second" "Second \<noteq> 0"
  by (simp_all add: Second_def)

definition Minute :: duration where
  "Minute = 60 * Second"

definition maxInt64 :: int where
  "maxInt64 = 9223372036854775807"

definition minInt64 :: int where
  "minInt64 = - 9223372036854775808"

definition time_Sub :: "time \<Rightarrow> time \<Rightarrow> duration" where
  "time_Sub t u = max minInt64 (min maxInt64 (t - u))"

lemma time_Sub_pos: "u < t \<Longrightarrow> 0 < time_Sub t u"
  by (simp add: time_Sub_def minInt64_def maxInt64_def)

lemma time_Sub_le: "u \<le> t \<Longrightarrow> time_Sub t u \<le> t - u"
  by (simp add: time_Sub_def minInt64_def maxInt64_def)

lemma time_Sub_range: "minInt64 \<le> time_Sub t u \<and> time_Sub t u \<le> maxInt64"
  by (simp add: time_Sub_def minInt64_def maxInt64_def)

lemma time_Sub_exact: "minInt64 \<le> t - u \<Longrightarrow> t - u \<le> maxInt64 \<Longrightarrow> time_Sub t u = t - u"
  by (simp add: time_Sub_def)

subsection \<open>Integer division as Go does it\<close>

text \<open>Go's \<^verbatim>\<open>/\<close> and \<^verbatim>\<open>%\<close> on integers truncate towards zero.\<close>

definition go_div :: "int \<Rightarrow> int \<Rightarrow> int" where
  "go_div a b = sgn a * sgn b * (\<bar>a\<bar> div \<bar>b\<bar>)"

definition go_mod :: "int \<Rightarrow> int \<Rightarrow> int" where
  "go_mod a b = a - b * go_div a b"

lemma go_div_nonneg: "0 \<le> a \<Longrightarrow> 0 < b \<Longrightarrow> go_div a b = a div b"
  by (cases "a = 0") (simp_all add: go_div_def)

lemma go_mod_nonneg: "0 \<le> a \<Longrightarrow> 0 < b \<Longrightarrow> go_mod a b = a mod b"
  by (simp add: go_mod_def go_div_nonneg minus_mult_div_eq_mod)

subsection \<open>64-bit addition\<close>

text \<open>Addition on \<^verbatim>\<open>int64\<close> wraps around.\<close>

definition int64_add :: "int \<Rightarrow> int \<Rightarrow> int" where
  "int64_add a b = (a + b + 2 ^ 63) mod 2 ^ 64 - 2 ^ 63"

lemma int64_add_exact: "minInt64 \<le> a + b \<Longrightarrow> a + b \<le> maxInt64 \<Longrightarrow> int64_add a b = a + b"
  by (simp add: int64_add_def minInt64_def maxInt64_def)

lemma int64_add_assoc: "int64_add (int64_add 0 a) b = int64_add 0 (a + b)"
  by (simp add: int64_add_def algebra_simps mod_simps)

subsection \<open>Decimal printing\<close>

definition digit_char :: "nat \<Rightarrow> char" where
  "digit_char d = char_of (48 + d)"

fun nat_dec :: "nat \<Rightarrow> string" where
  "nat_dec n = (if n < 10 then [digit_char n] else nat_dec (n div 10) @ [digit_char (n mod 10)])"

declare nat_dec.simps [simp del]

text \<open>\<^verbatim>\<open>strconv.FormatInt(i, 10)\<close> and the verb \<^verbatim>\<open>%d\<close>.\<close>

definition FormatInt :: "int \<Rightarrow> string" where
  "FormatInt i = (if i < 0 then CHR ''-'' # nat_dec (nat (- i)) else nat_dec (nat i))"

lemma of_digit_char: "d < 10 \<Longrightarrow> of_char (digit_char d) = 48 + d"
  by (simp add: digit_char_def)

lemma nat_dec_value: "foldl (\<lambda>n c. n * 10 + (of_char c - 48)) 0 (nat_dec n) = (n :: nat)"
proof (induction n rule: nat_dec.induct)
  case (1 n)
  then show ?case by (cases "n < 10") (simp_all add: nat_dec.simps [of n] of_digit_char)
qed

lemma nat_dec_digit: "c \<in> set (nat_dec n) \<Longrightarrow> 48 \<le> (of_char c :: nat)"
proof (induction n rule: nat_dec.induct)
  case (1 n)
  then show ?case by (cases "n < 10") (auto simp: nat_dec.simps [of n] of_digit_char)
qed

lemma nat_dec_inj: "nat_dec m = nat_dec n \<Longrightarrow> m = n"
  by (metis nat_dec_value)

lemma nat_dec_unsigned: "CHR ''-'' # xs \<noteq> nat_dec n"
proof
  assume "CHR ''-'' # xs = nat_dec n"
  then have "CHR ''-'' \<in> set (nat_dec n)" by (metis list.set_intros(1))
  then show False using nat_dec_digit by fastforce
qed

lemma FormatInt_inj: "FormatInt a = FormatInt b \<longleftrightarrow> a = b"
  using nat_dec_unsigned nat_dec_unsigned [symmetric] nat_dec_inj [of "nat (- a)" "nat (- b)"] nat_dec_inj [of "nat a" "nat b"]
  by (auto simp: FormatInt_def)

subsection \<open>Association lists as Go maps\<close>

definition gomap_wf :: "('k, 'v) gomap \<Rightarrow> bool" where
  "gomap_wf m = distinct (map fst m)"

lemma gomap_wf_Nil [simp, intro]: "gomap_wf []"
  by (simp add: gomap_wf_def)

lemma gomap_wf_update [simp, intro]: "gomap_wf m \<Longrightarrow> gomap_wf (AList.update k v m)"
  by (simp add: gomap_wf_def AList.distinct_update)

lemma gomap_wf_delete [simp, intro]: "gomap_wf m \<Longrightarrow> gomap_wf (AList.delete k m)"
  by (simp add: gomap_wf_def AList.distinct_delete)

lemma gomap_wf_filter [simp, intro]: "gomap_wf m \<Longrightarrow> gomap_wf (filter P m)"
  by (simp add: gomap_wf_def distinct_map_filter)

lemma set_alist_update: "x \<in> set (AList.update k v m) \<Longrightarrow> x \<in> set m \<or> x = (k, v)"
  by (induction m) (auto split: if_splits)

lemma set_keys_dom: "set (map fst m) = dom (map_of m)"
  by (simp add: dom_map_of_conv_image_fst)

lemma map_of_filter_wf:
  assumes "gomap_wf m"
  shows "map_of (filter P m) k =
    (case map_of m k of None \<Rightarrow> None | Some v \<Rightarrow> if P (k, v) then Some v else None)"
  using assms
proof (induction m)
  case (Cons x m)
  obtain k' v where x: "x = (k', v)" by fastforce
  from Cons.prems x have "map_of m k' = None" and wf: "gomap_wf m"
    by (auto simp: gomap_wf_def map_of_eq_None_iff)
  with Cons.IH [OF wf] x show ?case by (auto split: option.splits)
qed simp

lemma length_gomap: "gomap_wf m \<Longrightarrow> length m = card (dom (map_of m))"
  by (metis gomap_wf_def distinct_card length_map set_keys_dom)

subsection \<open>Lists\<close>

lemma ball_list_update:
  "\<forall>x \<in> set xs. P x \<Longrightarrow> P y \<Longrightarrow> \<forall>x \<in> set (xs[i := y]). P x"
  using set_update_subset_insert [of xs i y] by blast

lemma filter_count_update:
  assumes "i < length xs"
  shows "length (filter P (xs[i := y])) + (if P (xs ! i) then 1 else 0)
    = length (filter P xs) + (if P y then 1 else 0)"
  using assms
proof (induction xs arbitrary: i)
  case (Cons x xs)
  then show ?case by (cases i) auto
qed simp

lemma filter_count_pos: "i < length xs \<Longrightarrow> P (xs ! i) \<Longrightarrow> 0 < length (filter P xs)"
  by (auto simp: filter_empty_conv)

subsection \<open>Words\<close>

lemma of_nat_word_eq_bounded:
  "of_nat m = (of_nat n :: 'a::len word) \<Longrightarrow> m < 2 ^ LENGTH('a) \<Longrightarrow> n < 2 ^ LENGTH('a) \<Longrightarrow> m = n"
  by (simp add: word_of_nat_eq_iff take_bit_nat_eq_self)

lemma word64_plus_one_neq [simp]: "(w :: 64 word) + 1 \<noteq> w"
  by simp

subsection \<open>Machines that keep an invariant\<close>

text \<open>
  Several components are a state with operations applied in any order. The contract of such a
  machine is an invariant that every operation keeps, possibly only while a side condition
  \<open>ok\<close> holds of the state it starts from; it then holds after every sequence of operations
  that stays within the side condition.
\<close>

locale invariant_machine =
  fixes exec :: "'s \<Rightarrow> 'e \<Rightarrow> 's" and ok :: "'s \<Rightarrow> bool" and inv :: "'s \<Rightarrow> bool"
  assumes exec_inv: "inv s \<Longrightarrow> ok s \<Longrightarrow> inv (exec s e)"
    and ok_back: "ok (exec s e) \<Longrightarrow> ok s"
begin

lemma run_ok_back: "ok (foldl exec s es) \<Longrightarrow> ok s"
  by (induction es arbitrary: s) (auto dest: ok_back)

lemma run_inv: "inv s \<Longrightarrow> ok (foldl exec s es) \<Longrightarrow> inv (foldl exec s es)"
proof (induction es arbitrary: s)
  case (Cons e es)
  from Cons.prems(2) have "ok (exec s e)" by (auto dest: run_ok_back)
  then have "inv (exec s e)" using Cons.prems(1) by (auto intro: exec_inv dest: ok_back)
  with Cons show ?case by simp
qed simp

end

end
