(* ===== verification/Circuit_Breaker.thy ===== *)
theory Circuit_Breaker
  imports Prelude
begin

text \<open>
  The per-pool circuit breaker, \<^verbatim>\<open>src/internal/breaker/breaker.go\<close>.

  Every method of \<^verbatim>\<open>Breaker\<close> runs under its mutex, so a method is one atomic state
  transformer; the clock reading a method takes is its argument \<open>now\<close>. A \<^verbatim>\<open>Permit\<close>
  carries the generation it was issued in and the state of its \<^verbatim>\<open>sync.Once\<close>. The
  generation counter keeps its 64 bits. \<open>breaker_step\<close> interleaves the methods of any
  number of goroutines holding permits; its ghost field \<open>sys_epoch\<close> counts state changes
  without wrap-around, so a theorem that depends on the counter not having wrapped says so.
\<close>

section \<open>States, configuration and errors\<close>

type_synonym State = "8 word"

definition StateClosed :: State where "StateClosed = 0"
definition StateOpen :: State where "StateOpen = 1"
definition StateHalfOpen :: State where "StateHalfOpen = 2"

lemmas State_defs = StateClosed_def StateOpen_def StateHalfOpen_def

lemma State_distinct [simp]:
  "StateClosed \<noteq> StateOpen" "StateOpen \<noteq> StateClosed"
  "StateClosed \<noteq> StateHalfOpen" "StateHalfOpen \<noteq> StateClosed"
  "StateOpen \<noteq> StateHalfOpen" "StateHalfOpen \<noteq> StateOpen"
  by (simp_all add: State_defs)

definition State_String :: "State \<Rightarrow> string" where
  "State_String s =
    (if s = StateClosed then ''closed''
     else if s = StateOpen then ''open''
     else if s = StateHalfOpen then ''half-open''
     else ''State('' @ FormatInt (uint s) @ '')'')"

definition State_valid :: "State \<Rightarrow> bool" where
  "State_valid s = (s = StateClosed \<or> s = StateOpen \<or> s = StateHalfOpen)"

definition validTransition :: "State \<Rightarrow> State \<Rightarrow> bool" where
  "validTransition current next =
    (if current = StateClosed then next = StateOpen
     else if current = StateOpen then next = StateHalfOpen
     else if current = StateHalfOpen then next = StateClosed \<or> next = StateOpen
     else False)"

datatype BreakerError =
    ErrOpen
  | ErrHalfOpenProbeLimit
  | ErrInvalidFailureThreshold
  | ErrInvalidOpenTimeout
  | ErrInvalidHalfOpenMaxRequests
  | ErrNilBreakerClock
  | ErrInvalidState State
  | ErrInvalidTransition State State

definition DefaultFailureThreshold :: int where
  "DefaultFailureThreshold = 5"

definition DefaultOpenTimeout :: duration where
  "DefaultOpenTimeout = 30 * Second"

definition DefaultHalfOpenMaxRequests :: int where
  "DefaultHalfOpenMaxRequests = 1"

lemmas breaker_default_defs =
  DefaultFailureThreshold_def DefaultOpenTimeout_def DefaultHalfOpenMaxRequests_def

record BreakerConfig =
  FailureThreshold :: int
  OpenTimeout :: duration
  HalfOpenMaxRequests :: int

record Breaker =
  state :: State
  failureThreshold :: int
  consecutiveFailures :: int
  openTimeout :: duration
  halfOpenMaxRequests :: int
  openedAt :: time
  generation :: "64 word"
  halfOpenAdmitted :: int
  halfOpenSuccesses :: int

record Permit =
  hasBreaker :: bool
  permitGeneration :: "64 word"
  probe :: bool
  once :: bool

section \<open>Constructors\<close>

definition breaker_of_config :: "BreakerConfig \<Rightarrow> Breaker" where
  "breaker_of_config config =
    \<lparr>state = StateClosed,
     failureThreshold = FailureThreshold config,
     consecutiveFailures = 0,
     openTimeout = OpenTimeout config,
     halfOpenMaxRequests = HalfOpenMaxRequests config,
     openedAt = zeroTime,
     generation = 0,
     halfOpenAdmitted = 0,
     halfOpenSuccesses = 0\<rparr>"

text \<open>The clock argument matters only through being nil; \<open>None\<close> is the nil clock.\<close>

definition newWithConfig :: "BreakerConfig \<Rightarrow> 'clock option \<Rightarrow> BreakerError + Breaker" where
  "newWithConfig config now =
    (if FailureThreshold config < 0 then Inl ErrInvalidFailureThreshold
     else if OpenTimeout config < 0 then Inl ErrInvalidOpenTimeout
     else if HalfOpenMaxRequests config < 0 then Inl ErrInvalidHalfOpenMaxRequests
     else if now = None then Inl ErrNilBreakerClock
     else
       let config = (if FailureThreshold config = 0
             then config\<lparr>FailureThreshold := DefaultFailureThreshold\<rparr> else config);
           config = (if OpenTimeout config = 0
             then config\<lparr>OpenTimeout := DefaultOpenTimeout\<rparr> else config);
           config = (if HalfOpenMaxRequests config = 0
             then config\<lparr>HalfOpenMaxRequests := DefaultHalfOpenMaxRequests\<rparr> else config)
       in Inr (breaker_of_config config))"

definition NewWithConfig :: "BreakerConfig \<Rightarrow> BreakerError + Breaker" where
  "NewWithConfig config = newWithConfig config (Some ())"

definition NewWithFailureThreshold :: "int \<Rightarrow> BreakerError + Breaker" where
  "NewWithFailureThreshold threshold =
    (if threshold \<le> 0 then Inl ErrInvalidFailureThreshold
     else NewWithConfig
       \<lparr>FailureThreshold = threshold, OpenTimeout = 0, HalfOpenMaxRequests = 0\<rparr>)"

definition NewBreaker :: Breaker where
  "NewBreaker =
    \<lparr>state = StateClosed,
     failureThreshold = DefaultFailureThreshold,
     consecutiveFailures = 0,
     openTimeout = DefaultOpenTimeout,
     halfOpenMaxRequests = DefaultHalfOpenMaxRequests,
     openedAt = zeroTime,
     generation = 0,
     halfOpenAdmitted = 0,
     halfOpenSuccesses = 0\<rparr>"

section \<open>Operations\<close>

definition transitionLocked :: "State \<Rightarrow> time \<Rightarrow> Breaker \<Rightarrow> Breaker" where
  "transitionLocked next now b =
    (let b = b\<lparr>state := next, generation := generation b + 1,
               halfOpenAdmitted := 0, halfOpenSuccesses := 0\<rparr>;
         b = (if next = StateOpen then b\<lparr>openedAt := now\<rparr> else b)
     in if next = StateClosed then b\<lparr>consecutiveFailures := 0\<rparr> else b)"

definition Breaker_Acquire :: "time \<Rightarrow> Breaker \<Rightarrow> (BreakerError + Permit) \<times> Breaker" where
  "Breaker_Acquire now b =
    (if state b = StateOpen \<and> now < openedAt b + openTimeout b then (Inl ErrOpen, b)
     else
       let b = (if state b = StateOpen then transitionLocked StateHalfOpen now b else b)
       in if state b = StateHalfOpen \<and> halfOpenAdmitted b \<ge> halfOpenMaxRequests b
          then (Inl ErrHalfOpenProbeLimit, b)
          else
            let b = (if state b = StateHalfOpen
                  then b\<lparr>halfOpenAdmitted := halfOpenAdmitted b + 1\<rparr> else b)
            in (Inr \<lparr>hasBreaker = True, permitGeneration = generation b,
                     probe = (state b = StateHalfOpen), once = False\<rparr>, b))"

definition Breaker_record :: "64 word \<Rightarrow> bool \<Rightarrow> bool \<Rightarrow> time \<Rightarrow> Breaker \<Rightarrow> Breaker" where
  "Breaker_record gen isProbe success now b =
    (if generation b \<noteq> gen then b
     else if isProbe then
       (if state b \<noteq> StateHalfOpen then b
        else if \<not> success then transitionLocked StateOpen now b
        else
          let b = b\<lparr>halfOpenSuccesses := halfOpenSuccesses b + 1\<rparr>
          in if halfOpenSuccesses b = halfOpenMaxRequests b
             then transitionLocked StateClosed now b else b)
     else if state b \<noteq> StateClosed then b
     else if success then b\<lparr>consecutiveFailures := 0\<rparr>
     else
       let b = b\<lparr>consecutiveFailures := consecutiveFailures b + 1\<rparr>
       in if consecutiveFailures b = failureThreshold b
          then transitionLocked StateOpen now b else b)"

definition Breaker_cancel :: "64 word \<Rightarrow> bool \<Rightarrow> Breaker \<Rightarrow> Breaker" where
  "Breaker_cancel gen isProbe b =
    (if generation b \<noteq> gen \<or> \<not> isProbe \<or> state b \<noteq> StateHalfOpen then b
     else if halfOpenAdmitted b > 0 then b\<lparr>halfOpenAdmitted := halfOpenAdmitted b - 1\<rparr>
     else b)"

text \<open>
  The permit methods return the permit with its \<open>once\<close> set: \<^verbatim>\<open>sync.Once\<close> runs its
  function on the first call only. A nil permit, and one without a breaker, is ignored.
\<close>

definition Permit_record :: "bool \<Rightarrow> time \<Rightarrow> Permit option \<Rightarrow> Breaker \<Rightarrow> Permit option \<times> Breaker" where
  "Permit_record success now p b =
    (case p of
       None \<Rightarrow> (None, b)
     | Some p \<Rightarrow>
         if \<not> hasBreaker p \<or> once p then (Some p, b)
         else (Some (p\<lparr>once := True\<rparr>),
               Breaker_record (permitGeneration p) (probe p) success now b))"

definition Permit_RecordSuccess :: "time \<Rightarrow> Permit option \<Rightarrow> Breaker \<Rightarrow> Permit option \<times> Breaker" where
  "Permit_RecordSuccess = Permit_record True"

definition Permit_RecordFailure :: "time \<Rightarrow> Permit option \<Rightarrow> Breaker \<Rightarrow> Permit option \<times> Breaker" where
  "Permit_RecordFailure = Permit_record False"

definition Permit_Cancel :: "Permit option \<Rightarrow> Breaker \<Rightarrow> Permit option \<times> Breaker" where
  "Permit_Cancel p b =
    (case p of
       None \<Rightarrow> (None, b)
     | Some p \<Rightarrow>
         if \<not> hasBreaker p \<or> once p then (Some p, b)
         else (Some (p\<lparr>once := True\<rparr>), Breaker_cancel (permitGeneration p) (probe p) b))"

definition Breaker_TransitionTo :: "State \<Rightarrow> time \<Rightarrow> Breaker \<Rightarrow> BreakerError option \<times> Breaker" where
  "Breaker_TransitionTo next now b =
    (if \<not> State_valid next then (Some (ErrInvalidState next), b)
     else if state b = next then (None, b)
     else if \<not> validTransition (state b) next
       then (Some (ErrInvalidTransition (state b) next), b)
     else (None, transitionLocked next now b))"

definition Breaker_State :: "Breaker \<Rightarrow> State" where
  "Breaker_State b = state b"

definition Breaker_ConsecutiveFailures :: "Breaker \<Rightarrow> int" where
  "Breaker_ConsecutiveFailures b = consecutiveFailures b"

lemmas Permit_defs =
  Permit_RecordSuccess_def Permit_RecordFailure_def Permit_record_def Permit_Cancel_def

lemma transitionLocked_simps [simp]:
  "state (transitionLocked s now b) = s"
  "generation (transitionLocked s now b) = generation b + 1"
  "halfOpenAdmitted (transitionLocked s now b) = 0"
  "halfOpenSuccesses (transitionLocked s now b) = 0"
  "failureThreshold (transitionLocked s now b) = failureThreshold b"
  "openTimeout (transitionLocked s now b) = openTimeout b"
  "halfOpenMaxRequests (transitionLocked s now b) = halfOpenMaxRequests b"
  "openedAt (transitionLocked s now b) = (if s = StateOpen then now else openedAt b)"
  "consecutiveFailures (transitionLocked s now b)
    = (if s = StateClosed then 0 else consecutiveFailures b)"
  by (simp_all add: transitionLocked_def Let_def)

section \<open>The breaker and its permits as a state machine\<close>

datatype breaker_event =
    EvAcquire time
  | EvRecord nat bool time
  | EvCancel nat
  | EvTransitionTo State time

text \<open>\<open>sys_permits\<close> pairs each permit ever issued with the epoch it was issued in.\<close>

record breaker_sys =
  sys_breaker :: Breaker
  sys_permits :: "(Permit \<times> nat) list"
  sys_epoch :: nat

definition next_epoch :: "breaker_sys \<Rightarrow> Breaker \<Rightarrow> nat" where
  "next_epoch s b = (if generation b = generation (sys_breaker s) then sys_epoch s else Suc (sys_epoch s))"

definition settle :: "breaker_sys \<Rightarrow> nat \<Rightarrow> Permit option \<times> Breaker \<Rightarrow> breaker_sys" where
  "settle s i r =
    \<lparr>sys_breaker = snd r,
     sys_permits = (case fst r of None \<Rightarrow> sys_permits s
       | Some p \<Rightarrow> (sys_permits s)[i := (p, snd (sys_permits s ! i))]),
     sys_epoch = next_epoch s (snd r)\<rparr>"

fun breaker_exec :: "breaker_sys \<Rightarrow> breaker_event \<Rightarrow> breaker_sys" where
  "breaker_exec s (EvAcquire now) =
    (let (r, b) = Breaker_Acquire now (sys_breaker s); e = next_epoch s b
     in \<lparr>sys_breaker = b,
         sys_permits = (case r of Inl _ \<Rightarrow> sys_permits s | Inr p \<Rightarrow> sys_permits s @ [(p, e)]),
         sys_epoch = e\<rparr>)"
| "breaker_exec s (EvRecord i success now) =
    (if i < length (sys_permits s)
     then settle s i (Permit_record success now (Some (fst (sys_permits s ! i))) (sys_breaker s))
     else s)"
| "breaker_exec s (EvCancel i) =
    (if i < length (sys_permits s)
     then settle s i (Permit_Cancel (Some (fst (sys_permits s ! i))) (sys_breaker s))
     else s)"
| "breaker_exec s (EvTransitionTo next now) =
    (let b = snd (Breaker_TransitionTo next now (sys_breaker s))
     in s\<lparr>sys_breaker := b, sys_epoch := next_epoch s b\<rparr>)"

declare breaker_exec.simps [simp del]

definition breaker_start :: "Breaker \<Rightarrow> breaker_sys" where
  "breaker_start b = \<lparr>sys_breaker = b, sys_permits = [], sys_epoch = 0\<rparr>"

inductive breaker_step :: "breaker_sys \<Rightarrow> breaker_event \<Rightarrow> breaker_sys \<Rightarrow> bool" where
  step_acquire: "breaker_step s (EvAcquire now) (breaker_exec s (EvAcquire now))"
| step_record: "i < length (sys_permits s) \<Longrightarrow>
    breaker_step s (EvRecord i success now) (breaker_exec s (EvRecord i success now))"
| step_cancel: "i < length (sys_permits s) \<Longrightarrow>
    breaker_step s (EvCancel i) (breaker_exec s (EvCancel i))"
| step_transition: "breaker_step s (EvTransitionTo st now) (breaker_exec s (EvTransitionTo st now))"

inductive breaker_reachable :: "BreakerConfig \<Rightarrow> breaker_sys \<Rightarrow> bool" for config where
  init: "NewWithConfig config = Inr b \<Longrightarrow> breaker_reachable config (breaker_start b)"
| step: "breaker_reachable config s \<Longrightarrow> breaker_step s e t \<Longrightarrow> breaker_reachable config t"

lemma breaker_step_exec: "breaker_step s e t \<Longrightarrow> t = breaker_exec s e"
  by (cases rule: breaker_step.cases) auto

section \<open>The invariant of the breaker alone\<close>

definition breaker_wf :: "Breaker \<Rightarrow> bool" where
  "breaker_wf b =
    (State_valid (state b) \<and>
     0 < failureThreshold b \<and> 0 < openTimeout b \<and> 0 < halfOpenMaxRequests b \<and>
     0 \<le> consecutiveFailures b \<and> consecutiveFailures b \<le> failureThreshold b \<and>
     (state b = StateClosed \<longrightarrow> consecutiveFailures b < failureThreshold b) \<and>
     0 \<le> halfOpenAdmitted b \<and> halfOpenAdmitted b \<le> halfOpenMaxRequests b \<and>
     0 \<le> halfOpenSuccesses b \<and> halfOpenSuccesses b < halfOpenMaxRequests b \<and>
     (state b \<noteq> StateHalfOpen \<longrightarrow> halfOpenAdmitted b = 0 \<and> halfOpenSuccesses b = 0))"

lemma breaker_wf_cases:
  assumes "breaker_wf b"
  obtains "state b = StateClosed" | "state b = StateOpen" | "state b = StateHalfOpen"
  using assms by (auto simp: breaker_wf_def State_valid_def)

lemma breaker_wf_transitionLocked [gatex_inv]:
  "breaker_wf b \<Longrightarrow> State_valid s \<Longrightarrow> breaker_wf (transitionLocked s now b)"
  by (auto simp: breaker_wf_def)

lemma breaker_wf_newWithConfig [gatex_inv]:
  "newWithConfig config now = Inr b \<Longrightarrow> breaker_wf b"
  by (auto simp: newWithConfig_def breaker_of_config_def breaker_wf_def State_valid_def Let_def
      breaker_default_defs Second_def split: if_splits)

lemma breaker_wf_Acquire [gatex_inv]:
  assumes "breaker_wf b"
  shows "breaker_wf (snd (Breaker_Acquire now b))"
proof -
  have half: "breaker_wf (transitionLocked StateHalfOpen now b)"
    using assms by (rule breaker_wf_transitionLocked) (simp add: State_valid_def)
  have incr: "breaker_wf (b'\<lparr>halfOpenAdmitted := halfOpenAdmitted b' + 1\<rparr>)"
    if "breaker_wf b'" "state b' = StateHalfOpen" "halfOpenAdmitted b' < halfOpenMaxRequests b'" for b'
    using that by (simp add: breaker_wf_def)
  show ?thesis
    using assms half incr [OF assms] incr [OF half]
    by (auto simp: Breaker_Acquire_def Let_def not_le)
qed

lemma breaker_wf_record [gatex_inv]:
  assumes "breaker_wf b"
  shows "breaker_wf (Breaker_record gen isProbe success now b)"
  using assms by (auto simp: Breaker_record_def Let_def breaker_wf_def State_valid_def)

lemma breaker_wf_cancel [gatex_inv]:
  "breaker_wf b \<Longrightarrow> breaker_wf (Breaker_cancel gen isProbe b)"
  by (auto simp: Breaker_cancel_def breaker_wf_def)

lemma breaker_wf_Permit_record [gatex_inv]:
  "breaker_wf b \<Longrightarrow> breaker_wf (snd (Permit_record success now p b))"
  by (auto simp: Permit_record_def breaker_wf_record split: option.splits)

lemma breaker_wf_Permit_Cancel [gatex_inv]:
  "breaker_wf b \<Longrightarrow> breaker_wf (snd (Permit_Cancel p b))"
  by (auto simp: Permit_Cancel_def breaker_wf_cancel split: option.splits)

lemma breaker_wf_TransitionTo [gatex_inv]:
  "breaker_wf b \<Longrightarrow> breaker_wf (snd (Breaker_TransitionTo s now b))"
  by (auto simp: Breaker_TransitionTo_def breaker_wf_transitionLocked)

text \<open>The configured limits never change.\<close>

definition breaker_limits :: "Breaker \<Rightarrow> int \<times> duration \<times> int" where
  "breaker_limits b = (failureThreshold b, openTimeout b, halfOpenMaxRequests b)"

lemma breaker_limits_ops [simp]:
  "breaker_limits (snd (Breaker_Acquire now b)) = breaker_limits b"
  "breaker_limits (snd (Permit_record success now p b)) = breaker_limits b"
  "breaker_limits (snd (Permit_Cancel p b)) = breaker_limits b"
  "breaker_limits (snd (Breaker_TransitionTo s now b)) = breaker_limits b"
  by (simp_all add: breaker_limits_def Breaker_Acquire_def Permit_record_def Breaker_record_def
      Permit_Cancel_def Breaker_cancel_def Breaker_TransitionTo_def Let_def split: option.split)

section \<open>The invariant of the breaker with its permits\<close>

text \<open>
  A permit is live while it belongs to the current epoch and has not been settled. The
  accounting of the half-open state is that admitted probes are the successful ones plus
  the live ones. It rests on generations being unique, hence on fewer than \<open>2 ^ 64\<close> state
  changes.
\<close>

definition live :: "nat \<Rightarrow> Permit \<times> nat \<Rightarrow> bool" where
  "live epoch pe = (snd pe = epoch \<and> \<not> once (fst pe))"

definition in_flight :: "breaker_sys \<Rightarrow> nat" where
  "in_flight s = length (filter (live (sys_epoch s)) (sys_permits s))"

definition permits_wf :: "nat \<Rightarrow> (Permit \<times> nat) list \<Rightarrow> bool" where
  "permits_wf epoch ps =
    (\<forall>pe \<in> set ps. snd pe \<le> epoch \<and> hasBreaker (fst pe) \<and>
       permitGeneration (fst pe) = of_nat (snd pe))"

definition permits_current :: "Breaker \<Rightarrow> nat \<Rightarrow> (Permit \<times> nat) list \<Rightarrow> bool" where
  "permits_current b epoch ps =
    (\<forall>pe \<in> set ps. snd pe = epoch \<longrightarrow>
       state b \<noteq> StateOpen \<and> probe (fst pe) = (state b = StateHalfOpen))"

definition sys_inv :: "breaker_sys \<Rightarrow> bool" where
  "sys_inv s =
    (breaker_wf (sys_breaker s) \<and>
     generation (sys_breaker s) = of_nat (sys_epoch s) \<and>
     permits_wf (sys_epoch s) (sys_permits s) \<and>
     permits_current (sys_breaker s) (sys_epoch s) (sys_permits s) \<and>
     (state (sys_breaker s) = StateHalfOpen \<longrightarrow>
        halfOpenAdmitted (sys_breaker s) = halfOpenSuccesses (sys_breaker s) + int (in_flight s)))"

lemma permits_wf_update:
  assumes "permits_wf epoch ps" "i < length ps"
  shows "permits_wf epoch (ps[i := ((fst (ps ! i))\<lparr>once := x\<rparr>, snd (ps ! i))])"
  using assms nth_mem [OF assms(2)] unfolding permits_wf_def
  by (intro ball_list_update) auto

lemma permits_current_update:
  assumes "permits_current b epoch ps" "i < length ps"
  shows "permits_current b epoch (ps[i := ((fst (ps ! i))\<lparr>once := x\<rparr>, snd (ps ! i))])"
  using assms nth_mem [OF assms(2)] unfolding permits_current_def
  by (intro ball_list_update) auto

lemma permits_wf_Suc:
  "permits_wf epoch ps \<Longrightarrow> permits_wf (Suc epoch) ps"
  by (fastforce simp: permits_wf_def)

lemma permits_wf_none_newer:
  "permits_wf epoch ps \<Longrightarrow> filter (live (Suc epoch)) ps = []"
  by (fastforce simp: permits_wf_def live_def filter_empty_conv)

lemma permits_current_Suc: "permits_wf epoch ps \<Longrightarrow> permits_current b (Suc epoch) ps"
  by (fastforce simp: permits_wf_def permits_current_def)

text \<open>After a state change no permit is live: the accounting starts afresh.\<close>

lemma sys_inv_changed:
  assumes "permits_wf epoch ps" "breaker_wf b" "generation b = of_nat (Suc epoch)"
    and "halfOpenAdmitted b = 0" "halfOpenSuccesses b = 0"
  shows "sys_inv \<lparr>sys_breaker = b, sys_permits = ps, sys_epoch = Suc epoch\<rparr>"
  using assms
  by (simp add: sys_inv_def in_flight_def permits_wf_none_newer permits_wf_Suc permits_current_Suc)

text \<open>Settling a live permit takes one probe out of flight.\<close>

lemma in_flight_settle:
  assumes "i < length ps" "live epoch (ps ! i)"
  shows "length (filter (live epoch) ps)
    = Suc (length (filter (live epoch) (ps[i := ((fst (ps ! i))\<lparr>once := True\<rparr>, snd (ps ! i))])))"
  using filter_count_update [OF assms(1), of "live epoch" "((fst (ps ! i))\<lparr>once := True\<rparr>, snd (ps ! i))"] assms(2)
  by (simp add: live_def)

lemma in_flight_settle_stale:
  assumes "i < length ps" "\<not> live epoch (ps ! i)"
  shows "length (filter (live epoch) (ps[i := ((fst (ps ! i))\<lparr>once := True\<rparr>, snd (ps ! i))]))
    = length (filter (live epoch) ps)"
  using filter_count_update [OF assms(1), of "live epoch" "((fst (ps ! i))\<lparr>once := True\<rparr>, snd (ps ! i))"] assms(2)
  by (auto simp: live_def split: if_splits)

subsection \<open>Every operation keeps it\<close>

lemma Acquire_closed:
  "state b = StateClosed \<Longrightarrow> Breaker_Acquire now b =
    (Inr \<lparr>hasBreaker = True, permitGeneration = generation b, probe = False, once = False\<rparr>, b)"
  by (simp add: Breaker_Acquire_def)

lemma Acquire_open_wait:
  "state b = StateOpen \<Longrightarrow> now < openedAt b + openTimeout b \<Longrightarrow>
    Breaker_Acquire now b = (Inl ErrOpen, b)"
  by (simp add: Breaker_Acquire_def)

lemma Acquire_open_probe:
  "breaker_wf b \<Longrightarrow> state b = StateOpen \<Longrightarrow> openedAt b + openTimeout b \<le> now \<Longrightarrow>
    Breaker_Acquire now b =
      (Inr \<lparr>hasBreaker = True, permitGeneration = generation b + 1, probe = True, once = False\<rparr>,
       (transitionLocked StateHalfOpen now b)\<lparr>halfOpenAdmitted := 1\<rparr>)"
  by (simp add: Breaker_Acquire_def breaker_wf_def Let_def)

lemma Acquire_half_limit:
  "state b = StateHalfOpen \<Longrightarrow> halfOpenMaxRequests b \<le> halfOpenAdmitted b \<Longrightarrow>
    Breaker_Acquire now b = (Inl ErrHalfOpenProbeLimit, b)"
  by (simp add: Breaker_Acquire_def)

lemma Acquire_half_probe:
  "state b = StateHalfOpen \<Longrightarrow> halfOpenAdmitted b < halfOpenMaxRequests b \<Longrightarrow>
    Breaker_Acquire now b =
      (Inr \<lparr>hasBreaker = True, permitGeneration = generation b, probe = True, once = False\<rparr>,
       b\<lparr>halfOpenAdmitted := halfOpenAdmitted b + 1\<rparr>)"
  by (simp add: Breaker_Acquire_def)

lemmas Acquire_cases =
  Acquire_closed Acquire_open_wait Acquire_open_probe Acquire_half_limit Acquire_half_probe

lemma sys_inv_acquire:
  assumes inv: "sys_inv s"
  shows "sys_inv (breaker_exec s (EvAcquire now))"
proof -
  let ?b = "sys_breaker s"
  have wf: "breaker_wf ?b" and gen: "generation ?b = of_nat (sys_epoch s)"
    and pw: "permits_wf (sys_epoch s) (sys_permits s)"
    and pc: "permits_current ?b (sys_epoch s) (sys_permits s)"
    using inv by (simp_all add: sys_inv_def)
  have wf': "breaker_wf (snd (Breaker_Acquire now ?b))" using wf by (rule breaker_wf_Acquire)
  consider "state ?b = StateClosed"
    | "state ?b = StateOpen" "now < openedAt ?b + openTimeout ?b"
    | "state ?b = StateOpen" "openedAt ?b + openTimeout ?b \<le> now"
    | "state ?b = StateHalfOpen" "halfOpenMaxRequests ?b \<le> halfOpenAdmitted ?b"
    | "state ?b = StateHalfOpen" "halfOpenAdmitted ?b < halfOpenMaxRequests ?b"
    using wf by (metis breaker_wf_cases not_le)
  then show ?thesis
  proof cases
    case 3
    with wf have "breaker_wf ((transitionLocked StateHalfOpen now ?b)\<lparr>halfOpenAdmitted := 1\<rparr>)"
      using wf' by (simp add: Acquire_open_probe)
    with 3 wf gen pw show ?thesis
      by (auto simp: breaker_exec.simps Acquire_open_probe sys_inv_def next_epoch_def in_flight_def
          permits_wf_none_newer live_def permits_wf_def permits_current_def Let_def)
  next
    case 5
    with wf' have "breaker_wf (?b\<lparr>halfOpenAdmitted := halfOpenAdmitted ?b + 1\<rparr>)"
      by (simp add: Acquire_half_probe)
    with 5 inv show ?thesis
      by (auto simp: breaker_exec.simps Acquire_half_probe sys_inv_def next_epoch_def in_flight_def
          live_def permits_wf_def permits_current_def Let_def)
  qed (use inv in \<open>auto simp: breaker_exec.simps Acquire_cases sys_inv_def next_epoch_def
      in_flight_def live_def permits_wf_def permits_current_def Let_def\<close>)
qed

lemma record_other_generation:
  "generation b \<noteq> gen \<Longrightarrow> Breaker_record gen isProbe success now b = b"
  by (simp add: Breaker_record_def)

text \<open>A permit of an earlier epoch never carries the current generation.\<close>

lemma stale_generation:
  assumes "sys_inv s" "sys_epoch s < 2 ^ 64" "i < length (sys_permits s)"
    and "snd (sys_permits s ! i) \<noteq> sys_epoch s"
  shows "generation (sys_breaker s) \<noteq> permitGeneration (fst (sys_permits s ! i))"
proof -
  have "snd (sys_permits s ! i) \<le> sys_epoch s"
    and gen: "permitGeneration (fst (sys_permits s ! i)) = of_nat (snd (sys_permits s ! i))"
    using assms(1,3) nth_mem by (fastforce simp: sys_inv_def permits_wf_def)+
  with assms(2,4) have "of_nat (sys_epoch s) \<noteq> (of_nat (snd (sys_permits s ! i)) :: 64 word)"
    using of_nat_word_eq_bounded [where 'a = 64, of "sys_epoch s" "snd (sys_permits s ! i)"] by auto
  with gen assms(1) show ?thesis by (simp add: sys_inv_def)
qed

lemma current_permit:
  assumes "sys_inv s" "i < length (sys_permits s)" "snd (sys_permits s ! i) = sys_epoch s"
  shows "state (sys_breaker s) \<noteq> StateOpen"
    and "probe (fst (sys_permits s ! i)) = (state (sys_breaker s) = StateHalfOpen)"
    and "permitGeneration (fst (sys_permits s ! i)) = generation (sys_breaker s)"
    and "hasBreaker (fst (sys_permits s ! i))"
  using assms nth_mem by (fastforce simp: sys_inv_def permits_wf_def permits_current_def)+

lemma permit_has_breaker:
  assumes "sys_inv s" "i < length (sys_permits s)"
  shows "hasBreaker (fst (sys_permits s ! i))"
  using assms nth_mem by (fastforce simp: sys_inv_def permits_wf_def)

abbreviation mark :: "(Permit \<times> nat) list \<Rightarrow> nat \<Rightarrow> (Permit \<times> nat) list" where
  "mark ps i \<equiv> ps[i := ((fst (ps ! i))\<lparr>once := True\<rparr>, snd (ps ! i))]"

lemma mark_settled: "once (fst (ps ! i)) \<Longrightarrow> mark ps i = ps"
proof -
  assume "once (fst (ps ! i))"
  then have "(fst (ps ! i))\<lparr>once := True\<rparr> = fst (ps ! i)" by (cases "fst (ps ! i)") simp
  then show "mark ps i = ps" by simp
qed

text \<open>Recording an outcome on, or cancelling, a permit that is not live changes no breaker field.\<close>

lemma exec_record_dead:
  assumes "sys_inv s" "sys_epoch s < 2 ^ 64" "i < length (sys_permits s)"
    and dead: "\<not> live (sys_epoch s) (sys_permits s ! i)"
  shows "breaker_exec s (EvRecord i ok now) = s\<lparr>sys_permits := mark (sys_permits s) i\<rparr>"
proof (cases "once (fst (sys_permits s ! i))")
  case True
  with assms(3) mark_settled [OF True] show ?thesis
    by (simp add: breaker_exec.simps settle_def Permit_record_def next_epoch_def)
next
  case False
  with dead have "generation (sys_breaker s) \<noteq> permitGeneration (fst (sys_permits s ! i))"
    using stale_generation [OF assms(1-3)] by (simp add: live_def)
  with False assms(3) permit_has_breaker [OF assms(1,3)] show ?thesis
    by (simp add: breaker_exec.simps settle_def Permit_record_def record_other_generation next_epoch_def)
qed

lemma exec_cancel_dead:
  assumes "sys_inv s" "sys_epoch s < 2 ^ 64" "i < length (sys_permits s)"
    and dead: "\<not> live (sys_epoch s) (sys_permits s ! i)"
  shows "breaker_exec s (EvCancel i) = s\<lparr>sys_permits := mark (sys_permits s) i\<rparr>"
proof (cases "once (fst (sys_permits s ! i))")
  case True
  with assms(3) mark_settled [OF True] show ?thesis
    by (simp add: breaker_exec.simps settle_def Permit_Cancel_def next_epoch_def)
next
  case False
  with dead have "generation (sys_breaker s) \<noteq> permitGeneration (fst (sys_permits s ! i))"
    using stale_generation [OF assms(1-3)] by (simp add: live_def)
  with False assms(3) permit_has_breaker [OF assms(1,3)] show ?thesis
    by (simp add: breaker_exec.simps settle_def Permit_Cancel_def Breaker_cancel_def next_epoch_def)
qed

lemma sys_inv_mark_dead:
  assumes "sys_inv s" "i < length (sys_permits s)" "\<not> live (sys_epoch s) (sys_permits s ! i)"
  shows "sys_inv (s\<lparr>sys_permits := mark (sys_permits s) i\<rparr>)"
  using assms
  by (simp add: sys_inv_def in_flight_def in_flight_settle_stale permits_wf_update permits_current_update)

text \<open>On a live permit the operations are the breaker's own.\<close>

lemma exec_record_live:
  assumes "sys_inv s" "i < length (sys_permits s)" "live (sys_epoch s) (sys_permits s ! i)"
    and "b' = Breaker_record (generation (sys_breaker s)) (state (sys_breaker s) = StateHalfOpen) ok now (sys_breaker s)"
  shows "breaker_exec s (EvRecord i ok now) =
    \<lparr>sys_breaker = b', sys_permits = mark (sys_permits s) i, sys_epoch = next_epoch s b'\<rparr>"
  using assms(2,3) current_permit [OF assms(1,2)] unfolding assms(4)
  by (simp add: breaker_exec.simps settle_def Permit_record_def live_def)

lemma exec_cancel_live:
  assumes "sys_inv s" "i < length (sys_permits s)" "live (sys_epoch s) (sys_permits s ! i)"
    and "b' = Breaker_cancel (generation (sys_breaker s)) (state (sys_breaker s) = StateHalfOpen) (sys_breaker s)"
  shows "breaker_exec s (EvCancel i) =
    \<lparr>sys_breaker = b', sys_permits = mark (sys_permits s) i, sys_epoch = next_epoch s b'\<rparr>"
  using assms(2,3) current_permit [OF assms(1,2)] unfolding assms(4)
  by (simp add: breaker_exec.simps settle_def Permit_Cancel_def live_def)

text \<open>A step that keeps the generation and the admitted count minus successes in step with the
  probes in flight keeps the invariant; so does a step that changes state.\<close>

lemma sys_inv_same_epoch:
  assumes inv: "sys_inv s" and i: "i < length (sys_permits s)"
    and live: "live (sys_epoch s) (sys_permits s ! i)"
    and b: "breaker_wf b" "generation b = generation (sys_breaker s)" "state b = state (sys_breaker s)"
    and acc: "state b = StateHalfOpen \<Longrightarrow>
      halfOpenAdmitted b - halfOpenSuccesses b
        = halfOpenAdmitted (sys_breaker s) - halfOpenSuccesses (sys_breaker s) - 1"
  shows "sys_inv \<lparr>sys_breaker = b, sys_permits = mark (sys_permits s) i, sys_epoch = next_epoch s b\<rparr>"
proof -
  have "permits_current b (sys_epoch s) (mark (sys_permits s) i)"
    using inv i b(3) by (intro permits_current_update) (simp_all add: sys_inv_def permits_current_def)
  moreover have "permits_wf (sys_epoch s) (mark (sys_permits s) i)"
    using inv i by (intro permits_wf_update) (simp_all add: sys_inv_def)
  ultimately show ?thesis
    using inv b acc in_flight_settle [OF i live] by (auto simp: sys_inv_def next_epoch_def in_flight_def)
qed

lemma sys_inv_new_epoch:
  assumes "sys_inv s" "i < length (sys_permits s)" "State_valid st"
    and "breaker_wf (transitionLocked st now b)" "generation b = generation (sys_breaker s)"
  shows "sys_inv \<lparr>sys_breaker = transitionLocked st now b, sys_permits = mark (sys_permits s) i,
    sys_epoch = next_epoch s (transitionLocked st now b)\<rparr>"
proof -
  have "permits_wf (sys_epoch s) (mark (sys_permits s) i)"
    using assms(1,2) by (intro permits_wf_update) (simp_all add: sys_inv_def)
  moreover have "generation (sys_breaker s) = of_nat (sys_epoch s)"
    using assms(1) by (simp add: sys_inv_def)
  ultimately show ?thesis
    using assms(4,5) by (simp add: next_epoch_def sys_inv_changed)
qed

text \<open>The six ways a recorded outcome of the current generation acts.\<close>

lemma record_half_failure:
  "state b = StateHalfOpen \<Longrightarrow>
    Breaker_record (generation b) True False now b = transitionLocked StateOpen now b"
  by (simp add: Breaker_record_def)

lemma record_half_last_success:
  "state b = StateHalfOpen \<Longrightarrow> halfOpenSuccesses b + 1 = halfOpenMaxRequests b \<Longrightarrow>
    Breaker_record (generation b) True True now b =
      transitionLocked StateClosed now (b\<lparr>halfOpenSuccesses := halfOpenSuccesses b + 1\<rparr>)"
  by (simp add: Breaker_record_def)

lemma record_half_success:
  "state b = StateHalfOpen \<Longrightarrow> halfOpenSuccesses b + 1 \<noteq> halfOpenMaxRequests b \<Longrightarrow>
    Breaker_record (generation b) True True now b =
      b\<lparr>halfOpenSuccesses := halfOpenSuccesses b + 1\<rparr>"
  by (simp add: Breaker_record_def)

lemma record_closed_success:
  "state b = StateClosed \<Longrightarrow>
    Breaker_record (generation b) False True now b = b\<lparr>consecutiveFailures := 0\<rparr>"
  by (simp add: Breaker_record_def)

lemma record_closed_trip:
  "state b = StateClosed \<Longrightarrow> consecutiveFailures b + 1 = failureThreshold b \<Longrightarrow>
    Breaker_record (generation b) False False now b =
      transitionLocked StateOpen now (b\<lparr>consecutiveFailures := consecutiveFailures b + 1\<rparr>)"
  by (simp add: Breaker_record_def)

lemma record_closed_failure:
  "state b = StateClosed \<Longrightarrow> consecutiveFailures b + 1 \<noteq> failureThreshold b \<Longrightarrow>
    Breaker_record (generation b) False False now b =
      b\<lparr>consecutiveFailures := consecutiveFailures b + 1\<rparr>"
  by (simp add: Breaker_record_def)

lemmas record_cases =
  record_half_failure record_half_last_success record_half_success
  record_closed_success record_closed_trip record_closed_failure

text \<open>Either the outcome changes the state, or it takes one probe out of flight.\<close>

lemma record_outcome:
  assumes "breaker_wf b" "state b \<noteq> StateOpen"
  defines "r \<equiv> \<lambda>ok now. Breaker_record (generation b) (state b = StateHalfOpen) ok now b"
  shows "(\<exists>st b'. State_valid st \<and> r ok now = transitionLocked st now b' \<and> generation b' = generation b)
    \<or> (generation (r ok now) = generation b \<and> state (r ok now) = state b \<and>
       (state b = StateHalfOpen \<longrightarrow>
          halfOpenAdmitted (r ok now) = halfOpenAdmitted b \<and>
          halfOpenSuccesses (r ok now) = halfOpenSuccesses b + 1))"
proof (cases "state b = StateHalfOpen")
  case True
  then show ?thesis
    by (cases ok; cases "halfOpenSuccesses b + 1 = halfOpenMaxRequests b")
      (force simp: r_def record_cases State_valid_def)+
next
  case False
  then have "state b = StateClosed" using assms(1,2) by (metis breaker_wf_cases)
  then show ?thesis
    by (cases ok; cases "consecutiveFailures b + 1 = failureThreshold b")
      (force simp: r_def record_cases State_valid_def)+
qed

lemma sys_inv_record_live:
  assumes inv: "sys_inv s" and i: "i < length (sys_permits s)"
    and live: "live (sys_epoch s) (sys_permits s ! i)"
  shows "sys_inv (breaker_exec s (EvRecord i ok now))"
proof -
  let ?b = "sys_breaker s"
  let ?b' = "Breaker_record (generation ?b) (state ?b = StateHalfOpen) ok now ?b"
  have wf: "breaker_wf ?b" using inv by (simp add: sys_inv_def)
  have wf': "breaker_wf ?b'" using wf by (rule breaker_wf_record)
  have "snd (sys_permits s ! i) = sys_epoch s" using live by (simp add: live_def)
  then have "state ?b \<noteq> StateOpen" by (rule current_permit(1) [OF inv i])
  with record_outcome [OF wf, of ok now] show ?thesis
    unfolding exec_record_live [OF inv i live refl]
    using sys_inv_new_epoch [OF inv i] sys_inv_same_epoch [OF inv i live wf'] wf' by fastforce
qed

lemma sys_inv_cancel_live:
  assumes inv: "sys_inv s" and i: "i < length (sys_permits s)"
    and live: "live (sys_epoch s) (sys_permits s ! i)"
  shows "sys_inv (breaker_exec s (EvCancel i))"
proof -
  let ?b = "sys_breaker s"
  let ?b' = "Breaker_cancel (generation ?b) (state ?b = StateHalfOpen) ?b"
  have wf': "breaker_wf ?b'" using inv by (simp add: sys_inv_def breaker_wf_cancel)
  have "0 < int (in_flight s)"
    using filter_count_pos [OF i, of "live (sys_epoch s)"] live unfolding in_flight_def by linarith
  then have pos: "state ?b = StateHalfOpen \<Longrightarrow> 0 < halfOpenAdmitted ?b"
    using inv by (simp add: sys_inv_def breaker_wf_def)
  show ?thesis
    unfolding exec_cancel_live [OF inv i live refl]
    using pos by (intro sys_inv_same_epoch [OF inv i live wf']) (auto simp: Breaker_cancel_def split: if_splits)
qed

lemma sys_inv_transition:
  assumes inv: "sys_inv s"
  shows "sys_inv (breaker_exec s (EvTransitionTo st now))"
proof (cases "State_valid st \<and> state (sys_breaker s) \<noteq> st \<and> validTransition (state (sys_breaker s)) st")
  case True
  moreover have "breaker_wf (transitionLocked st now (sys_breaker s))"
    using inv True by (simp add: sys_inv_def breaker_wf_transitionLocked)
  ultimately show ?thesis
    using inv sys_inv_changed [of "sys_epoch s" "sys_permits s" "transitionLocked st now (sys_breaker s)"]
    by (cases s) (auto simp: breaker_exec.simps Breaker_TransitionTo_def next_epoch_def sys_inv_def)
next
  case False
  then have "snd (Breaker_TransitionTo st now (sys_breaker s)) = sys_breaker s"
    by (auto simp: Breaker_TransitionTo_def)
  with inv show ?thesis by (simp add: breaker_exec.simps next_epoch_def)
qed

theorem sys_inv_exec [gatex_inv]:
  assumes "sys_inv s" "sys_epoch s < 2 ^ 64"
  shows "sys_inv (breaker_exec s e)"
proof (cases e)
  case (EvRecord i ok now)
  then show ?thesis
    using assms sys_inv_record_live sys_inv_mark_dead exec_record_dead
    by (cases "i < length (sys_permits s)"; cases "live (sys_epoch s) (sys_permits s ! i)")
      (simp_all add: breaker_exec.simps(2))
next
  case (EvCancel i)
  then show ?thesis
    using assms sys_inv_cancel_live sys_inv_mark_dead exec_cancel_dead
    by (cases "i < length (sys_permits s)"; cases "live (sys_epoch s) (sys_permits s ! i)")
      (simp_all add: breaker_exec.simps(3))
qed (use assms in \<open>simp_all add: sys_inv_acquire sys_inv_transition\<close>)

lemma sys_epoch_mono: "sys_epoch s \<le> sys_epoch (breaker_exec s e)"
  by (cases e) (auto simp: breaker_exec.simps next_epoch_def settle_def split_beta Let_def)

interpretation breaker_machine: invariant_machine breaker_exec "\<lambda>s. sys_epoch s < 2 ^ 64" sys_inv
  by unfold_locales (auto intro: sys_inv_exec le_less_trans [OF sys_epoch_mono])

section \<open>Reachable states\<close>

lemma sys_inv_start: "NewWithConfig config = Inr b \<Longrightarrow> sys_inv (breaker_start b)"
  using breaker_wf_newWithConfig [of config "Some ()" b]
  by (auto simp: NewWithConfig_def newWithConfig_def breaker_of_config_def breaker_start_def sys_inv_def
      permits_wf_def permits_current_def Let_def split: if_splits)

lemma breaker_exec_step: "breaker_step s e (breaker_exec s e) \<or> breaker_exec s e = s"
proof (cases e)
  case (EvRecord i ok now)
  then show ?thesis
    using step_record [of i s ok now]
    by (cases "i < length (sys_permits s)") (auto simp: breaker_exec.simps(2))
next
  case (EvCancel i)
  then show ?thesis
    using step_cancel [of i s] by (cases "i < length (sys_permits s)") (auto simp: breaker_exec.simps(3))
qed (use breaker_step.intros in auto)

lemma breaker_reachable_exec:
  "breaker_reachable config s \<Longrightarrow> breaker_reachable config (breaker_exec s e)"
  using breaker_exec_step [of s e] breaker_reachable.step by fastforce

lemma breaker_reachable_run:
  "NewWithConfig config = Inr b \<Longrightarrow> breaker_reachable config (foldl breaker_exec (breaker_start b) es)"
  by (induction es rule: rev_induct) (auto intro: breaker_reachable.init breaker_reachable_exec)

lemma breaker_reachable_ex_run:
  "breaker_reachable config s \<Longrightarrow>
    \<exists>b es. NewWithConfig config = Inr b \<and> s = foldl breaker_exec (breaker_start b) es"
proof (induction rule: breaker_reachable.induct)
  case (init b)
  then show ?case by (intro exI [of _ b] exI [of _ "[]"]) simp
next
  case (step s e t)
  then obtain b es where "NewWithConfig config = Inr b" "s = foldl breaker_exec (breaker_start b) es"
    by blast
  then show ?case using breaker_step_exec [OF step.hyps(2)]
    by (intro exI [of _ b] exI [of _ "es @ [e]"]) simp
qed

lemma breaker_reachable_inv:
  assumes "breaker_reachable config s" "sys_epoch s < 2 ^ 64"
  shows "sys_inv s"
  using breaker_reachable_ex_run [OF assms(1)] sys_inv_start breaker_machine.run_inv assms(2) by blast

text \<open>The invariant of the breaker alone needs no bound on the number of state changes.\<close>

lemma breaker_wf_exec: "breaker_wf (sys_breaker s) \<Longrightarrow> breaker_wf (sys_breaker (breaker_exec s e))"
  by (cases e) (auto simp: breaker_exec.simps settle_def split_beta Let_def intro: gatex_inv)

lemma breaker_limits_exec: "breaker_limits (sys_breaker (breaker_exec s e)) = breaker_limits (sys_breaker s)"
  by (cases e) (auto simp: breaker_exec.simps settle_def split_beta Let_def)

lemma breaker_reachable_wf: "breaker_reachable config s \<Longrightarrow> breaker_wf (sys_breaker s)"
proof (induction rule: breaker_reachable.induct)
  case (init b)
  then show ?case by (auto simp: breaker_start_def NewWithConfig_def intro: breaker_wf_newWithConfig)
next
  case (step s e t)
  then show ?case by (auto dest!: breaker_step_exec intro: breaker_wf_exec)
qed

section \<open>The abstract breaker\<close>

text \<open>
  What the breaker promises, without generations: a closed breaker with its failure streak, an
  open one with the instant it may be probed, a half-open one with its two counters; and for
  every permit whether its outcome still counts. A change of state revokes every permit issued
  before it.
\<close>

datatype breaker_view = VClosed int | VOpen time | VHalfOpen int int

fun same_kind :: "breaker_view \<Rightarrow> breaker_view \<Rightarrow> bool" where
  "same_kind (VClosed _) (VClosed _) = True"
| "same_kind (VOpen _) (VOpen _) = True"
| "same_kind (VHalfOpen _ _) (VHalfOpen _ _) = True"
| "same_kind _ _ = False"

definition view_of :: "Breaker \<Rightarrow> breaker_view" where
  "view_of b =
    (if state b = StateClosed then VClosed (consecutiveFailures b)
     else if state b = StateOpen then VOpen (openedAt b + openTimeout b)
     else VHalfOpen (halfOpenAdmitted b) (halfOpenSuccesses b))"

fun spec_acquire :: "int \<times> duration \<times> int \<Rightarrow> time \<Rightarrow> breaker_view \<Rightarrow> (BreakerError + bool) \<times> breaker_view" where
  "spec_acquire lim now (VClosed n) = (Inr False, VClosed n)"
| "spec_acquire lim now (VOpen retry) =
    (if now < retry then (Inl ErrOpen, VOpen retry) else (Inr True, VHalfOpen 1 0))"
| "spec_acquire (thr, timeout, m) now (VHalfOpen a k) =
    (if a \<ge> m then (Inl ErrHalfOpenProbeLimit, VHalfOpen a k) else (Inr True, VHalfOpen (a + 1) k))"

fun spec_record :: "int \<times> duration \<times> int \<Rightarrow> bool \<Rightarrow> time \<Rightarrow> breaker_view \<Rightarrow> breaker_view" where
  "spec_record (thr, timeout, m) ok now (VClosed n) =
    (if ok then VClosed 0 else if n + 1 = thr then VOpen (now + timeout) else VClosed (n + 1))"
| "spec_record (thr, timeout, m) ok now (VHalfOpen a k) =
    (if \<not> ok then VOpen (now + timeout) else if k + 1 = m then VClosed 0 else VHalfOpen a (k + 1))"
| "spec_record lim ok now (VOpen retry) = VOpen retry"

fun spec_cancel :: "breaker_view \<Rightarrow> breaker_view" where
  "spec_cancel (VHalfOpen a k) = VHalfOpen (a - 1) k"
| "spec_cancel v = v"

fun spec_transition :: "int \<times> duration \<times> int \<Rightarrow> State \<Rightarrow> time \<Rightarrow> breaker_view \<Rightarrow> breaker_view" where
  "spec_transition (thr, timeout, m) st now (VClosed n) =
    (if st = StateOpen then VOpen (now + timeout) else VClosed n)"
| "spec_transition (thr, timeout, m) st now (VOpen retry) =
    (if st = StateHalfOpen then VHalfOpen 0 0 else VOpen retry)"
| "spec_transition (thr, timeout, m) st now (VHalfOpen a k) =
    (if st = StateClosed then VClosed 0 else if st = StateOpen then VOpen (now + timeout)
     else VHalfOpen a k)"

definition revoke :: "breaker_view \<Rightarrow> breaker_view \<Rightarrow> bool list \<Rightarrow> bool list" where
  "revoke v v' fs = (if same_kind v v' then fs else replicate (length fs) False)"

fun spec_exec :: "int \<times> duration \<times> int \<Rightarrow> breaker_view \<times> bool list \<Rightarrow> breaker_event \<Rightarrow> breaker_view \<times> bool list" where
  "spec_exec lim (v, fs) (EvAcquire now) =
    (let (r, v') = spec_acquire lim now v
     in (v', revoke v v' fs @ (case r of Inl _ \<Rightarrow> [] | Inr _ \<Rightarrow> [True])))"
| "spec_exec lim (v, fs) (EvRecord i ok now) =
    (if i < length fs \<and> fs ! i
     then let v' = spec_record lim ok now v in (v', revoke v v' (fs[i := False])) else (v, fs))"
| "spec_exec lim (v, fs) (EvCancel i) =
    (if i < length fs \<and> fs ! i then (spec_cancel v, fs[i := False]) else (v, fs))"
| "spec_exec lim (v, fs) (EvTransitionTo st now) =
    (let v' = spec_transition lim st now v in (v', revoke v v' fs))"

definition breaker_abs :: "breaker_sys \<Rightarrow> breaker_view \<times> bool list" where
  "breaker_abs s = (view_of (sys_breaker s), map (live (sys_epoch s)) (sys_permits s))"

lemma same_kind_refl [simp]: "same_kind v v"
  by (cases v) auto

lemma live_Suc: "permits_wf epoch ps \<Longrightarrow> map (live (Suc epoch)) ps = replicate (length ps) False"
  by (fastforce simp: permits_wf_def live_def intro!: replicate_eqI)

lemma map_live_mark:
  "i < length ps \<Longrightarrow> map (live epoch) (mark ps i) = (map (live epoch) ps)[i := False]"
  by (simp add: map_update live_def)

lemma map_live_mark_dead:
  "i < length ps \<Longrightarrow> \<not> live epoch (ps ! i) \<Longrightarrow> map (live epoch) (mark ps i) = map (live epoch) ps"
  by (simp add: map_live_mark list_update_same_conv)

lemma breaker_abs_acquire:
  assumes inv: "sys_inv s"
  shows "breaker_abs (breaker_exec s (EvAcquire now))
    = spec_exec (breaker_limits (sys_breaker s)) (breaker_abs s) (EvAcquire now)"
proof -
  let ?b = "sys_breaker s"
  have wf: "breaker_wf ?b" and pw: "permits_wf (sys_epoch s) (sys_permits s)"
    using inv by (simp_all add: sys_inv_def)
  note defs = breaker_exec.simps breaker_abs_def view_of_def next_epoch_def breaker_limits_def
    revoke_def live_Suc [OF pw] live_def [of _ "(_, _)"] Let_def
  show ?thesis
  proof (rule breaker_wf_cases [OF wf])
    assume st: "state ?b = StateClosed"
    then show ?thesis by (simp add: Acquire_closed defs)
  next
    assume st: "state ?b = StateOpen"
    then show ?thesis
      by (cases "now < openedAt ?b + openTimeout ?b")
        (simp_all add: Acquire_open_wait Acquire_open_probe [OF wf] defs)
  next
    assume st: "state ?b = StateHalfOpen"
    then show ?thesis
      by (cases "halfOpenMaxRequests ?b \<le> halfOpenAdmitted ?b")
        (simp_all add: Acquire_half_limit Acquire_half_probe defs)
  qed
qed

lemma breaker_abs_record:
  assumes inv: "sys_inv s" and bound: "sys_epoch s < 2 ^ 64"
  shows "breaker_abs (breaker_exec s (EvRecord i ok now))
    = spec_exec (breaker_limits (sys_breaker s)) (breaker_abs s) (EvRecord i ok now)"
proof -
  let ?b = "sys_breaker s"
  consider "\<not> i < length (sys_permits s)"
    | (dead) "i < length (sys_permits s)" "\<not> live (sys_epoch s) (sys_permits s ! i)"
    | (alive) "i < length (sys_permits s)" "live (sys_epoch s) (sys_permits s ! i)" by blast
  then show ?thesis
  proof cases
    case dead
    with inv bound show ?thesis
      by (simp add: exec_record_dead breaker_abs_def map_live_mark_dead)
  next
    case alive
    have wf: "breaker_wf ?b" using inv by (simp add: sys_inv_def)
    have pw: "permits_wf (sys_epoch s) (sys_permits s)" using inv by (simp add: sys_inv_def)
    have "state ?b \<noteq> StateOpen" using current_permit(1) [OF inv alive(1)] alive(2) by (simp add: live_def)
    note defs = exec_record_live [OF inv alive refl] breaker_abs_def view_of_def next_epoch_def
      breaker_limits_def revoke_def live_Suc [OF pw] map_live_mark [OF alive(1)] alive Let_def list_update_same_conv
    show ?thesis
    proof (cases "state ?b = StateHalfOpen")
      case True
      then show ?thesis
        by (cases ok; cases "halfOpenSuccesses ?b + 1 = halfOpenMaxRequests ?b")
          (simp_all add: record_cases defs)
    next
      case False
      with \<open>state ?b \<noteq> StateOpen\<close> wf have "state ?b = StateClosed" by (metis breaker_wf_cases)
      then show ?thesis
        by (cases ok; cases "consecutiveFailures ?b + 1 = failureThreshold ?b")
          (simp_all add: record_cases defs)
    qed
  qed (simp add: breaker_exec.simps breaker_abs_def)
qed

lemma breaker_abs_cancel:
  assumes inv: "sys_inv s" and bound: "sys_epoch s < 2 ^ 64"
  shows "breaker_abs (breaker_exec s (EvCancel i))
    = spec_exec (breaker_limits (sys_breaker s)) (breaker_abs s) (EvCancel i)"
proof -
  let ?b = "sys_breaker s"
  consider "\<not> i < length (sys_permits s)"
    | (dead) "i < length (sys_permits s)" "\<not> live (sys_epoch s) (sys_permits s ! i)"
    | (alive) "i < length (sys_permits s)" "live (sys_epoch s) (sys_permits s ! i)" by blast
  then show ?thesis
  proof cases
    case dead
    with inv bound show ?thesis
      by (simp add: exec_cancel_dead breaker_abs_def map_live_mark_dead)
  next
    case alive
    have "0 < int (in_flight s)"
      using filter_count_pos [OF alive(1), of "live (sys_epoch s)"] alive(2)
      unfolding in_flight_def by linarith
    then have pos: "state ?b = StateHalfOpen \<Longrightarrow> 0 < halfOpenAdmitted ?b"
      using inv by (simp add: sys_inv_def breaker_wf_def)
    have "state ?b \<noteq> StateOpen" using current_permit(1) [OF inv alive(1)] alive(2) by (simp add: live_def)
    moreover have "State_valid (state ?b)" using inv by (simp add: sys_inv_def breaker_wf_def)
    ultimately show ?thesis
      using pos alive by (auto simp: State_valid_def exec_cancel_live [OF inv alive refl] breaker_abs_def view_of_def
          next_epoch_def map_live_mark Breaker_cancel_def)
  qed (simp add: breaker_exec.simps breaker_abs_def)
qed

lemma breaker_abs_transition:
  assumes inv: "sys_inv s"
  shows "breaker_abs (breaker_exec s (EvTransitionTo st now))
    = spec_exec (breaker_limits (sys_breaker s)) (breaker_abs s) (EvTransitionTo st now)"
proof -
  let ?b = "sys_breaker s"
  have wf: "breaker_wf ?b" and pw: "permits_wf (sys_epoch s) (sys_permits s)"
    using inv by (simp_all add: sys_inv_def)
  show ?thesis
    by (rule breaker_wf_cases [OF wf])
      (auto simp: breaker_exec.simps Breaker_TransitionTo_def State_valid_def validTransition_def
        breaker_abs_def view_of_def next_epoch_def breaker_limits_def revoke_def live_Suc [OF pw] Let_def)
qed

lemma breaker_abs_exec:
  assumes "sys_inv s" "sys_epoch s < 2 ^ 64"
  shows "breaker_abs (breaker_exec s e) = spec_exec (breaker_limits (sys_breaker s)) (breaker_abs s) e"
  using assms breaker_abs_acquire breaker_abs_record breaker_abs_cancel breaker_abs_transition
  by (cases e) simp_all

lemma breaker_abs_run:
  assumes "sys_inv s" "sys_epoch (foldl breaker_exec s es) < 2 ^ 64"
  shows "breaker_abs (foldl breaker_exec s es)
    = foldl (spec_exec (breaker_limits (sys_breaker s))) (breaker_abs s) es"
  using assms
proof (induction es arbitrary: s)
  case (Cons e es)
  from Cons.prems(2) have "sys_epoch s < 2 ^ 64" using breaker_machine.run_ok_back [of s "e # es"] by simp
  then have "sys_inv (breaker_exec s e)"
    and "breaker_abs (breaker_exec s e) = spec_exec (breaker_limits (sys_breaker s)) (breaker_abs s) e"
    using Cons.prems(1) sys_inv_exec breaker_abs_exec by simp_all
  with Cons show ?case by (simp add: breaker_limits_exec)
qed simp

section \<open>Runs of failures and of acquisitions\<close>

definition record_failures :: "time list \<Rightarrow> Breaker \<Rightarrow> Breaker" where
  "record_failures nows b = foldl (\<lambda>b now. Breaker_record (generation b) False False now b) b nows"

lemma record_failures_closed:
  assumes "state b = StateClosed" "consecutiveFailures b + int (length nows) < failureThreshold b"
  shows "record_failures nows b = b\<lparr>consecutiveFailures := consecutiveFailures b + int (length nows)\<rparr>"
  using assms
proof (induction nows arbitrary: b)
  case (Cons now nows)
  then show ?case
    using Cons.IH [of "b\<lparr>consecutiveFailures := consecutiveFailures b + 1\<rparr>"]
    by (simp add: record_failures_def record_closed_failure algebra_simps)
qed (simp add: record_failures_def)

fun acquire_all :: "time list \<Rightarrow> Breaker \<Rightarrow> (BreakerError + Permit) list \<times> Breaker" where
  "acquire_all [] b = ([], b)"
| "acquire_all (now # nows) b =
    (let (r, b) = Breaker_Acquire now b; (rs, b) = acquire_all nows b in (r # rs, b))"

definition admitted_probe :: "BreakerError + Permit \<Rightarrow> bool" where
  "admitted_probe r = (case r of Inr p \<Rightarrow> probe p | Inl _ \<Rightarrow> False)"

lemma acquire_all_half_open:
  assumes "state b = StateHalfOpen" "halfOpenAdmitted b \<le> halfOpenMaxRequests b"
  shows "map admitted_probe (fst (acquire_all nows b)) =
      map (\<lambda>i. halfOpenAdmitted b + int i < halfOpenMaxRequests b) [0..<length nows]
    \<and> (\<forall>r \<in> set (fst (acquire_all nows b)). admitted_probe r \<or> r = Inl ErrHalfOpenProbeLimit)"
  using assms
proof (induction nows arbitrary: b)
  case (Cons now nows)
  have shift: "map f [0..<Suc n] = f 0 # map (\<lambda>i. f (Suc i)) [0..<n]" for f :: "nat \<Rightarrow> bool" and n
    by (simp add: upt_conv_Cons map_Suc_upt [symmetric] del: upt_Suc)
  show ?case
  proof (cases "halfOpenAdmitted b < halfOpenMaxRequests b")
    case True
    with Cons.prems Cons.IH [of "b\<lparr>halfOpenAdmitted := halfOpenAdmitted b + 1\<rparr>"] show ?thesis
      by (simp add: Acquire_half_probe split_beta admitted_probe_def shift algebra_simps del: upt_Suc)
  next
    case False
    with Cons.prems Cons.IH [of b] show ?thesis
      by (simp add: Acquire_half_limit split_beta admitted_probe_def shift algebra_simps del: upt_Suc)
  qed
qed simp

section \<open>Properties\<close>

text \<open>C1 (refinement). Generations and \<^verbatim>\<open>sync.Once\<close> implement the abstract breaker: for a
  breaker built from any accepted configuration and any interleaving of acquisitions, recorded
  outcomes, cancellations and explicit transitions with fewer than \<open>2 ^ 64\<close> state changes, the
  state, the counters and the set of permits whose outcome still counts are those of the
  abstract machine, in which a state change revokes every earlier permit.\<close>

theorem breaker_refines_spec:
  assumes "NewWithConfig config = Inr b"
    and "sys_epoch (foldl breaker_exec (breaker_start b) es) < 2 ^ 64"
  shows "breaker_abs (foldl breaker_exec (breaker_start b) es)
    = foldl (spec_exec (breaker_limits b)) (VClosed 0, []) es"
proof -
  have "breaker_abs (breaker_start b) = (VClosed 0, [])"
    using assms(1) by (auto simp: NewWithConfig_def newWithConfig_def breaker_of_config_def breaker_start_def
        breaker_abs_def view_of_def Let_def split: if_splits)
  then show ?thesis
    using breaker_abs_run [OF sys_inv_start [OF assms(1)] assms(2)] by (simp add: breaker_start_def)
qed

text \<open>C11 (invariant). In every reachable state with fewer than \<open>2 ^ 64\<close> state changes, the probes
  a half-open breaker has admitted are the successful ones plus the unsettled permits of the
  current half-open cycle, never more than the configured maximum.\<close>

theorem half_open_probe_accounting:
  assumes "breaker_reachable config s" "sys_epoch s < 2 ^ 64"
    and "state (sys_breaker s) = StateHalfOpen"
  shows "halfOpenAdmitted (sys_breaker s) = halfOpenSuccesses (sys_breaker s) + int (in_flight s)
    \<and> halfOpenSuccesses (sys_breaker s) + int (in_flight s) \<le> halfOpenMaxRequests (sys_breaker s)"
  using breaker_reachable_inv [OF assms(1,2)] assms(3) by (auto simp: sys_inv_def breaker_wf_def)

text \<open>A half-open breaker is never stuck: once every permit of the current cycle has
  been settled, the next acquisition is admitted as a probe.\<close>

theorem half_open_not_stuck:
  assumes "breaker_reachable config s" "sys_epoch s < 2 ^ 64"
    and "state (sys_breaker s) = StateHalfOpen" "in_flight s = 0"
  shows "\<exists>p. fst (Breaker_Acquire now (sys_breaker s)) = Inr p \<and> probe p \<and> \<not> once p"
proof -
  have "halfOpenAdmitted (sys_breaker s) < halfOpenMaxRequests (sys_breaker s)"
    using breaker_reachable_inv [OF assms(1,2)] assms(3,4) by (auto simp: sys_inv_def breaker_wf_def)
  with assms(3) show ?thesis by (simp add: Acquire_half_probe)
qed

text \<open>Whatever goroutines do, a breaker moves only along the edges closed to open,
  open to half-open, half-open to closed and half-open to open.\<close>

theorem breaker_moves_along_valid_edges:
  assumes "breaker_reachable config s" "breaker_step s e t"
    and "state (sys_breaker t) \<noteq> state (sys_breaker s)"
  shows "validTransition (state (sys_breaker s)) (state (sys_breaker t))"
proof -
  have "breaker_wf (sys_breaker s)" using assms(1) by (rule breaker_reachable_wf)
  then show ?thesis
    using assms(3) unfolding breaker_step_exec [OF assms(2)]
    by (cases e; elim breaker_wf_cases)
      (auto simp: breaker_exec.simps settle_def Breaker_Acquire_def Permit_record_def Breaker_record_def
        Permit_Cancel_def Breaker_cancel_def Breaker_TransitionTo_def validTransition_def Let_def
        split: if_splits)
qed

text \<open>A closed breaker with no failure streak opens on exactly the
  \<open>failureThreshold\<close>-th consecutive failure, at the instant that failure is recorded; with fewer
  it stays closed and counts them.\<close>

theorem opens_at_failure_threshold:
  assumes "breaker_wf b" "state b = StateClosed" "consecutiveFailures b = 0"
  shows "(int (length nows) < failureThreshold b \<longrightarrow>
      state (record_failures nows b) = StateClosed \<and>
      consecutiveFailures (record_failures nows b) = int (length nows))
    \<and> (int (length nows) + 1 = failureThreshold b \<longrightarrow>
      state (record_failures (nows @ [now]) b) = StateOpen \<and>
      openedAt (record_failures (nows @ [now]) b) = now)"
proof (intro conjI impI)
  assume *: "int (length nows) + 1 = failureThreshold b"
  let ?c = "record_failures nows b"
  have "?c = b\<lparr>consecutiveFailures := int (length nows)\<rparr>"
    using * assms record_failures_closed [of b nows] by simp
  with assms * have "Breaker_record (generation ?c) False False now ?c
      = transitionLocked StateOpen now (?c\<lparr>consecutiveFailures := consecutiveFailures ?c + 1\<rparr>)"
    by (intro record_closed_trip) simp_all
  then show "state (record_failures (nows @ [now]) b) = StateOpen"
    and "openedAt (record_failures (nows @ [now]) b) = now"
    by (simp_all add: record_failures_def)
qed (use assms record_failures_closed [of b nows] in simp_all)

text \<open>Fail fast, then probe: an open breaker rejects every request until its
  timeout has passed, without changing; after that a burst of requests is admitted as probes up to
  \<open>halfOpenMaxRequests\<close> and every further one is rejected with the probe-limit error.\<close>

theorem open_waits_then_probes:
  assumes "breaker_wf b" "state b = StateOpen"
  shows "(now < openedAt b + openTimeout b \<longrightarrow> Breaker_Acquire now b = (Inl ErrOpen, b))
    \<and> (openedAt b + openTimeout b \<le> now \<longrightarrow>
      map admitted_probe (fst (acquire_all (now # nows) b))
        = map (\<lambda>i. int i < halfOpenMaxRequests b) [0..<Suc (length nows)]
      \<and> (\<forall>r \<in> set (fst (acquire_all (now # nows) b)). admitted_probe r \<or> r = Inl ErrHalfOpenProbeLimit))"
proof (intro conjI impI)
  assume *: "openedAt b + openTimeout b \<le> now"
  let ?h = "transitionLocked StateHalfOpen now b"
  have eq: "acquire_all (now # nows) b = acquire_all (now # nows) ?h"
    using assms * by (simp add: Acquire_open_probe Acquire_half_probe breaker_wf_def)
  have "0 \<le> halfOpenMaxRequests b" using assms(1) by (simp add: breaker_wf_def)
  then show "map admitted_probe (fst (acquire_all (now # nows) b))
        = map (\<lambda>i. int i < halfOpenMaxRequests b) [0..<Suc (length nows)]"
    and "\<forall>r \<in> set (fst (acquire_all (now # nows) b)). admitted_probe r \<or> r = Inl ErrHalfOpenProbeLimit"
    unfolding eq using acquire_all_half_open [of ?h "now # nows"] by simp_all
qed (use assms in \<open>simp add: Acquire_open_wait\<close>)

text \<open>Outcomes of obsolete requests are ignored: recording an outcome on, or
  cancelling, a permit that was settled before or was issued before the last state change leaves
  the breaker as it is (with fewer than \<open>2 ^ 64\<close> state changes).\<close>

theorem stale_permit_ignored:
  assumes "breaker_reachable config s" "sys_epoch s < 2 ^ 64" "i < length (sys_permits s)"
    and "once (fst (sys_permits s ! i)) \<or> snd (sys_permits s ! i) < sys_epoch s"
  shows "sys_breaker (breaker_exec s (EvRecord i ok now)) = sys_breaker s
    \<and> sys_breaker (breaker_exec s (EvCancel i)) = sys_breaker s"
proof -
  have "\<not> live (sys_epoch s) (sys_permits s ! i)" using assms(4) by (auto simp: live_def)
  then show ?thesis
    using breaker_reachable_inv [OF assms(1,2)] assms(2,3) by (simp add: exec_record_dead exec_cancel_dead)
qed

text \<open>A permit reports once: after \<^verbatim>\<open>RecordSuccess\<close>, \<^verbatim>\<open>RecordFailure\<close> or
  \<^verbatim>\<open>Cancel\<close>, every further call on the same permit leaves the breaker alone, whatever its
  generation.\<close>

theorem permit_reports_once:
  "\<forall>p' b'. (p', b') \<in> {Permit_RecordSuccess now p b, Permit_RecordFailure now p b, Permit_Cancel p b} \<longrightarrow>
    snd (Permit_RecordSuccess later p' b') = b' \<and> snd (Permit_RecordFailure later p' b') = b' \<and>
    snd (Permit_Cancel p' b') = b'"
  by (cases p) (auto simp: Permit_defs)

text \<open>\<^verbatim>\<open>TransitionTo\<close> changes the breaker exactly when the target is a declared state
  reachable by an edge; otherwise it reports which check failed and changes nothing, and repeating
  the current state is a no-op without error.\<close>

theorem transition_to_spec:
  assumes "breaker_wf b"
  shows "Breaker_TransitionTo st now b =
    (if st \<notin> {StateClosed, StateOpen, StateHalfOpen} then (Some (ErrInvalidState st), b)
     else if st = state b then (None, b)
     else if (state b, st) \<in> {(StateClosed, StateOpen), (StateOpen, StateHalfOpen),
         (StateHalfOpen, StateClosed), (StateHalfOpen, StateOpen)}
       then (None, transitionLocked st now b)
     else (Some (ErrInvalidTransition (state b) st), b))"
  using assms
  by (elim breaker_wf_cases) (auto simp: Breaker_TransitionTo_def State_valid_def validTransition_def)

text \<open>A breaker configuration is rejected exactly when a limit is negative; otherwise
  the breaker starts closed and empty, with zero limits replaced by the package defaults.\<close>

theorem new_breaker_spec:
  "(case NewWithConfig config of
      Inl _ \<Rightarrow> FailureThreshold config < 0 \<or> OpenTimeout config < 0 \<or> HalfOpenMaxRequests config < 0
    | Inr b \<Rightarrow> 0 \<le> FailureThreshold config \<and> 0 \<le> OpenTimeout config \<and> 0 \<le> HalfOpenMaxRequests config
        \<and> breaker_wf b \<and> view_of b = VClosed 0 \<and> generation b = 0
        \<and> breaker_limits b =
          (if FailureThreshold config = 0 then 5 else FailureThreshold config,
           if OpenTimeout config = 0 then 30 * Second else OpenTimeout config,
           if HalfOpenMaxRequests config = 0 then 1 else HalfOpenMaxRequests config))"
proof (cases "NewWithConfig config")
  case (Inl e)
  then show ?thesis by (auto simp: NewWithConfig_def newWithConfig_def Let_def split: if_splits)
next
  case (Inr b)
  then have "breaker_wf b" unfolding NewWithConfig_def by (rule breaker_wf_newWithConfig)
  with Inr show ?thesis
    by (auto simp: NewWithConfig_def newWithConfig_def breaker_of_config_def breaker_limits_def view_of_def
        breaker_default_defs Let_def split: if_splits)
qed

section \<open>Concrete runs\<close>

text \<open>Three failures open the breaker at instant 3; a late permit of the closed cycle and a probe
  follow.\<close>

definition sample_config :: BreakerConfig where
  "sample_config = \<lparr>FailureThreshold = 3, OpenTimeout = 10, HalfOpenMaxRequests = 2\<rparr>"

definition sample_breaker :: Breaker where
  "sample_breaker = breaker_of_config sample_config"

definition sample_trip :: "breaker_event list" where
  "sample_trip = [EvAcquire 0, EvAcquire 0, EvAcquire 0, EvAcquire 0,
    EvRecord 0 False 1, EvRecord 1 False 2, EvRecord 2 False 3]"

definition sample_open :: breaker_sys where
  "sample_open = foldl breaker_exec (breaker_start sample_breaker) sample_trip"

definition sample_half_open :: breaker_sys where
  "sample_half_open = foldl breaker_exec (breaker_start sample_breaker) (sample_trip @ [EvAcquire 13])"

definition sample_cancelled :: breaker_sys where
  "sample_cancelled =
    foldl breaker_exec (breaker_start sample_breaker) (sample_trip @ [EvAcquire 13, EvCancel 4])"

lemma sample_new: "NewWithConfig sample_config = Inr sample_breaker"
  by (simp add: NewWithConfig_def newWithConfig_def sample_config_def sample_breaker_def)

lemma sample_reachable:
  "breaker_reachable sample_config sample_half_open"
  "breaker_reachable sample_config sample_cancelled"
  "breaker_reachable sample_config sample_open"
  unfolding sample_half_open_def sample_cancelled_def sample_open_def
  by (rule breaker_reachable_run [OF sample_new])+

lemma sample_half_open_facts:
  "sys_epoch sample_half_open = 2" "state (sys_breaker sample_half_open) = StateHalfOpen"
  "length (sys_permits sample_half_open) = 5" "snd (sys_permits sample_half_open ! 3) = 0"
  "in_flight sample_half_open = 1"
  by code_simp+

lemma sample_cancelled_facts:
  "sys_epoch sample_cancelled = 2" "state (sys_breaker sample_cancelled) = StateHalfOpen"
  "in_flight sample_cancelled = 0"
  by code_simp+

lemma sample_open_facts:
  "state (sys_breaker sample_open) = StateOpen" "openedAt (sys_breaker sample_open) = 3"
  "openTimeout (sys_breaker sample_open) = 10" "halfOpenMaxRequests (sys_breaker sample_open) = 2"
  by code_simp+

lemma sample_breaker_facts:
  "state sample_breaker = StateClosed" "consecutiveFailures sample_breaker = 0"
  "failureThreshold sample_breaker = 3"
  by code_simp+

lemma sample_breaker_wf: "breaker_wf sample_breaker"
  using sample_new unfolding NewWithConfig_def by (rule breaker_wf_newWithConfig)

theorem breaker_refines_spec_witness:
  "breaker_abs (foldl breaker_exec (breaker_start sample_breaker) (sample_trip @ [EvAcquire 13]))
    = (VHalfOpen 1 0, [False, False, False, False, True])"
proof -
  have "sys_epoch (foldl breaker_exec (breaker_start sample_breaker) (sample_trip @ [EvAcquire 13])) < 2 ^ 64"
    using sample_half_open_facts(1) by (simp add: sample_half_open_def)
  from breaker_refines_spec [OF sample_new this]
  have "breaker_abs (foldl breaker_exec (breaker_start sample_breaker) (sample_trip @ [EvAcquire 13]))
      = foldl (spec_exec (breaker_limits sample_breaker)) (VClosed 0, []) (sample_trip @ [EvAcquire 13])" .
  also have "\<dots> = (VHalfOpen 1 0, [False, False, False, False, True])" by code_simp
  finally show ?thesis .
qed

theorem half_open_probe_accounting_witness:
  "halfOpenAdmitted (sys_breaker sample_half_open)
    = halfOpenSuccesses (sys_breaker sample_half_open) + int (in_flight sample_half_open)
    \<and> in_flight sample_half_open = 1"
  using half_open_probe_accounting [OF sample_reachable(1)] sample_half_open_facts by simp

theorem half_open_not_stuck_witness:
  "\<exists>p. fst (Breaker_Acquire 14 (sys_breaker sample_cancelled)) = Inr p \<and> probe p \<and> \<not> once p"
  using half_open_not_stuck [OF sample_reachable(2), of 14] sample_cancelled_facts by simp

theorem breaker_moves_along_valid_edges_witness:
  "state (sys_breaker (breaker_exec sample_open (EvAcquire 13))) = StateHalfOpen
    \<and> validTransition (state (sys_breaker sample_open))
        (state (sys_breaker (breaker_exec sample_open (EvAcquire 13))))"
proof -
  have st: "state (sys_breaker (breaker_exec sample_open (EvAcquire 13))) = StateHalfOpen" by code_simp
  with sample_open_facts(1) breaker_moves_along_valid_edges [OF sample_reachable(3) step_acquire, of 13]
  show ?thesis by simp
qed

theorem opens_at_failure_threshold_witness:
  "state (record_failures [1, 2, 7] sample_breaker) = StateOpen
    \<and> openedAt (record_failures [1, 2, 7] sample_breaker) = 7"
  using opens_at_failure_threshold [OF sample_breaker_wf sample_breaker_facts(1,2), of "[1, 2]" 7]
    sample_breaker_facts(3) by simp

theorem open_waits_then_probes_witness:
  "fst (Breaker_Acquire 12 (sys_breaker sample_open)) = Inl ErrOpen
    \<and> map admitted_probe (fst (acquire_all [13, 13, 13, 14] (sys_breaker sample_open)))
      = [True, True, False, False]"
proof -
  have "breaker_wf (sys_breaker sample_open)" using sample_reachable(3) by (rule breaker_reachable_wf)
  from open_waits_then_probes [OF this sample_open_facts(1), of 12 "[]"]
    open_waits_then_probes [OF this sample_open_facts(1), of 13 "[13, 13, 14]"]
  show ?thesis using sample_open_facts(2-) by (simp add: upt_rec)
qed

theorem stale_permit_ignored_witness:
  "sys_breaker (breaker_exec sample_half_open (EvRecord 3 False 20)) = sys_breaker sample_half_open"
  using stale_permit_ignored [OF sample_reachable(1), of 3 False 20] sample_half_open_facts by simp

definition sample_permit :: Permit where
  "sample_permit = \<lparr>hasBreaker = True, permitGeneration = 0, probe = False, once = False\<rparr>"

theorem permit_reports_once_witness:
  "snd (Permit_RecordFailure 5 (fst (Permit_RecordSuccess 4 (Some sample_permit) sample_breaker))
      (snd (Permit_RecordSuccess 4 (Some sample_permit) sample_breaker)))
    = snd (Permit_RecordSuccess 4 (Some sample_permit) sample_breaker)"
  using permit_reports_once [of 4 "Some sample_permit" sample_breaker 5] by (metis insertI1 prod.collapse)

theorem transition_to_spec_witness:
  "Breaker_TransitionTo StateHalfOpen 9 sample_breaker
    = (Some (ErrInvalidTransition StateClosed StateHalfOpen), sample_breaker)"
  using transition_to_spec [OF sample_breaker_wf, of StateHalfOpen 9] sample_breaker_facts(1) by simp

end
