(* ===== verification/Float64.thy ===== *)
theory Float64
  imports Prelude "HOL-Library.Log_Nat"
begin

text \<open>
  Go's \<^verbatim>\<open>float64\<close> as the rate limiter and the \<^verbatim>\<open>Retry-After\<close> computation use it: IEEE 754
  binary64 with rounding to nearest, ties to even. A finite value is the rational number it
  denotes; an operation rounds its exact rational result. \<open>fl_exp\<close> is the exponent of the last
  mantissa bit (never below \<open>-1074\<close>, the subnormals), and a result of magnitude \<open>2 ^ 1024\<close> or
  more after rounding is an infinity. The sign of a zero is not kept: no operation of the source
  tells the zeros apart.
\<close>

section \<open>Rounding\<close>

definition rat_log2 :: "rat \<Rightarrow> int" where
  "rat_log2 x =
    (let (p, q) = quotient_of x; k = bitlen p - bitlen q in if 2 powi k \<le> x then k else k - 1)"

definition fl_exp :: "rat \<Rightarrow> int" where
  "fl_exp x = max (- 1074) (rat_log2 \<bar>x\<bar> - 52)"

definition round_even :: "rat \<Rightarrow> int" where
  "round_even x =
    (let f = \<lfloor>x\<rfloor>; d = x - of_int f
     in if d < 1 / 2 then f else if 1 / 2 < d then f + 1 else if even f then f else f + 1)"

definition fl_round :: "rat \<Rightarrow> rat" where
  "fl_round x =
    (if x = 0 then 0
     else sgn x * (of_int (round_even (\<bar>x\<bar> / 2 powi fl_exp x)) * 2 powi fl_exp x))"

lemma rat_log2:
  assumes "0 < x"
  shows "2 powi rat_log2 x \<le> x" and "x < 2 powi (rat_log2 x + 1)"
proof -
  obtain p q where pq: "quotient_of x = (p, q)" by fastforce
  have q: "0 < q" using pq by (rule quotient_of_denom_pos)
  have x: "x = of_int p / of_int q" using pq by (rule quotient_of_div)
  with assms q have p: "0 < p" by (simp add: zero_less_divide_iff)
  have *: "2 powi (bitlen n - 1) \<le> (of_int n :: rat) \<and> (of_int n :: rat) < 2 powi bitlen n" if "0 < n" for n
  proof -
    have b: "0 < bitlen n" using that bitlen_nonneg [of n] bitlen_eq_zero_iff [of n] by linarith
    have "(of_int (2 ^ nat (bitlen n - 1)) :: rat) \<le> of_int n"
      and "of_int n < (of_int (2 ^ nat (bitlen n)) :: rat)"
      using bitlen_bounds [OF that] by (simp_all only: of_int_le_iff of_int_less_iff)
    with b show ?thesis by (simp add: power_int_nonneg_exp)
  qed
  let ?k = "bitlen p - bitlen q"
  have "x < 2 powi bitlen p / 2 powi (bitlen q - 1)"
    unfolding x using * [OF p] * [OF q] p q by (intro frac_less) auto
  then have up: "x < 2 powi (?k + 1)" by (simp add: power_int_diff power_int_add algebra_simps)
  have "2 powi (bitlen p - 1) / 2 powi bitlen q < x"
    unfolding x using * [OF p] * [OF q] p q by (intro frac_less2) auto
  then have lo: "2 powi (?k - 1) < x" by (simp add: power_int_diff)
  have r: "rat_log2 x = (if 2 powi ?k \<le> x then ?k else ?k - 1)" by (simp add: rat_log2_def pq)
  show "2 powi rat_log2 x \<le> x" using lo by (simp add: r)
  show "x < 2 powi (rat_log2 x + 1)" using up by (simp add: r)
qed

lemma fl_exp_bounds:
  assumes "0 < x"
  shows "x < 2 powi (fl_exp x + 53)" and "fl_exp x = - 1074 \<or> 2 powi (fl_exp x + 52) \<le> x"
    and "- 1074 \<le> fl_exp x"
proof -
  have "x < 2 powi (rat_log2 x + 1)" using assms by (rule rat_log2)
  also have "\<dots> \<le> 2 powi (fl_exp x + 53)"
    using assms by (intro power_int_increasing) (auto simp: fl_exp_def)
  finally show "x < 2 powi (fl_exp x + 53)" .
  show "fl_exp x = - 1074 \<or> 2 powi (fl_exp x + 52) \<le> x"
    using rat_log2(1) [OF assms] assms by (auto simp: fl_exp_def max_def)
qed (simp add: fl_exp_def)

lemma rat_log2_mono: "0 < x \<Longrightarrow> x \<le> y \<Longrightarrow> rat_log2 x \<le> rat_log2 y"
proof -
  assume "0 < x" "x \<le> y"
  then have "\<not> (2 :: rat) powi (rat_log2 y + 1) \<le> 2 powi rat_log2 x"
    using rat_log2(1) [of x] rat_log2(2) [of y] by linarith
  then have "\<not> rat_log2 y + 1 \<le> rat_log2 x"
    using power_int_increasing [of "rat_log2 y + 1" "rat_log2 x" "2 :: rat"] by auto
  then show ?thesis by simp
qed

lemma fl_exp_mono: "0 < x \<Longrightarrow> x \<le> y \<Longrightarrow> fl_exp x \<le> fl_exp y"
  using rat_log2_mono [of x y] by (simp add: fl_exp_def max_def)

lemma round_even_error: "\<bar>of_int (round_even x) - x\<bar> \<le> 1 / 2"
proof -
  have "of_int \<lfloor>x\<rfloor> \<le> x" "x < of_int \<lfloor>x\<rfloor> + 1" by linarith+
  then show ?thesis by (auto simp: round_even_def Let_def)
qed

lemma round_even_of_int [simp]: "round_even (of_int n) = n"
  by (simp add: round_even_def)

lemma round_even_mono:
  assumes "x \<le> y"
  shows "round_even x \<le> round_even y"
proof (cases "\<lfloor>x\<rfloor> = \<lfloor>y\<rfloor>")
  case True
  with assms show ?thesis by (auto simp: round_even_def Let_def)
next
  case False
  with assms have "\<lfloor>x\<rfloor> + 1 \<le> \<lfloor>y\<rfloor>" using floor_mono [OF assms] by linarith
  then show ?thesis by (auto simp: round_even_def Let_def)
qed

lemma round_even_ge: "of_int n \<le> x \<Longrightarrow> n \<le> round_even x"
  using round_even_mono [of "of_int n" x] by simp

lemma round_even_le: "x \<le> of_int n \<Longrightarrow> round_even x \<le> n"
  using round_even_mono [of x "of_int n"] by simp

lemma fl_round_0 [simp]: "fl_round 0 = 0"
  by (simp add: fl_round_def)

lemma fl_round_minus: "fl_round (- x) = - fl_round x"
  by (simp add: fl_round_def fl_exp_def sgn_minus)

lemma fl_round_pos_def:
  "0 < x \<Longrightarrow> fl_round x = of_int (round_even (x / 2 powi fl_exp x)) * 2 powi fl_exp x"
  by (simp add: fl_round_def)

lemma fl_round_nonneg: "0 \<le> x \<Longrightarrow> 0 \<le> fl_round x"
  using round_even_ge [of 0 "x / 2 powi fl_exp x"]
  by (cases "x = 0") (simp_all add: fl_round_pos_def zero_le_mult_iff)

text \<open>Rounding stays within the binade, and reaches at least its lower end.\<close>

lemma fl_round_upper: "0 < x \<Longrightarrow> fl_round x \<le> 2 powi (fl_exp x + 53)"
proof -
  assume x: "0 < x"
  have "x / 2 powi fl_exp x \<le> of_int (2 ^ 53)"
    using fl_exp_bounds(1) [OF x] by (simp add: divide_le_eq power_int_add mult.commute)
  then have "of_int (round_even (x / 2 powi fl_exp x)) \<le> (of_int (2 ^ 53) :: rat)"
    by (simp only: of_int_le_iff round_even_le)
  then have "of_int (round_even (x / 2 powi fl_exp x)) * 2 powi fl_exp x
      \<le> (of_int (2 ^ 53) :: rat) * 2 powi fl_exp x"
    by (rule mult_right_mono) simp
  then show ?thesis by (simp add: fl_round_pos_def [OF x] power_int_add mult.commute)
qed

lemma fl_round_lower: "0 < x \<Longrightarrow> 2 powi (fl_exp x + 52) \<le> x \<Longrightarrow> 2 powi (fl_exp x + 52) \<le> fl_round x"
proof -
  assume x: "0 < x" and lo: "2 powi (fl_exp x + 52) \<le> x"
  have "of_int (2 ^ 52) \<le> x / 2 powi fl_exp x"
    using lo by (simp add: le_divide_eq power_int_add mult.commute)
  then have "(of_int (2 ^ 52) :: rat) \<le> of_int (round_even (x / 2 powi fl_exp x))"
    by (simp only: of_int_le_iff round_even_ge)
  then have "(of_int (2 ^ 52) :: rat) * 2 powi fl_exp x
      \<le> of_int (round_even (x / 2 powi fl_exp x)) * 2 powi fl_exp x"
    by (rule mult_right_mono) simp
  then show ?thesis by (simp add: fl_round_pos_def [OF x] power_int_add mult.commute)
qed

lemma fl_round_mono_pos:
  assumes x: "0 < x" and xy: "x \<le> y"
  shows "fl_round x \<le> fl_round y"
proof (cases "fl_exp x = fl_exp y")
  case True
  have y: "0 < y" using assms by simp
  have "round_even (x / 2 powi fl_exp x) \<le> round_even (y / 2 powi fl_exp x)"
    using xy by (intro round_even_mono divide_right_mono) simp_all
  then show ?thesis using True by (simp add: fl_round_pos_def [OF x] fl_round_pos_def [OF y])
next
  case False
  have y: "0 < y" using assms by simp
  from False fl_exp_mono [OF assms] have less: "fl_exp x < fl_exp y" by simp
  then have "2 powi (fl_exp y + 52) \<le> y" using fl_exp_bounds [OF x] fl_exp_bounds(2) [OF y] by auto
  then have "2 powi (fl_exp y + 52) \<le> fl_round y" by (rule fl_round_lower [OF y])
  moreover have "(2 :: rat) powi (fl_exp x + 53) \<le> 2 powi (fl_exp y + 52)"
    using less by (intro power_int_increasing) simp_all
  ultimately show ?thesis using fl_round_upper [OF x] by linarith
qed

lemma fl_round_mono: "x \<le> y \<Longrightarrow> fl_round x \<le> fl_round y"
proof -
  assume xy: "x \<le> y"
  consider "0 < x" | "x \<le> 0" "0 \<le> y" | "y < 0" by linarith
  then show ?thesis
  proof cases
    case 2
    then show ?thesis using fl_round_nonneg [of y] fl_round_nonneg [of "- x"] by (simp add: fl_round_minus)
  next
    case 3
    with xy have "fl_round (- y) \<le> fl_round (- x)" by (intro fl_round_mono_pos) simp_all
    then show ?thesis by (simp add: fl_round_minus)
  qed (use fl_round_mono_pos xy in simp)
qed

text \<open>Relative error \<open>2 ^ -53\<close> for normal results, absolute error \<open>2 ^ -1075\<close> for subnormal ones.\<close>

definition fl_unit :: rat where
  "fl_unit = 1 / 2 ^ 53"

definition fl_tiny :: rat where
  "fl_tiny = 2 powi (- 1075)"

lemma fl_unit_pos [simp]: "0 < fl_unit" "0 \<le> fl_unit"
  by (simp_all add: fl_unit_def)

lemma fl_tiny_pos [simp]: "0 < fl_tiny" "0 \<le> fl_tiny"
  by (simp_all add: fl_tiny_def)

lemma fl_round_error_pos:
  assumes x: "0 < x"
  shows "\<bar>fl_round x - x\<bar> \<le> fl_unit * x + fl_tiny"
proof -
  let ?e = "fl_exp x"
  have "fl_round x - x = (of_int (round_even (x / 2 powi ?e)) - x / 2 powi ?e) * 2 powi ?e"
    by (simp add: fl_round_pos_def [OF x] left_diff_distrib)
  then have "\<bar>fl_round x - x\<bar> = \<bar>of_int (round_even (x / 2 powi ?e)) - x / 2 powi ?e\<bar> * 2 powi ?e"
    by (simp add: abs_mult)
  also have "\<dots> \<le> 1 / 2 * 2 powi ?e"
    by (intro mult_right_mono round_even_error) simp
  also have "\<dots> \<le> fl_unit * x + fl_tiny"
  proof (cases "?e = - 1074")
    case True
    have "(2 :: rat) powi (- 1075) = 2 powi (- 1074) * 2 powi (- 1)"
      by (subst power_int_add [symmetric]) simp_all
    then have "1 / 2 * (2 :: rat) powi ?e = fl_tiny" by (simp add: True fl_tiny_def)
    then show ?thesis using x by simp
  next
    case False
    then have "2 powi (?e + 52) \<le> x" using fl_exp_bounds(2) [OF x] by simp
    then have "fl_unit * (2 powi ?e * 2 ^ 52) \<le> fl_unit * x"
      by (intro mult_left_mono) (simp_all add: power_int_add)
    moreover have "fl_unit * (2 powi ?e * 2 ^ 52) = 1 / 2 * 2 powi ?e" by (simp add: fl_unit_def)
    ultimately show ?thesis using fl_tiny_pos by linarith
  qed
  finally show ?thesis .
qed

lemma fl_round_error: "\<bar>fl_round x - x\<bar> \<le> fl_unit * \<bar>x\<bar> + fl_tiny"
proof -
  consider "0 < x" | "x = 0" | "x < 0" by linarith
  then show ?thesis
  proof cases
    case 3
    then have "\<bar>fl_round (- x) - (- x)\<bar> \<le> fl_unit * (- x) + fl_tiny" by (intro fl_round_error_pos) simp
    with 3 show ?thesis by (simp add: fl_round_minus)
  qed (simp_all add: fl_round_error_pos)
qed

text \<open>Rounding is exact on the numbers \<open>m * 2 ^ k\<close> with at most 53 bits of mantissa.\<close>

lemma fl_round_exact_pos:
  assumes m: "0 < m" "m < 2 ^ 53" and k: "- 1074 \<le> k"
  shows "fl_round (of_int m * 2 powi k) = of_int m * 2 powi k"
proof -
  let ?x = "(of_int m :: rat) * 2 powi k"
  let ?e = "fl_exp ?x"
  have x: "0 < ?x" using m by simp
  have "(of_int m :: rat) < of_int (2 ^ 53)" using m(2) by (simp only: of_int_less_iff)
  then have "?x < 2 powi (k + 53)" by (simp add: power_int_add mult.commute)
  then have "\<not> (2 :: rat) powi (k + 53) \<le> 2 powi rat_log2 ?x" using rat_log2(1) [OF x] by linarith
  then have "\<not> k + 53 \<le> rat_log2 ?x"
    using power_int_increasing [of "k + 53" "rat_log2 ?x" "2 :: rat"] by auto
  then have e: "?e \<le> k" using k x by (simp add: fl_exp_def)
  have "?x / 2 powi ?e = of_int m * 2 powi (k - ?e)" by (simp add: power_int_diff)
  also have "\<dots> = of_int (m * 2 ^ nat (k - ?e))" using e by (simp add: power_int_nonneg_exp)
  finally have "?x / 2 powi ?e = of_int (m * 2 ^ nat (k - ?e))" .
  then have "of_int (round_even (?x / 2 powi ?e)) = ?x / 2 powi ?e" by (simp only: round_even_of_int)
  then show ?thesis by (simp add: fl_round_pos_def [OF x])
qed

lemma fl_round_exact:
  assumes "\<bar>m\<bar> \<le> 2 ^ 53" "- 1074 \<le> k"
  shows "fl_round (of_int m * 2 powi k) = of_int m * 2 powi k"
proof -
  have pos: "fl_round (of_int n * 2 powi k) = of_int n * 2 powi k" if "0 < n" "n \<le> 2 ^ 53" for n
  proof (cases "n = 2 ^ 53")
    case True
    have eq: "(of_int (2 ^ 53) :: rat) * 2 powi k = of_int (2 ^ 52) * 2 powi (k + 1)"
      by (simp add: power_int_add)
    have "fl_round (of_int (2 ^ 52) * 2 powi (k + 1)) = of_int (2 ^ 52) * 2 powi (k + 1)"
      using assms(2) by (intro fl_round_exact_pos) simp_all
    then show ?thesis by (simp only: True eq)
  next
    case False
    with that assms(2) show ?thesis by (intro fl_round_exact_pos) simp_all
  qed
  consider "0 < m" | "m = 0" | "m < 0" by linarith
  then show ?thesis
  proof cases
    case 3
    with assms(1) have "fl_round (of_int (- m) * 2 powi k) = of_int (- m) * 2 powi k" by (intro pos) simp_all
    then show ?thesis by (simp add: fl_round_minus)
  qed (use pos assms(1) in simp_all)
qed

lemma fl_round_of_int: "\<bar>n\<bar> \<le> 2 ^ 53 \<Longrightarrow> fl_round (of_int n) = of_int n"
  using fl_round_exact [of n 0] by simp

lemma fl_round_1 [simp]: "fl_round 1 = 1"
  using fl_round_of_int [of 1] by simp

lemma fl_round_idem [simp]: "fl_round (fl_round x) = fl_round x"
proof -
  have pos: "fl_round (fl_round y) = fl_round y" if y: "0 < y" for y
  proof -
    let ?m = "round_even (y / 2 powi fl_exp y)"
    have "y / 2 powi fl_exp y \<le> of_int (2 ^ 53)"
      using fl_exp_bounds(1) [OF y] by (simp add: divide_le_eq power_int_add mult.commute)
    then have "?m \<le> 2 ^ 53" by (rule round_even_le)
    moreover have "0 \<le> ?m" using y by (intro round_even_ge) simp
    ultimately have "fl_round (of_int ?m * 2 powi fl_exp y) = of_int ?m * 2 powi fl_exp y"
      using fl_exp_bounds(3) [OF y] by (intro fl_round_exact) simp_all
    then show ?thesis by (simp add: fl_round_pos_def [OF y])
  qed
  consider "0 < x" | "x = 0" | "x < 0" by linarith
  then show ?thesis
  proof cases
    case 3
    then have "fl_round (fl_round (- x)) = fl_round (- x)" by (intro pos) simp
    then show ?thesis by (simp add: fl_round_minus)
  qed (simp_all add: pos)
qed

section \<open>Values and operations\<close>

datatype float64 = Fin rat | PosInf | NegInf | NaN

definition fl :: "rat \<Rightarrow> float64" where
  "fl x =
    (let y = fl_round x
     in if 2 ^ 1024 \<le> y then PosInf else if y \<le> - (2 ^ 1024) then NegInf else Fin y)"

text \<open>\<open>finite64 v\<close>: \<open>v\<close> is a finite float64 value (its rational is representable).\<close>

definition finite64 :: "float64 \<Rightarrow> bool" where
  "finite64 v = (case v of Fin r \<Rightarrow> fl_round r = r \<and> \<bar>r\<bar> < 2 ^ 1024 | _ \<Rightarrow> False)"

fun fl_sign :: "rat \<Rightarrow> float64" where
  "fl_sign r = (if r = 0 then NaN else if 0 < r then PosInf else NegInf)"

fun neg64 :: "float64 \<Rightarrow> float64" where
  "neg64 (Fin a) = Fin (- a)"
| "neg64 PosInf = NegInf"
| "neg64 NegInf = PosInf"
| "neg64 NaN = NaN"

fun add64 :: "float64 \<Rightarrow> float64 \<Rightarrow> float64" where
  "add64 (Fin a) (Fin b) = fl (a + b)"
| "add64 NaN _ = NaN"
| "add64 _ NaN = NaN"
| "add64 PosInf NegInf = NaN"
| "add64 NegInf PosInf = NaN"
| "add64 PosInf _ = PosInf"
| "add64 NegInf _ = NegInf"
| "add64 _ PosInf = PosInf"
| "add64 _ NegInf = NegInf"

fun mul64 :: "float64 \<Rightarrow> float64 \<Rightarrow> float64" where
  "mul64 (Fin a) (Fin b) = fl (a * b)"
| "mul64 NaN _ = NaN"
| "mul64 _ NaN = NaN"
| "mul64 PosInf PosInf = PosInf"
| "mul64 NegInf NegInf = PosInf"
| "mul64 PosInf NegInf = NegInf"
| "mul64 NegInf PosInf = NegInf"
| "mul64 PosInf (Fin b) = fl_sign b"
| "mul64 NegInf (Fin b) = fl_sign (- b)"
| "mul64 (Fin a) PosInf = fl_sign a"
| "mul64 (Fin a) NegInf = fl_sign (- a)"

fun div64 :: "float64 \<Rightarrow> float64 \<Rightarrow> float64" where
  "div64 (Fin a) (Fin b) = (if b = 0 then fl_sign a else fl (a / b))"
| "div64 NaN _ = NaN"
| "div64 _ NaN = NaN"
| "div64 (Fin a) _ = Fin 0"
| "div64 PosInf (Fin b) = (if b < 0 then NegInf else PosInf)"
| "div64 NegInf (Fin b) = (if b < 0 then PosInf else NegInf)"
| "div64 _ _ = NaN"

fun less64 :: "float64 \<Rightarrow> float64 \<Rightarrow> bool" where
  "less64 (Fin a) (Fin b) = (a < b)"
| "less64 NaN _ = False"
| "less64 _ NaN = False"
| "less64 NegInf v = (v \<noteq> NegInf)"
| "less64 v PosInf = (v \<noteq> PosInf)"
| "less64 _ _ = False"

text \<open>The arithmetic and comparison operators of the source are those of the type.\<close>

instantiation float64 :: "{plus, minus, uminus, times, inverse, ord}"
begin

definition plus_float64 :: "float64 \<Rightarrow> float64 \<Rightarrow> float64" where
  "plus_float64 = add64"

definition uminus_float64 :: "float64 \<Rightarrow> float64" where
  "uminus_float64 = neg64"

definition minus_float64 :: "float64 \<Rightarrow> float64 \<Rightarrow> float64" where
  "minus_float64 a b = add64 a (neg64 b)"

definition times_float64 :: "float64 \<Rightarrow> float64 \<Rightarrow> float64" where
  "times_float64 = mul64"

definition divide_float64 :: "float64 \<Rightarrow> float64 \<Rightarrow> float64" where
  "divide_float64 = div64"

definition inverse_float64 :: "float64 \<Rightarrow> float64" where
  "inverse_float64 = div64 (Fin 1)"

definition less_float64 :: "float64 \<Rightarrow> float64 \<Rightarrow> bool" where
  "less_float64 = less64"

definition less_eq_float64 :: "float64 \<Rightarrow> float64 \<Rightarrow> bool" where
  "less_eq_float64 a b = (less64 a b \<or> (a = b \<and> a \<noteq> NaN))"

instance ..

end

lemmas float64_op_defs =
  plus_float64_def minus_float64_def times_float64_def divide_float64_def
  less_float64_def less_eq_float64_def

text \<open>The builtin \<^verbatim>\<open>min\<close>, the conversion \<^verbatim>\<open>float64(n)\<close>, \<^verbatim>\<open>math.Ceil\<close>,
  \<^verbatim>\<open>math.IsNaN\<close> and \<^verbatim>\<open>math.IsInf(v, 0)\<close>.\<close>

definition min64 :: "float64 \<Rightarrow> float64 \<Rightarrow> float64" where
  "min64 a b = (if a = NaN \<or> b = NaN then NaN else if b < a then b else a)"

definition float64_of_int :: "int \<Rightarrow> float64" where
  "float64_of_int n = fl (of_int n)"

fun Ceil :: "float64 \<Rightarrow> float64" where
  "Ceil (Fin a) = Fin (of_int \<lceil>a\<rceil>)"
| "Ceil v = v"

definition IsNaN :: "float64 \<Rightarrow> bool" where
  "IsNaN v = (v = NaN)"

definition IsInf :: "float64 \<Rightarrow> bool" where
  "IsInf v = (v = PosInf \<or> v = NegInf)"

text \<open>\<^verbatim>\<open>Duration.Seconds\<close>: whole seconds plus the rest over \<open>10 ^ 9\<close>.\<close>

definition Duration_Seconds :: "duration \<Rightarrow> float64" where
  "Duration_Seconds d =
    float64_of_int (go_div d Second) + float64_of_int (go_mod d Second) / float64_of_int 1000000000"

lemma fl_zero [simp]: "fl 0 = Fin 0"
  by (simp add: fl_def)

lemma fl_cases:
  obtains "fl x = PosInf" "2 ^ 1024 \<le> fl_round x" | "fl x = NegInf" "fl_round x \<le> - (2 ^ 1024)"
  | "fl x = Fin (fl_round x)" "\<bar>fl_round x\<bar> < 2 ^ 1024"
proof -
  assume 1: "fl x = PosInf \<Longrightarrow> 2 ^ 1024 \<le> fl_round x \<Longrightarrow> thesis"
    and 2: "fl x = NegInf \<Longrightarrow> fl_round x \<le> - (2 ^ 1024) \<Longrightarrow> thesis"
    and 3: "fl x = Fin (fl_round x) \<Longrightarrow> \<bar>fl_round x\<bar> < 2 ^ 1024 \<Longrightarrow> thesis"
  show thesis
  proof (cases "2 ^ 1024 \<le> fl_round x")
    case True
    then show ?thesis using 1 by (simp add: fl_def del: power_numeral)
  next
    case False
    then show ?thesis using 2 3
      by (cases "fl_round x \<le> - (2 ^ 1024)") (simp_all add: fl_def abs_less_iff del: power_numeral)
  qed
qed

section \<open>Values as rationals\<close>

fun val64 :: "float64 \<Rightarrow> rat" where
  "val64 (Fin a) = a"
| "val64 _ = 0"

text \<open>\<open>wf64 v\<close>: \<open>v\<close> is a float64 value at all, that is, a representable number, an infinity or NaN.\<close>

definition wf64 :: "float64 \<Rightarrow> bool" where
  "wf64 v = (case v of Fin r \<Rightarrow> finite64 (Fin r) | _ \<Rightarrow> True)"

lemma finite64_cases:
  assumes "finite64 v"
  obtains r where "v = Fin r" "fl_round r = r" "\<bar>r\<bar> < 2 ^ 1024" "val64 v = r"
  using assms by (cases v) (simp_all add: finite64_def)

lemma finite64_Fin: "finite64 (Fin r) \<longleftrightarrow> fl_round r = r \<and> \<bar>r\<bar> < 2 ^ 1024"
  by (simp add: finite64_def)

lemma fl_eq_Fin: "\<bar>fl_round x\<bar> < 2 ^ 1024 \<Longrightarrow> fl x = Fin (fl_round x)"
  by (rule fl_cases [of x]) (auto simp del: power_numeral)

lemma finite64_fl: "fl x = Fin r \<Longrightarrow> finite64 (Fin r) \<and> r = fl_round x"
  by (rule fl_cases [of x]) (auto simp: finite64_Fin simp del: power_numeral)

lemma fl_nonneg_cases:
  assumes "0 \<le> x"
  obtains "fl x = PosInf" "2 ^ 1024 \<le> fl_round x" | "fl x = Fin (fl_round x)" "fl_round x < 2 ^ 1024"
proof (rule fl_cases [of x])
  assume "fl_round x \<le> - (2 ^ 1024)"
  moreover have "(0 :: rat) < 2 ^ 1024" by simp
  ultimately show thesis using fl_round_nonneg [OF assms] by linarith
next
  assume "fl x = Fin (fl_round x)" "\<bar>fl_round x\<bar> < 2 ^ 1024"
  then show thesis using that(2) by linarith
qed (use that(1) in simp)

lemma fl_round_pow2: "- 1074 \<le> k \<Longrightarrow> fl_round (2 powi k) = 2 powi k"
  using fl_round_exact [of 1 k] by simp

lemma fl_round_le_pow2: "- 1074 \<le> k \<Longrightarrow> x \<le> 2 powi k \<Longrightarrow> fl_round x \<le> 2 powi k"
  using fl_round_mono [of x "2 powi k"] by (simp add: fl_round_pow2)

lemma fl_round_ge_pow2: "- 1074 \<le> k \<Longrightarrow> 2 powi k \<le> x \<Longrightarrow> 2 powi k \<le> fl_round x"
  using fl_round_mono [of "2 powi k" x] by (simp add: fl_round_pow2)

lemma float64_of_int_small: "\<bar>n\<bar> \<le> 2 ^ 53 \<Longrightarrow> float64_of_int n = Fin (of_int n)"
proof -
  assume n: "\<bar>n\<bar> \<le> 2 ^ 53"
  then have "\<bar>of_int n :: rat\<bar> \<le> of_int (2 ^ 53)" by (simp only: of_int_abs [symmetric] of_int_le_iff)
  also have "\<dots> < 2 ^ 1024" by simp
  finally have "\<bar>fl_round (of_int n)\<bar> < 2 ^ 1024" by (simp only: fl_round_of_int [OF n])
  then show ?thesis unfolding float64_of_int_def by (simp only: fl_eq_Fin fl_round_of_int [OF n])
qed

lemma float64_of_int_pos:
  assumes "1 \<le> n" "n \<le> maxInt64"
  shows "float64_of_int n = Fin (fl_round (of_int n))" and "finite64 (float64_of_int n)"
    and "1 \<le> fl_round (of_int n)" and "fl_round (of_int n) \<le> 2 powi 63"
proof -
  have "(of_int n :: rat) \<le> of_int maxInt64" using assms(2) by (simp only: of_int_le_iff)
  also have "\<dots> \<le> 2 powi 63" by (simp add: maxInt64_def)
  finally have up: "fl_round (of_int n) \<le> 2 powi 63" by (intro fl_round_le_pow2) simp_all
  then show "fl_round (of_int n) \<le> 2 powi 63" .
  have "(1 :: rat) \<le> of_int n" using assms(1) by simp
  then show lo: "1 \<le> fl_round (of_int n)" using fl_round_mono [of 1 "of_int n"] by simp
  have "(2 :: rat) powi 63 < 2 ^ 1024" by simp
  with up lo have fin: "\<bar>fl_round (of_int n)\<bar> < 2 ^ 1024" by linarith
  then show eq: "float64_of_int n = Fin (fl_round (of_int n))"
    unfolding float64_of_int_def by (rule fl_eq_Fin)
  show "finite64 (float64_of_int n)" unfolding eq finite64_Fin using fin by simp
qed

section \<open>Seconds of a duration\<close>

definition seconds64 :: "duration \<Rightarrow> rat" where
  "seconds64 d = fl_round (of_int (d div Second) + fl_round (of_int (d mod Second) / of_int Second))"

lemma Duration_Seconds_value:
  assumes "0 \<le> d" "d \<le> maxInt64"
  shows "Duration_Seconds d = Fin (seconds64 d)" and "0 \<le> seconds64 d"
proof -
  let ?q = "d div Second" and ?m = "d mod Second"
  have q: "0 \<le> ?q" "?q \<le> 9223372036" using assms by (auto simp: Second_def maxInt64_def)
  have m: "0 \<le> ?m" "?m < Second" by (simp_all add: Second_def)
  have frac: "0 \<le> (of_int ?m :: rat) / of_int Second" "(of_int ?m :: rat) / of_int Second \<le> 1"
    using m by (simp_all add: Second_def divide_le_eq)
  have y: "0 \<le> fl_round (of_int ?m / of_int Second)" "fl_round (of_int ?m / of_int Second) \<le> 1"
    using fl_round_nonneg [OF frac(1)] fl_round_mono [OF frac(2)] by simp_all
  have fq: "float64_of_int ?q = Fin (of_int ?q)" and fm: "float64_of_int ?m = Fin (of_int ?m)"
    and fs: "float64_of_int 1000000000 = Fin (of_int Second)"
    using q m by (subst float64_of_int_small; simp add: Second_def)+
  have small: "(1 :: rat) < 2 ^ 1024" "(2 :: rat) powi 34 < 2 ^ 1024" by simp_all
  have "\<bar>fl_round (of_int ?m / of_int Second)\<bar> < 2 ^ 1024" using y small by linarith
  then have d: "float64_of_int ?m / float64_of_int 1000000000 = Fin (fl_round (of_int ?m / of_int Second))"
    unfolding fm fs float64_op_defs by (simp add: fl_eq_Fin Second_def del: power_numeral)
  have "(of_int ?q :: rat) \<le> of_int 9223372036" using q(2) by (simp only: of_int_le_iff)
  then have "of_int ?q + fl_round (of_int ?m / of_int Second) \<le> 2 powi 34" using y(2) by simp
  then have up: "seconds64 d \<le> 2 powi 34" unfolding seconds64_def by (intro fl_round_le_pow2) simp_all
  show lo: "0 \<le> seconds64 d" unfolding seconds64_def using q(1) y(1) by (intro fl_round_nonneg) simp
  from up lo small have "\<bar>seconds64 d\<bar> < 2 ^ 1024" by linarith
  then show "Duration_Seconds d = Fin (seconds64 d)"
    using assms unfolding Duration_Seconds_def seconds64_def
    by (simp add: go_div_nonneg go_mod_nonneg d fq plus_float64_def fl_eq_Fin del: power_numeral)
qed

lemma fl_round_le: "0 \<le> x \<Longrightarrow> fl_round x \<le> x * (1 + fl_unit) + fl_tiny"
  using fl_round_error [of x] by (simp add: algebra_simps abs_le_iff)

text \<open>Above the subnormal numbers the error of a rounding is relative.\<close>

lemma fl_round_ge_rel:
  assumes "2 powi (- 1000) \<le> x"
  shows "x * (1 - 5 / 4 * fl_unit) \<le> fl_round x"
proof -
  have x: "0 < x" using assms by (rule less_le_trans [rotated]) simp
  have "fl_tiny \<le> 2 powi (- 1000) * (fl_unit / 4)"
    by (simp add: fl_tiny_def fl_unit_def power_int_minus divide_le_eq)
  also have "\<dots> \<le> x * (fl_unit / 4)" using assms by (intro mult_right_mono) simp_all
  finally show ?thesis using fl_round_error [of x] x by (simp add: algebra_simps abs_le_iff)
qed

lemma fl_unit_le_1: "fl_unit \<le> 1"
  by (simp add: fl_unit_def)

lemma seconds64_le:
  assumes "0 \<le> d"
  shows "seconds64 d \<le> of_int d / of_int Second * (1 + fl_unit) ^ 2 + 3 * fl_tiny"
proof -
  let ?q = "of_int (d div Second) :: rat" and ?a = "of_int (d mod Second) / of_int Second :: rat"
  let ?u = "1 + fl_unit"
  have q: "0 \<le> ?q" using assms by (simp add: pos_imp_zdiv_nonneg_iff)
  have a: "0 \<le> ?a" by (simp add: Second_def)
  have u: "1 \<le> ?u" "?u \<le> 2" using fl_unit_le_1 by simp_all
  have "d = d div Second * Second + d mod Second" by simp
  then have "(of_int d :: rat) = ?q * of_int Second + of_int (d mod Second)"
    by (metis of_int_add of_int_mult)
  then have E: "of_int d / of_int Second = ?q + ?a" by (simp add: add_divide_distrib)
  have y: "fl_round ?a \<le> ?a * ?u + fl_tiny" using a by (rule fl_round_le)
  have "seconds64 d \<le> (?q + fl_round ?a) * ?u + fl_tiny"
    unfolding seconds64_def using q fl_round_nonneg [OF a] by (intro fl_round_le) simp
  also have "\<dots> \<le> (?q * ?u + (?a * ?u + fl_tiny)) * ?u + fl_tiny"
    using y q u by (intro add_mono mult_right_mono order_refl) (simp_all add: mult_le_cancel_left1)
  also have "\<dots> = (?q + ?a) * ?u ^ 2 + (fl_tiny * ?u + fl_tiny)"
    by (simp add: algebra_simps power2_eq_square add_divide_distrib)
  also have "\<dots> \<le> (?q + ?a) * ?u ^ 2 + 3 * fl_tiny"
    using mult_left_mono [OF u(2) fl_tiny_pos(2)] by simp
  finally show ?thesis unfolding E .
qed

end
