(* ===== verification/Rate_Limiter.thy ===== *)
theory Rate_Limiter
  imports Float64
begin

unbundle bit_operations_syntax

text \<open>
  The token bucket and the sharded per-client limiter, \<^verbatim>\<open>src/internal/ratelimiter/bucket.go\<close>
  and \<^verbatim>\<open>client_limiter.go\<close>.

  Tokens are \<^verbatim>\<open>float64\<close> values with their rounding. A bucket method runs under the
  bucket's mutex and a limiter request under its shard's mutex, so each is one atomic step; the
  clock reading is the argument \<open>now\<close>, and nothing assumes that readings increase unless a
  theorem says so. A shard's client table is an association list; cleanup visits every entry and
  its result does not depend on the order.
\<close>

section \<open>Token bucket\<close>

record Bucket =
  tokensPerSecond :: float64
  capacity :: float64
  tokens :: float64
  lastRefill :: time

datatype LimiterError =
    ErrTokensPerSecond
  | ErrBurst
  | ErrShardCount
  | ErrClientIdleTTL
  | ErrCleanupInterval
  | ErrNilLimiterClock

definition validateBucketConfig :: "float64 \<Rightarrow> int \<Rightarrow> LimiterError option" where
  "validateBucketConfig tps burst =
    (if tps \<le> Fin 0 \<or> IsNaN tps \<or> IsInf tps then Some ErrTokensPerSecond
     else if burst \<le> 0 then Some ErrBurst
     else None)"

definition newBucketAt :: "float64 \<Rightarrow> int \<Rightarrow> time \<Rightarrow> Bucket" where
  "newBucketAt tps burst startedAt =
    (let c = float64_of_int burst
     in \<lparr>tokensPerSecond = tps, capacity = c, tokens = c, lastRefill = startedAt\<rparr>)"

text \<open>A clock is nil or gives its reading.\<close>

definition newBucket :: "float64 \<Rightarrow> int \<Rightarrow> time option \<Rightarrow> LimiterError + Bucket" where
  "newBucket tps burst now =
    (case validateBucketConfig tps burst of
       Some e \<Rightarrow> Inl e
     | None \<Rightarrow>
         (case now of None \<Rightarrow> Inl ErrNilLimiterClock | Some t \<Rightarrow> Inr (newBucketAt tps burst t)))"

definition NewBucket :: "float64 \<Rightarrow> int \<Rightarrow> time \<Rightarrow> LimiterError + Bucket" where
  "NewBucket tps burst now = newBucket tps burst (Some now)"

definition Bucket_refill :: "time \<Rightarrow> Bucket \<Rightarrow> Bucket" where
  "Bucket_refill now b =
    (if \<not> lastRefill b < now then b
     else
       let elapsed = Duration_Seconds (time_Sub now (lastRefill b))
       in b\<lparr>tokens := min64 (capacity b) (tokens b + elapsed * tokensPerSecond b),
             lastRefill := now\<rparr>)"

definition Bucket_allowAt :: "time \<Rightarrow> Bucket \<Rightarrow> bool \<times> Bucket" where
  "Bucket_allowAt now b =
    (let b = Bucket_refill now b
     in if tokens b < Fin 1 then (False, b) else (True, b\<lparr>tokens := tokens b - Fin 1\<rparr>))"

definition Bucket_Allow :: "time \<Rightarrow> Bucket \<Rightarrow> bool \<times> Bucket" where
  "Bucket_Allow now b = Bucket_allowAt now b"

section \<open>Client limiter\<close>

record clientEntry =
  bucket :: Bucket
  lastSeen :: time

record clientShard =
  clients :: "(string, clientEntry) gomap"
  lastCleanup :: time

record ClientLimiter =
  shards :: "clientShard list"
  limTokensPerSecond :: float64
  limBurst :: int
  clientIdleTTL :: duration
  cleanupInterval :: duration

record clientLimiterOptions =
  optShardCount :: int
  optClientIdleTTL :: duration
  optCleanupInterval :: duration
  optNow :: "time option"

definition defaultShardCount :: int where
  "defaultShardCount = 64"

definition defaultClientIdleTTL :: duration where
  "defaultClientIdleTTL = 10 * Minute"

definition defaultCleanupInterval :: duration where
  "defaultCleanupInterval = Minute"

text \<open>Conversion of an integral float to \<^verbatim>\<open>int64\<close> rounds towards zero.\<close>

fun int64_of_float :: "float64 \<Rightarrow> int" where
  "int64_of_float (Fin a) = (if 0 \<le> a then \<lfloor>a\<rfloor> else \<lceil>a\<rceil>)"
| "int64_of_float _ = minInt64"

definition bucketRefillDuration :: "float64 \<Rightarrow> int \<Rightarrow> duration" where
  "bucketRefillDuration tps burst =
    (let nanoseconds = Ceil (float64_of_int burst / tps * float64_of_int Second)
     in if float64_of_int maxInt64 \<le> nanoseconds then maxInt64 else int64_of_float nanoseconds)"

definition newClientLimiter ::
  "float64 \<Rightarrow> int \<Rightarrow> clientLimiterOptions \<Rightarrow> LimiterError + ClientLimiter" where
  "newClientLimiter tps burst options =
    (case validateBucketConfig tps burst of
       Some e \<Rightarrow> Inl e
     | None \<Rightarrow>
         if optShardCount options \<le> 0 then Inl ErrShardCount
         else if optClientIdleTTL options \<le> 0 then Inl ErrClientIdleTTL
         else if optCleanupInterval options \<le> 0 then Inl ErrCleanupInterval
         else
           (case optNow options of
              None \<Rightarrow> Inl ErrNilLimiterClock
            | Some startedAt \<Rightarrow>
                Inr \<lparr>shards = replicate (nat (optShardCount options))
                       \<lparr>clients = [], lastCleanup = startedAt\<rparr>,
                     limTokensPerSecond = tps,
                     limBurst = burst,
                     clientIdleTTL = max (optClientIdleTTL options) (bucketRefillDuration tps burst),
                     cleanupInterval = optCleanupInterval options\<rparr>))"

definition NewClientLimiter :: "float64 \<Rightarrow> int \<Rightarrow> time \<Rightarrow> LimiterError + ClientLimiter" where
  "NewClientLimiter tps burst now =
    newClientLimiter tps burst
      \<lparr>optShardCount = defaultShardCount, optClientIdleTTL = defaultClientIdleTTL,
       optCleanupInterval = defaultCleanupInterval, optNow = Some now\<rparr>"

text \<open>FNV-1a over the bytes of the key.\<close>

definition hashClientKey :: "string \<Rightarrow> 64 word" where
  "hashClientKey key =
    foldl (\<lambda>hash c. (hash XOR of_char c) * 1099511628211) 14695981039346656037 key"

definition shardIndex :: "ClientLimiter \<Rightarrow> string \<Rightarrow> nat" where
  "shardIndex l key = unat (hashClientKey key mod of_nat (length (shards l)))"

definition clientShard_cleanup :: "time \<Rightarrow> duration \<Rightarrow> duration \<Rightarrow> clientShard \<Rightarrow> clientShard" where
  "clientShard_cleanup now idleTTL interval s =
    (if now < lastCleanup s + interval then s
     else s\<lparr>clients := filter (\<lambda>(key, entry). now < lastSeen entry + idleTTL) (clients s),
             lastCleanup := now\<rparr>)"

definition ClientLimiter_Allow :: "time \<Rightarrow> string \<Rightarrow> ClientLimiter \<Rightarrow> bool \<times> ClientLimiter" where
  "ClientLimiter_Allow now key l =
    (let i = shardIndex l key;
         shard = clientShard_cleanup now (clientIdleTTL l) (cleanupInterval l) (shards l ! i);
         entry = (case map_of (clients shard) key of
             None \<Rightarrow> \<lparr>bucket = newBucketAt (limTokensPerSecond l) (limBurst l) now, lastSeen = now\<rparr>
           | Some entry \<Rightarrow> if lastSeen entry < now then entry\<lparr>lastSeen := now\<rparr> else entry);
         (allowed, b) = Bucket_allowAt now (bucket entry)
     in (allowed,
         l\<lparr>shards := (shards l)[i :=
           shard\<lparr>clients := AList.update key (entry\<lparr>bucket := b\<rparr>) (clients shard)\<rparr>]\<rparr>))"

section \<open>The bucket's invariant\<close>

definition bucket_wf :: "Bucket \<Rightarrow> bool" where
  "bucket_wf b =
    (finite64 (tokensPerSecond b) \<and> finite64 (capacity b) \<and> finite64 (tokens b) \<and>
     0 < val64 (tokensPerSecond b) \<and> 1 \<le> val64 (capacity b) \<and>
     0 \<le> val64 (tokens b) \<and> val64 (tokens b) \<le> val64 (capacity b))"

lemma bucket_wf_newBucketAt [gatex_inv]:
  assumes "validateBucketConfig tps burst = None" "wf64 tps" "burst \<le> maxInt64"
  shows "bucket_wf (newBucketAt tps burst now)"
proof -
  have "\<not> tps \<le> Fin 0" "\<not> IsNaN tps" "\<not> IsInf tps" and burst: "1 \<le> burst"
    using assms(1) by (auto simp: validateBucketConfig_def split: if_splits)
  with assms(2) have "finite64 tps" "0 < val64 tps"
    by (cases tps; auto simp: IsNaN_def IsInf_def wf64_def float64_op_defs)+
  with float64_of_int_pos [OF burst assms(3)] show ?thesis
    by (simp add: bucket_wf_def newBucketAt_def Let_def)
qed

text \<open>Refilling: tokens never drop, never exceed the capacity, and gain at most the rounded
  product of elapsed seconds and rate.\<close>

definition refill_gain :: "time \<Rightarrow> Bucket \<Rightarrow> rat" where
  "refill_gain now b =
    (if lastRefill b < now
     then fl_round (seconds64 (time_Sub now (lastRefill b)) * val64 (tokensPerSecond b)) else 0)"

lemma Bucket_refill_fields [simp]:
  "capacity (Bucket_refill now b) = capacity b"
  "tokensPerSecond (Bucket_refill now b) = tokensPerSecond b"
  "lastRefill (Bucket_refill now b) = max now (lastRefill b)"
  by (auto simp: Bucket_refill_def Let_def)

lemma elapsed_range:
  "lastRefill b < now \<Longrightarrow> 0 \<le> time_Sub now (lastRefill b)"
  "time_Sub now (lastRefill b) \<le> maxInt64"
  using time_Sub_pos [of "lastRefill b" now] time_Sub_range by (auto intro: less_imp_le)

lemma refill_gain_nonneg: "bucket_wf b \<Longrightarrow> 0 \<le> refill_gain now b"
  using Duration_Seconds_value(2) [OF elapsed_range]
  by (auto simp: refill_gain_def bucket_wf_def intro!: fl_round_nonneg mult_nonneg_nonneg)

lemma min64_Fin [simp]: "min64 (Fin c) (Fin q) = Fin (min c q)" "min64 (Fin c) PosInf = Fin c"
  by (simp_all add: min64_def less_float64_def min_def)

lemma refill_tokens:
  assumes wf: "bucket_wf b" and later: "lastRefill b < now"
  defines "t \<equiv> val64 (tokens b)" and "c \<equiv> val64 (capacity b)"
  shows "tokens (Bucket_refill now b) = Fin (min c (fl_round (t + refill_gain now b)))"
proof -
  obtain r where r: "tokensPerSecond b = Fin r" "0 < r"
    using wf by (auto simp: bucket_wf_def elim!: finite64_cases)
  have t: "tokens b = Fin t" "0 \<le> t" and c: "capacity b = Fin c" "c < 2 ^ 1024"
    using wf by (auto simp: bucket_wf_def t_def c_def elim!: finite64_cases simp del: power_numeral)
  define sv where "sv = seconds64 (time_Sub now (lastRefill b))"
  have sv: "Duration_Seconds (time_Sub now (lastRefill b)) = Fin sv" "0 \<le> sv"
    using Duration_Seconds_value [OF elapsed_range] later by (simp_all add: sv_def)
  have gain: "refill_gain now b = fl_round (sv * r)" using later r by (simp add: refill_gain_def sv_def)
  have new: "tokens (Bucket_refill now b) = min64 (Fin c) (add64 (Fin t) (fl (sv * r)))"
    using later r t c sv by (simp add: Bucket_refill_def Let_def float64_op_defs)
  have big: "2 ^ 1024 \<le> fl_round x \<Longrightarrow> min c (fl_round x) = c" for x using c(2) by linarith
  show ?thesis
  proof (rule fl_nonneg_cases [of "sv * r"])
    assume inf: "fl (sv * r) = PosInf" "2 ^ 1024 \<le> fl_round (sv * r)"
    then have "(2 :: rat) powi 1024 \<le> t + fl_round (sv * r)" using t(2) by simp
    then have "2 powi 1024 \<le> fl_round (t + fl_round (sv * r))" by (intro fl_round_ge_pow2) simp_all
    then have "2 ^ 1024 \<le> fl_round (t + fl_round (sv * r))" by simp
    from big [OF this] inf(1) show ?thesis by (simp add: new gain)
  next
    assume fin: "fl (sv * r) = Fin (fl_round (sv * r))"
    show ?thesis
    proof (rule fl_nonneg_cases [of "t + fl_round (sv * r)"])
      show "0 \<le> t + fl_round (sv * r)"
        using t(2) sv(2) r(2) fl_round_nonneg [of "sv * r"] by simp
      assume "fl (t + fl_round (sv * r)) = PosInf" "2 ^ 1024 \<le> fl_round (t + fl_round (sv * r))"
      then show ?thesis using big by (simp add: new gain fin)
    qed (simp add: new gain fin)
  qed (use sv r in simp)
qed

lemma refill_tokens_ge: "bucket_wf b \<Longrightarrow> val64 (tokens b) \<le> val64 (tokens (Bucket_refill now b))"
proof (cases "lastRefill b < now")
  case True
  assume wf: "bucket_wf b"
  then have "fl_round (val64 (tokens b)) = val64 (tokens b)"
    by (auto simp: bucket_wf_def elim!: finite64_cases)
  then have "val64 (tokens b) \<le> fl_round (val64 (tokens b) + refill_gain now b)"
    using fl_round_mono [of "val64 (tokens b)" "val64 (tokens b) + refill_gain now b"]
      refill_gain_nonneg [OF wf] by simp
  with wf show ?thesis by (simp add: refill_tokens [OF wf True] bucket_wf_def)
qed (simp add: Bucket_refill_def)

lemma bucket_wf_refill [gatex_inv]:
  assumes wf: "bucket_wf b"
  shows "bucket_wf (Bucket_refill now b)"
proof (cases "lastRefill b < now")
  case True
  let ?c = "val64 (capacity b)" and ?q = "fl_round (val64 (tokens b) + refill_gain now b)"
  have c: "fl_round ?c = ?c" "\<bar>?c\<bar> < 2 ^ 1024" "1 \<le> ?c"
    using wf by (auto simp: bucket_wf_def elim!: finite64_cases simp del: power_numeral)
  have q: "0 \<le> ?q" using wf refill_gain_nonneg [OF wf] by (intro fl_round_nonneg) (simp add: bucket_wf_def)
  have "finite64 (Fin (min ?c ?q))"
    using c q unfolding finite64_Fin by (auto simp: min_def simp del: power_numeral)
  with wf q show ?thesis
    by (simp add: bucket_wf_def refill_tokens [OF wf True])
qed (use wf in \<open>simp add: Bucket_refill_def\<close>)

text \<open>Consuming a token.\<close>

lemma consume_token:
  assumes wf: "bucket_wf b" and ge: "\<not> tokens b < Fin 1"
  defines "t \<equiv> val64 (tokens b)"
  shows "tokens b - Fin 1 = Fin (fl_round (t - 1))" and "1 \<le> t"
    and "0 \<le> fl_round (t - 1)" and "fl_round (t - 1) \<le> t" and "\<bar>fl_round (t - 1)\<bar> < 2 ^ 1024"
proof -
  have t: "tokens b = Fin t" "fl_round t = t" "\<bar>t\<bar> < 2 ^ 1024"
    using wf by (auto simp: bucket_wf_def t_def elim!: finite64_cases simp del: power_numeral)
  show one: "1 \<le> t" using ge t(1) by (simp add: less_float64_def)
  show lo: "0 \<le> fl_round (t - 1)" using one by (intro fl_round_nonneg) simp
  show up: "fl_round (t - 1) \<le> t" using fl_round_mono [of "t - 1" t] t(2) by simp
  show fin: "\<bar>fl_round (t - 1)\<bar> < 2 ^ 1024" using lo up t(3) by linarith
  have "tokens b - Fin 1 = fl (t - 1)" unfolding t(1) minus_float64_def by simp
  then show "tokens b - Fin 1 = Fin (fl_round (t - 1))" using fl_eq_Fin [OF fin] by simp
qed

lemma bucket_wf_allowAt [gatex_inv]:
  assumes "bucket_wf b"
  shows "bucket_wf (snd (Bucket_allowAt now b))"
proof -
  have wf: "bucket_wf (Bucket_refill now b)" using assms by (rule bucket_wf_refill)
  show ?thesis
  proof (cases "tokens (Bucket_refill now b) < Fin 1")
    case False
    note c = consume_token [OF wf False]
    have "finite64 (Fin (fl_round (val64 (tokens (Bucket_refill now b)) - 1)))"
      unfolding finite64_Fin using c(5) by simp
    with wf c False show ?thesis by (simp add: Bucket_allowAt_def Let_def bucket_wf_def)
  qed (simp add: Bucket_allowAt_def Let_def wf)
qed

lemma allowAt_fields [simp]:
  "capacity (snd (Bucket_allowAt now b)) = capacity b"
  "tokensPerSecond (snd (Bucket_allowAt now b)) = tokensPerSecond b"
  "lastRefill (snd (Bucket_allowAt now b)) = max now (lastRefill b)"
  by (simp_all add: Bucket_allowAt_def Let_def)

section \<open>The rate bound\<close>

text \<open>
  What rounding can add in one call: two roundings of a value at most the capacity, and the
  subnormal remainders. For a capacity of 100 this is about \<open>2 * 10 ^ -14\<close> tokens.
\<close>

definition bucket_slack :: "Bucket \<Rightarrow> rat" where
  "bucket_slack b =
    2 * fl_unit * val64 (capacity b) + (12 * val64 (tokensPerSecond b) + 4) * fl_tiny"

text \<open>Tokens earned in an interval at the configured rate, with the relative error of the four
  roundings on the way.\<close>

definition earned :: "Bucket \<Rightarrow> duration \<Rightarrow> rat" where
  "earned b d = val64 (tokensPerSecond b) * (of_int d / of_int Second) * (1 + fl_unit) ^ 4"

lemma refill_gain_le:
  assumes wf: "bucket_wf b" and later: "lastRefill b < now"
  shows "refill_gain now b * (1 + fl_unit)
    \<le> earned b (now - lastRefill b) + (12 * val64 (tokensPerSecond b) + 2) * fl_tiny"
proof -
  let ?r = "val64 (tokensPerSecond b)" and ?d = "time_Sub now (lastRefill b)" and ?u = "1 + fl_unit"
  define E :: rat where "E = of_int ?d / of_int Second"
  define F :: rat where "F = of_int (now - lastRefill b) / of_int Second"
  have r: "0 < ?r" using wf by (simp add: bucket_wf_def)
  have u: "1 \<le> ?u" "?u \<le> 2" using fl_unit_le_1 by simp_all
  have "?d \<le> now - lastRefill b" using later by (intro time_Sub_le) simp
  then have EF: "E \<le> F" unfolding E_def F_def by (intro divide_right_mono) (simp_all add: Second_def)
  have E0: "0 \<le> E" using elapsed_range(1) [OF later] by (simp add: E_def Second_def)
  have sv: "seconds64 ?d \<le> E * ?u ^ 2 + 3 * fl_tiny"
    using seconds64_le [OF elapsed_range(1) [OF later]] by (simp add: E_def)
  have sv0: "0 \<le> seconds64 ?d" using Duration_Seconds_value(2) [OF elapsed_range(1) [OF later] elapsed_range(2)] .
  have "refill_gain now b \<le> seconds64 ?d * ?r * ?u + fl_tiny"
    using later r sv0 by (simp add: refill_gain_def fl_round_le)
  also have "\<dots> \<le> (E * ?u ^ 2 + 3 * fl_tiny) * ?r * ?u + fl_tiny"
    using sv r u by (intro add_mono mult_right_mono order_refl) simp_all
  finally have "refill_gain now b * ?u \<le> ((E * ?u ^ 2 + 3 * fl_tiny) * ?r * ?u + fl_tiny) * ?u"
    using u by (intro mult_right_mono) simp_all
  also have "\<dots> = ?r * E * ?u ^ 4 + (3 * ?r * ?u\<^sup>2 + ?u) * fl_tiny"
    by (simp add: algebra_simps power2_eq_square power4_eq_xxxx)
  also have "\<dots> \<le> ?r * F * ?u ^ 4 + (12 * ?r + 2) * fl_tiny"
  proof (intro add_mono mult_right_mono)
    have "?u\<^sup>2 \<le> 2\<^sup>2" using u by (intro power_mono) simp_all
    then have "3 * ?r * ?u\<^sup>2 \<le> 3 * ?r * 4" using r by (intro mult_left_mono) simp_all
    then show "3 * ?r * ?u\<^sup>2 \<le> 12 * ?r" by simp
    show "?r * E \<le> ?r * F" using EF r by simp
  qed (use u in simp_all)
  finally show ?thesis unfolding earned_def F_def .
qed

lemma refill_potential:
  assumes wf: "bucket_wf b"
  shows "val64 (tokens (Bucket_refill now b)) \<le> val64 (tokens b)
    + earned b (max now (lastRefill b) - lastRefill b)
    + fl_unit * val64 (capacity b) + (12 * val64 (tokensPerSecond b) + 3) * fl_tiny"
proof (cases "lastRefill b < now")
  case True
  let ?t = "val64 (tokens b)" and ?g = "refill_gain now b" and ?c = "val64 (capacity b)"
  have t: "0 \<le> ?t" "?t \<le> ?c" using wf by (simp_all add: bucket_wf_def)
  have "val64 (tokens (Bucket_refill now b)) \<le> fl_round (?t + ?g)"
    by (simp add: refill_tokens [OF wf True])
  also have "\<dots> \<le> (?t + ?g) * (1 + fl_unit) + fl_tiny"
    using t refill_gain_nonneg [OF wf] by (intro fl_round_le) simp
  also have "\<dots> = ?t + fl_unit * ?t + ?g * (1 + fl_unit) + fl_tiny" by (simp add: algebra_simps)
  also have "\<dots> \<le> ?t + fl_unit * ?c
      + (earned b (now - lastRefill b) + (12 * val64 (tokensPerSecond b) + 2) * fl_tiny) + fl_tiny"
    using refill_gain_le [OF wf True] mult_left_mono [OF t(2) fl_unit_pos(2)] by linarith
  finally show ?thesis using True by (simp add: algebra_simps max_def)
next
  case False
  have "0 \<le> fl_unit * val64 (capacity b)" "0 \<le> (12 * val64 (tokensPerSecond b) + 3) * fl_tiny"
    using wf by (auto simp: bucket_wf_def intro!: mult_nonneg_nonneg)
  with False show ?thesis by (simp add: Bucket_refill_def earned_def max_def)
qed

lemma allowAt_potential:
  assumes wf: "bucket_wf b"
  shows "of_bool (fst (Bucket_allowAt now b)) + val64 (tokens (snd (Bucket_allowAt now b)))
    \<le> val64 (tokens b) + earned b (max now (lastRefill b) - lastRefill b) + bucket_slack b"
proof -
  let ?b = "Bucket_refill now b"
  have wf': "bucket_wf ?b" using wf by (rule bucket_wf_refill)
  have le: "val64 (tokens ?b) \<le> val64 (capacity b)" using wf' by (simp add: bucket_wf_def)
  have c: "0 \<le> fl_unit * val64 (capacity b)" using wf by (auto simp: bucket_wf_def intro!: mult_nonneg_nonneg)
  have slack: "bucket_slack b = (fl_unit * val64 (capacity b) + (12 * val64 (tokensPerSecond b) + 3) * fl_tiny)
      + (fl_unit * val64 (capacity b) + fl_tiny)"
    by (simp add: bucket_slack_def algebra_simps)
  show ?thesis
  proof (cases "tokens ?b < Fin 1")
    case True
    then have eq: "Bucket_allowAt now b = (False, ?b)" by (simp add: Bucket_allowAt_def Let_def)
    show ?thesis unfolding eq fst_conv snd_conv of_bool_eq
      using refill_potential [OF wf, of now] c fl_tiny_pos(2) slack by linarith
  next
    case False
    let ?t = "val64 (tokens ?b)"
    note ct = consume_token [OF wf' False]
    have "fl_round (?t - 1) \<le> (?t - 1) * (1 + fl_unit) + fl_tiny" using ct(2) by (intro fl_round_le) simp
    also have "\<dots> = ?t - 1 + (fl_unit * ?t - fl_unit) + fl_tiny" by (simp add: algebra_simps)
    also have "\<dots> \<le> ?t - 1 + fl_unit * val64 (capacity b) + fl_tiny"
      using mult_left_mono [OF le fl_unit_pos(2)] fl_unit_pos(2) by linarith
    finally have "fl_round (?t - 1) \<le> ?t - 1 + fl_unit * val64 (capacity b) + fl_tiny" .
    moreover have "Bucket_allowAt now b = (True, ?b\<lparr>tokens := Fin (fl_round (?t - 1))\<rparr>)"
      using False ct(1) by (simp add: Bucket_allowAt_def Let_def)
    ultimately show ?thesis using refill_potential [OF wf, of now] slack by simp
  qed
qed

fun bucket_run :: "time list \<Rightarrow> Bucket \<Rightarrow> bool list \<times> Bucket" where
  "bucket_run [] b = ([], b)"
| "bucket_run (now # nows) b =
    (let (a, b) = Bucket_allowAt now b; (as, b) = bucket_run nows b in (a # as, b))"

definition allowed_count :: "bool list \<Rightarrow> nat" where
  "allowed_count as = length (filter id as)"

lemma bucket_run_potential:
  assumes "bucket_wf b"
  shows "of_nat (allowed_count (fst (bucket_run nows b))) + val64 (tokens (snd (bucket_run nows b)))
    \<le> val64 (tokens b) + earned b (lastRefill (snd (bucket_run nows b)) - lastRefill b)
      + of_nat (length nows) * bucket_slack b"
  using assms
proof (induction nows arbitrary: b)
  case (Cons now nows)
  let ?b = "snd (Bucket_allowAt now b)"
  have same: "bucket_slack ?b = bucket_slack b" "earned ?b = earned b"
    by (simp_all add: bucket_slack_def earned_def fun_eq_iff)
  have add: "earned b (m - k) + earned b (k - l) = earned b (m - l)" for k l m
    by (simp add: earned_def algebra_simps add_divide_distrib diff_divide_distrib)
  show ?case
    using Cons.IH [OF bucket_wf_allowAt [OF Cons.prems, of now]] allowAt_potential [OF Cons.prems, of now]
      add [of "lastRefill (snd (bucket_run nows ?b))" "max now (lastRefill b)" "lastRefill b"]
    by (auto simp: split_beta Let_def allowed_count_def same algebra_simps)
qed (simp add: allowed_count_def earned_def)

lemma bucket_wf_run: "bucket_wf b \<Longrightarrow> bucket_wf (snd (bucket_run nows b))"
  by (induction nows arbitrary: b) (simp_all add: split_beta Let_def bucket_wf_allowAt)

section \<open>A full bucket and its burst\<close>

text \<open>While the clock stands still, whole tokens are counted exactly: \<open>n\<close> of them admit \<open>n\<close>
  requests and no more.\<close>

lemma allowAt_whole:
  assumes "tokens b = Fin (of_nat n)" "n \<le> 2 ^ 53" "now \<le> lastRefill b"
  shows "Bucket_allowAt now b =
    (if n = 0 then (False, b) else (True, b\<lparr>tokens := Fin (of_nat (n - 1))\<rparr>))"
proof -
  have refill: "Bucket_refill now b = b" using assms(3) by (simp add: Bucket_refill_def)
  show ?thesis
  proof (cases n)
    case 0
    with assms(1) show ?thesis by (simp add: Bucket_allowAt_def refill less_float64_def)
  next
    case (Suc k)
    have "\<bar>int k\<bar> \<le> 2 ^ 53" using assms(2) Suc by simp
    from float64_of_int_small [OF this] have "fl (of_nat k) = Fin (of_nat k)"
      by (simp add: float64_of_int_def)
    with assms(1) Suc show ?thesis
      by (simp add: Bucket_allowAt_def refill less_float64_def minus_float64_def)
  qed
qed

lemma bucket_run_whole:
  assumes "tokens b = Fin (of_nat n)" "n \<le> 2 ^ 53" "\<forall>now \<in> set nows. now \<le> lastRefill b"
  shows "fst (bucket_run nows b) = map (\<lambda>i. i < n) [0..<length nows]"
  using assms
proof (induction nows arbitrary: b n)
  case (Cons now nows)
  have shift: "map f [0..<Suc m] = f 0 # map (\<lambda>i. f (Suc i)) [0..<m]" for f :: "nat \<Rightarrow> bool" and m
    by (simp add: upt_conv_Cons map_Suc_upt [symmetric] del: upt_Suc)
  show ?case
  proof (cases n)
    case 0
    with Cons show ?thesis
      using allowAt_whole [OF Cons.prems(1,2), of now] by (simp add: split_beta shift del: upt_Suc)
  next
    case (Suc k)
    with Cons.prems Cons.IH [of "b\<lparr>tokens := Fin (of_nat k)\<rparr>" k] show ?thesis
      using allowAt_whole [OF Cons.prems(1,2), of now] by (simp add: split_beta shift del: upt_Suc)
  qed
qed simp

section \<open>The limiter's invariant\<close>

definition limiter_wf :: "ClientLimiter \<Rightarrow> bool" where
  "limiter_wf l =
    (validateBucketConfig (limTokensPerSecond l) (limBurst l) = None \<and>
     wf64 (limTokensPerSecond l) \<and> limBurst l \<le> maxInt64 \<and>
     shards l \<noteq> [] \<and> length (shards l) < 2 ^ 64 \<and> 0 < clientIdleTTL l \<and> 0 < cleanupInterval l \<and>
     (\<forall>s \<in> set (shards l). gomap_wf (clients s) \<and> (\<forall>(k, e) \<in> set (clients s). bucket_wf (bucket e))))"

lemma shardIndex_less: "shards l \<noteq> [] \<Longrightarrow> length (shards l) < 2 ^ 64 \<Longrightarrow> shardIndex l key < length (shards l)"
proof -
  assume ne: "shards l \<noteq> []" and small: "length (shards l) < 2 ^ 64"
  have n: "unat (of_nat (length (shards l)) :: 64 word) = length (shards l)"
    using small by (simp add: unat_of_nat take_bit_nat_eq_self)
  have "shardIndex l key = unat (hashClientKey key) mod length (shards l)"
    by (simp add: shardIndex_def unat_mod_distrib n)
  then show ?thesis using ne by simp
qed

lemma shardIndex_same_length [simp]:
  "length ss = length (shards l) \<Longrightarrow> shardIndex (l\<lparr>shards := ss\<rparr>) k = shardIndex l k"
  by (simp add: shardIndex_def)

definition client_entry :: "ClientLimiter \<Rightarrow> string \<Rightarrow> clientEntry option" where
  "client_entry l key = map_of (clients (shards l ! shardIndex l key)) key"

definition cleanup_due :: "time \<Rightarrow> ClientLimiter \<Rightarrow> nat \<Rightarrow> bool" where
  "cleanup_due now l i = (lastCleanup (shards l ! i) + cleanupInterval l \<le> now)"

text \<open>A client's entry as a request at \<open>now\<close> to its shard sees it: an idle entry is gone when
  the request runs the cleanup.\<close>

definition surviving :: "time \<Rightarrow> ClientLimiter \<Rightarrow> string \<Rightarrow> clientEntry option" where
  "surviving now l key =
    (case client_entry l key of
       None \<Rightarrow> None
     | Some e \<Rightarrow> if cleanup_due now l (shardIndex l key) \<and> lastSeen e + clientIdleTTL l \<le> now
         then None else Some e)"

abbreviation cleaned :: "time \<Rightarrow> ClientLimiter \<Rightarrow> nat \<Rightarrow> clientShard" where
  "cleaned now l i \<equiv> clientShard_cleanup now (clientIdleTTL l) (cleanupInterval l) (shards l ! i)"

lemma limiter_wf_shard:
  assumes "limiter_wf l"
  shows "shardIndex l key < length (shards l)" and "gomap_wf (clients (shards l ! shardIndex l key))"
    and "(k, e) \<in> set (clients (shards l ! shardIndex l key)) \<Longrightarrow> bucket_wf (bucket e)"
proof -
  show i: "shardIndex l key < length (shards l)" using assms by (simp add: limiter_wf_def shardIndex_less)
  show "gomap_wf (clients (shards l ! shardIndex l key))"
    and "(k, e) \<in> set (clients (shards l ! shardIndex l key)) \<Longrightarrow> bucket_wf (bucket e)"
    using assms nth_mem [OF i] by (auto simp: limiter_wf_def)
qed

lemma cleaned_clients:
  assumes "gomap_wf (clients (shards l ! i))"
  shows "gomap_wf (clients (cleaned now l i))"
    and "set (clients (cleaned now l i)) \<subseteq> set (clients (shards l ! i))"
    and "map_of (clients (cleaned now l i)) key =
      (case map_of (clients (shards l ! i)) key of
         None \<Rightarrow> None
       | Some e \<Rightarrow> if cleanup_due now l i \<and> lastSeen e + clientIdleTTL l \<le> now then None else Some e)"
  using assms by (auto simp: clientShard_cleanup_def cleanup_due_def map_of_filter_wf split: option.splits)

text \<open>The entry the request works on, and what it becomes.\<close>

definition request_entry :: "time \<Rightarrow> ClientLimiter \<Rightarrow> string \<Rightarrow> clientEntry" where
  "request_entry now l key =
    (case surviving now l key of
       None \<Rightarrow> \<lparr>bucket = newBucketAt (limTokensPerSecond l) (limBurst l) now, lastSeen = now\<rparr>
     | Some e \<Rightarrow> if lastSeen e < now then e\<lparr>lastSeen := now\<rparr> else e)"

lemma Allow_unfold:
  fixes now key
  assumes "limiter_wf l"
  defines "e \<equiv> request_entry now l key" and "i \<equiv> shardIndex l key"
  shows "ClientLimiter_Allow now key l =
    (fst (Bucket_allowAt now (bucket e)),
     l\<lparr>shards := (shards l)[i := (cleaned now l i)\<lparr>clients :=
       AList.update key (e\<lparr>bucket := snd (Bucket_allowAt now (bucket e))\<rparr>) (clients (cleaned now l i))\<rparr>]\<rparr>)"
proof -
  have "map_of (clients (cleaned now l i)) key = surviving now l key"
    using cleaned_clients(3) [OF limiter_wf_shard(2) [OF assms(1)], of now key key]
    by (simp add: surviving_def client_entry_def i_def)
  then show ?thesis
    unfolding ClientLimiter_Allow_def i_def [symmetric] e_def request_entry_def
    by (simp add: Let_def split_beta)
qed

lemma Allow_fields [simp]:
  "limTokensPerSecond (snd (ClientLimiter_Allow now key l)) = limTokensPerSecond l"
  "limBurst (snd (ClientLimiter_Allow now key l)) = limBurst l"
  "clientIdleTTL (snd (ClientLimiter_Allow now key l)) = clientIdleTTL l"
  "cleanupInterval (snd (ClientLimiter_Allow now key l)) = cleanupInterval l"
  "length (shards (snd (ClientLimiter_Allow now key l))) = length (shards l)"
  "shardIndex (snd (ClientLimiter_Allow now key l)) k = shardIndex l k"
  by (simp_all add: ClientLimiter_Allow_def shardIndex_def Let_def split_beta)

lemma request_entry_wf:
  assumes "limiter_wf l"
  shows "bucket_wf (bucket (request_entry now l key))"
proof -
  have "bucket_wf (bucket e)" if "surviving now l key = Some e" for e
    using that limiter_wf_shard(3) [OF assms, of key e key] map_of_SomeD
    by (fastforce simp: surviving_def client_entry_def split: option.splits if_splits)
  moreover have "bucket_wf (newBucketAt (limTokensPerSecond l) (limBurst l) now)"
    using assms by (intro bucket_wf_newBucketAt) (simp_all add: limiter_wf_def)
  ultimately show ?thesis by (auto simp: request_entry_def split: option.splits)
qed

lemma limiter_wf_Allow [gatex_inv]:
  assumes wf: "limiter_wf l"
  shows "limiter_wf (snd (ClientLimiter_Allow now key l))"
proof -
  let ?i = "shardIndex l key" and ?e = "request_entry now l key"
  let ?new = "(cleaned now l ?i)\<lparr>clients :=
       AList.update key (?e\<lparr>bucket := snd (Bucket_allowAt now (bucket ?e))\<rparr>) (clients (cleaned now l ?i))\<rparr>"
  note sh = limiter_wf_shard [OF wf]
  note cl = cleaned_clients [OF limiter_wf_shard(2) [OF wf, of key], of now]
  have "\<forall>(k, e) \<in> set (clients ?new). bucket_wf (bucket e)"
  proof
    fix x assume "x \<in> set (clients ?new)"
    then have "x \<in> set (clients (cleaned now l ?i)) \<or>
        x = (key, ?e\<lparr>bucket := snd (Bucket_allowAt now (bucket ?e))\<rparr>)"
      by (simp add: set_alist_update)
    then show "case x of (k, e) \<Rightarrow> bucket_wf (bucket e)"
      using cl(2) sh(3) request_entry_wf [OF wf, of now key] by (auto intro: bucket_wf_allowAt)
  qed
  moreover have "gomap_wf (clients ?new)" using cl(1) by simp
  ultimately have "\<forall>s \<in> set ((shards l)[?i := ?new]). gomap_wf (clients s)
      \<and> (\<forall>(k, e) \<in> set (clients s). bucket_wf (bucket e))"
    using wf by (intro ball_list_update) (simp_all add: limiter_wf_def)
  with wf show ?thesis by (simp add: Allow_unfold limiter_wf_def)
qed

subsection \<open>One client's entry under the requests of all clients\<close>

lemma client_entry_same:
  assumes "limiter_wf l"
  shows "client_entry (snd (ClientLimiter_Allow now key l)) key =
    Some ((request_entry now l key)\<lparr>bucket :=
      snd (Bucket_allowAt now (bucket (request_entry now l key)))\<rparr>)"
  using limiter_wf_shard(1) [OF assms, of key] unfolding client_entry_def
  by (simp add: Allow_unfold [OF assms] update_conv')

lemma client_entry_other:
  assumes wf: "limiter_wf l" and other: "k \<noteq> key"
  shows "client_entry (snd (ClientLimiter_Allow now k l)) key =
    (if shardIndex l k = shardIndex l key then surviving now l key else client_entry l key)"
proof (cases "shardIndex l k = shardIndex l key")
  case True
  then show ?thesis
    using limiter_wf_shard(1) [OF wf, of k] other
      cleaned_clients(3) [OF limiter_wf_shard(2) [OF wf, of key], of now key]
    unfolding client_entry_def surviving_def by (simp add: Allow_unfold [OF wf] update_conv')
next
  case False
  then show ?thesis unfolding client_entry_def by (simp add: Allow_unfold [OF wf])
qed

lemma surviving_fresh: "client_entry l key = Some e \<Longrightarrow> now < lastSeen e + clientIdleTTL l \<Longrightarrow> surviving now l key = Some e"
  by (simp add: surviving_def)

fun limiter_run :: "(time \<times> string) list \<Rightarrow> ClientLimiter \<Rightarrow> bool list \<times> ClientLimiter" where
  "limiter_run [] l = ([], l)"
| "limiter_run ((now, key) # reqs) l =
    (let (a, l) = ClientLimiter_Allow now key l; (as, l) = limiter_run reqs l in (a # as, l))"

text \<open>The decisions one client gets in a run, and the instants of its requests.\<close>

definition decisions_for :: "string \<Rightarrow> (time \<times> string) list \<Rightarrow> bool list \<Rightarrow> bool list" where
  "decisions_for key reqs as = map snd (filter (\<lambda>(r, a). snd r = key) (zip reqs as))"

definition times_of :: "string \<Rightarrow> (time \<times> string) list \<Rightarrow> time list" where
  "times_of key reqs = map fst (filter (\<lambda>r. snd r = key) reqs)"

fun gaps_below :: "duration \<Rightarrow> time list \<Rightarrow> bool" where
  "gaps_below ttl (t # u # ts) = (u < t + ttl \<and> gaps_below ttl (u # ts))"
| "gaps_below ttl _ = True"

lemma times_of_ge: "sorted (t # map fst reqs) \<Longrightarrow> \<forall>u \<in> set (times_of key reqs). t \<le> u"
  by (auto simp: times_of_def)

lemma known_client_is_bucket:
  assumes "limiter_wf l" "client_entry l key = Some e"
    and "sorted (lastSeen e # map fst reqs)" "gaps_below (clientIdleTTL l) (lastSeen e # times_of key reqs)"
  shows "decisions_for key reqs (fst (limiter_run reqs l)) = fst (bucket_run (times_of key reqs) (bucket e))"
  using assms
proof (induction reqs arbitrary: l e)
  case (Cons r reqs)
  obtain now k where r: "r = (now, k)" by fastforce
  let ?l = "snd (ClientLimiter_Allow now k l)"
  have wf: "limiter_wf ?l" using Cons.prems(1) by (rule limiter_wf_Allow)
  have le: "lastSeen e \<le> now" and sorted: "sorted (now # map fst reqs)"
    using Cons.prems(3) by (simp_all add: r)
  show ?case
  proof (cases "k = key")
    case True
    then have now: "now < lastSeen e + clientIdleTTL l" and gaps: "gaps_below (clientIdleTTL l) (now # times_of key reqs)"
      using Cons.prems(4) by (simp_all add: r times_of_def)
    then have entry: "request_entry now l key = e\<lparr>lastSeen := now\<rparr>"
      using surviving_fresh [OF Cons.prems(2)] le by (simp add: request_entry_def)
    have "decisions_for key reqs (fst (limiter_run reqs ?l))
        = fst (bucket_run (times_of key reqs) (snd (Bucket_allowAt now (bucket e))))"
      using Cons.IH [OF wf [unfolded True]] client_entry_same [OF Cons.prems(1), of now key] entry sorted gaps True
      by simp
    moreover have "fst (ClientLimiter_Allow now key l) = fst (Bucket_allowAt now (bucket e))"
      by (simp add: Allow_unfold [OF Cons.prems(1)] entry)
    ultimately show ?thesis using True by (simp add: r decisions_for_def times_of_def split_beta)
  next
    case False
    have "decisions_for key reqs (fst (limiter_run reqs ?l)) = fst (bucket_run (times_of key reqs) (bucket e))"
    proof (cases "times_of key reqs")
      case Nil
      then have "\<forall>r \<in> set reqs. snd r \<noteq> key" by (auto simp: times_of_def filter_empty_conv)
      then have "decisions_for key reqs as = []" for as
        by (auto simp: decisions_for_def filter_empty_conv dest: set_zip_leftD)
      with Nil show ?thesis by simp
    next
      case (Cons u us)
      have "now \<le> u" using times_of_ge [OF sorted, of key] Cons by simp
      moreover have "u < lastSeen e + clientIdleTTL l"
        using Cons.prems(4) False Cons by (simp add: r times_of_def)
      ultimately have "client_entry ?l key = Some e"
        using client_entry_other [OF Cons.prems(1) False, of now] surviving_fresh [OF Cons.prems(2)] Cons.prems(2)
        by simp
      moreover have "sorted (lastSeen e # map fst reqs)" using le sorted by (auto intro: order_trans)
      ultimately show ?thesis using Cons.IH [OF wf] Cons.prems(4) False by (simp add: r times_of_def)
    qed
    then show ?thesis using False by (simp add: r decisions_for_def times_of_def split_beta)
  qed
qed (simp add: decisions_for_def times_of_def)

lemma new_client_is_bucket:
  assumes "limiter_wf l" "client_entry l key = None"
    and "sorted (map fst reqs)" "gaps_below (clientIdleTTL l) (times_of key reqs)"
  shows "decisions_for key reqs (fst (limiter_run reqs l)) =
    (case times_of key reqs of [] \<Rightarrow> []
     | t # _ \<Rightarrow> fst (bucket_run (times_of key reqs) (newBucketAt (limTokensPerSecond l) (limBurst l) t)))"
  using assms
proof (induction reqs arbitrary: l)
  case (Cons r reqs)
  obtain now k where r: "r = (now, k)" by fastforce
  let ?l = "snd (ClientLimiter_Allow now k l)"
  have wf: "limiter_wf ?l" using Cons.prems(1) by (rule limiter_wf_Allow)
  show ?case
  proof (cases "k = key")
    case True
    let ?b = "newBucketAt (limTokensPerSecond l) (limBurst l) now"
    have entry: "request_entry now l key = \<lparr>bucket = ?b, lastSeen = now\<rparr>"
      using Cons.prems(2) by (simp add: request_entry_def surviving_def)
    have "decisions_for key reqs (fst (limiter_run reqs ?l))
        = fst (bucket_run (times_of key reqs) (snd (Bucket_allowAt now ?b)))"
      using known_client_is_bucket [OF wf, of key] client_entry_same [OF Cons.prems(1), of now key]
        entry True Cons.prems(3,4) by (simp add: r times_of_def)
    moreover have "fst (ClientLimiter_Allow now key l) = fst (Bucket_allowAt now ?b)"
      by (simp add: Allow_unfold [OF Cons.prems(1)] entry)
    ultimately show ?thesis using True by (simp add: r decisions_for_def times_of_def split_beta)
  next
    case False
    have "client_entry ?l key = None"
      using client_entry_other [OF Cons.prems(1) False, of now] Cons.prems(2) by (simp add: surviving_def)
    moreover have times: "times_of key (r # reqs) = times_of key reqs" using False by (simp add: r times_of_def)
    moreover have "decisions_for key (r # reqs) (fst (limiter_run (r # reqs) l))
        = decisions_for key reqs (fst (limiter_run reqs ?l))"
      using False by (simp add: r decisions_for_def split_beta)
    ultimately show ?thesis using Cons.IH [OF wf] Cons.prems(3,4)
      by (cases "times_of key reqs") (simp_all add: r)
  qed
qed (simp add: decisions_for_def times_of_def)

lemma newClientLimiter_wf:
  assumes "newClientLimiter tps burst options = Inr l"
    and "wf64 tps" "burst \<le> maxInt64" "optShardCount options \<le> maxInt64"
  shows "limiter_wf l" and "client_entry l key = None"
proof -
  have "nat maxInt64 < 2 ^ 64" by (simp add: maxInt64_def)
  then show wf: "limiter_wf l"
    using assms by (auto simp: newClientLimiter_def limiter_wf_def split: option.splits if_splits)
  have "\<forall>s \<in> set (shards l). clients s = []"
    using assms(1) by (auto simp: newClientLimiter_def split: option.splits if_splits)
  then have "clients (shards l ! shardIndex l key) = []"
    using nth_mem [OF limiter_wf_shard(1) [OF wf]] by blast
  then show "client_entry l key = None" by (simp add: client_entry_def)
qed

interpretation limiter_machine:
  invariant_machine "\<lambda>l req. snd (ClientLimiter_Allow (fst req) (snd req) l)" "\<lambda>_. True" limiter_wf
  by unfold_locales (simp_all add: limiter_wf_Allow)

lemma limiter_run_foldl:
  "snd (limiter_run reqs l) = foldl (\<lambda>l req. snd (ClientLimiter_Allow (fst req) (snd req) l)) l reqs"
proof (induction reqs arbitrary: l)
  case (Cons r reqs)
  then show ?case by (cases r) (simp add: split_beta)
qed simp

lemma limiter_run_wf: "limiter_wf l \<Longrightarrow> limiter_wf (snd (limiter_run reqs l))"
  unfolding limiter_run_foldl by (rule limiter_machine.run_inv) simp_all

lemma Allow_entries:
  assumes "limiter_wf l"
  shows "client_entry (snd (ClientLimiter_Allow now key l)) k =
    (if k = key then Some ((request_entry now l key)\<lparr>bucket :=
       snd (Bucket_allowAt now (bucket (request_entry now l key)))\<rparr>)
     else if shardIndex l k = shardIndex l key then surviving now l k else client_entry l k)"
  using client_entry_same [OF assms] client_entry_other [OF assms, of key k now] by auto

lemma bucket_run_fields [simp]:
  "capacity (snd (bucket_run nows b)) = capacity b"
  "tokensPerSecond (snd (bucket_run nows b)) = tokensPerSecond b"
  "lastRefill (snd (bucket_run nows b)) = foldl max (lastRefill b) nows"
  by (induction nows arbitrary: b) (simp_all add: split_beta Let_def max.commute)

lemma newBucket_Inr:
  assumes "newBucket tps burst (Some started) = Inr b"
  shows "b = newBucketAt tps burst started" and "validateBucketConfig tps burst = None"
  using assms by (auto simp: newBucket_def split: option.splits)

lemma newBucketAt_fields [simp]:
  "tokens (newBucketAt tps burst t) = float64_of_int burst"
  "capacity (newBucketAt tps burst t) = float64_of_int burst"
  "tokensPerSecond (newBucketAt tps burst t) = tps"
  "lastRefill (newBucketAt tps burst t) = t"
  by (simp_all add: newBucketAt_def Let_def)

text \<open>The hash is FNV-1a: its published test vectors.\<close>

lemma hashClientKey_vectors:
  "hashClientKey '''' = 0xcbf29ce484222325"
  "hashClientKey ''a'' = 0xaf63dc4c8601ec8c"
  "hashClientKey ''foobar'' = 0x85944171f73967e8"
  by code_simp+

section \<open>Properties\<close>

text \<open>The rate limit holds: a bucket started at \<open>t0\<close> and asked at any instants, in any
  order, admits at most the burst plus the tokens the configured rate earns from \<open>t0\<close> to the
  latest reading. The bound carries the rounding of \<^verbatim>\<open>float64\<close> explicitly: a relative error of
  four roundings on what is earned and \<open>bucket_slack\<close> per request.\<close>

theorem bucket_rate_bound:
  assumes "newBucket tps burst (Some t0) = Inr b" "wf64 tps" "burst \<le> maxInt64"
  shows "of_nat (allowed_count (fst (bucket_run nows b)))
    \<le> val64 (float64_of_int burst) + earned b (foldl max t0 nows - t0)
      + of_nat (length nows) * bucket_slack b"
proof -
  note b = newBucket_Inr [OF assms(1)]
  have wf: "bucket_wf b" unfolding b(1) using b(2) assms(2,3) by (rule bucket_wf_newBucketAt)
  have "0 \<le> val64 (tokens (snd (bucket_run nows b)))"
    using bucket_wf_run [OF wf, of nows] by (simp add: bucket_wf_def)
  with bucket_run_potential [OF wf, of nows] show ?thesis
    unfolding bucket_run_fields using b(1) by simp
qed

text \<open>In every state a bucket reaches, its tokens are a finite non-negative
  \<^verbatim>\<open>float64\<close> not above the burst it was built with, and its refill instant never goes back.\<close>

theorem bucket_tokens_in_range:
  assumes "newBucket tps burst (Some t0) = Inr b" "wf64 tps" "burst \<le> maxInt64"
  shows "finite64 (tokens (snd (bucket_run nows b)))
    \<and> 0 \<le> val64 (tokens (snd (bucket_run nows b)))
    \<and> val64 (tokens (snd (bucket_run nows b))) \<le> val64 (float64_of_int burst)
    \<and> t0 \<le> lastRefill (snd (bucket_run nows b))"
proof -
  note b = newBucket_Inr [OF assms(1)]
  have wf: "bucket_wf b" unfolding b(1) using b(2) assms(2,3) by (rule bucket_wf_newBucketAt)
  have "t \<le> foldl max t ts" for t :: time and ts
  proof (induction ts arbitrary: t)
    case (Cons u us)
    show ?case using Cons [of "max t u"] by simp
  qed simp
  with bucket_wf_run [OF wf, of nows] b(1) show ?thesis by (simp add: bucket_wf_def)
qed

text \<open>A fresh bucket whose burst a \<^verbatim>\<open>float64\<close> counts exactly admits exactly the
  first \<open>burst\<close> requests made before the clock moves on, and rejects every later one.\<close>

theorem fresh_bucket_admits_burst:
  assumes "newBucket tps burst (Some t0) = Inr b" "burst \<le> 2 ^ 53" "\<forall>now \<in> set nows. now \<le> t0"
  shows "fst (bucket_run nows b) = map (\<lambda>i. i < nat burst) [0..<length nows]"
proof -
  note b = newBucket_Inr [OF assms(1)]
  have "1 \<le> burst" using b(2) by (auto simp: validateBucketConfig_def split: if_splits)
  then have n: "int (nat burst) = burst" "nat burst \<le> 2 ^ 53" using assms(2) by simp_all
  have "\<bar>burst\<bar> \<le> 2 ^ 53" using n assms(2) by linarith
  then have "float64_of_int burst = Fin (of_int burst)" by (rule float64_of_int_small)
  moreover have "(of_int burst :: rat) = of_nat (nat burst)" using n(1) by (metis of_int_of_nat_eq)
  ultimately have "tokens b = Fin (of_nat (nat burst))" unfolding b(1) newBucketAt_fields by metis
  from bucket_run_whole [OF this n(2), of nows] assms(3) show ?thesis by (simp add: b(1))
qed

text \<open>C15 (refinement). Clients do not affect each other: with a clock that does not go back, the
  decisions a client of a new limiter gets, in any interleaving with the requests of all other
  clients, in its shard or not, are those of a token bucket of its own created at its first request,
  as long as its pauses stay below the idle time.\<close>

theorem clients_are_isolated:
  assumes "newClientLimiter tps burst options = Inr l"
    and "wf64 tps" "burst \<le> maxInt64" "optShardCount options \<le> maxInt64"
    and "sorted (map fst reqs)" "gaps_below (clientIdleTTL l) (times_of key reqs)"
  shows "decisions_for key reqs (fst (limiter_run reqs l)) =
    (case times_of key reqs of [] \<Rightarrow> []
     | t # _ \<Rightarrow> fst (bucket_run (times_of key reqs) (newBucketAt tps burst t)))"
proof -
  have "limTokensPerSecond l = tps \<and> limBurst l = burst"
    using assms(1) by (auto simp: newClientLimiter_def split: option.splits if_splits)
  with new_client_is_bucket [OF newClientLimiter_wf(1) [OF assms(1-4)]
      newClientLimiter_wf(2) [OF assms(1-4)] assms(5,6)]
  show ?thesis by (simp split: list.splits)
qed

text \<open>What one request does to the table of clients, in every state a limiter
  reaches: it is decided by the client's own bucket, a new full one when the client is unknown or
  its entry has just been cleaned up; other entries of the same shard are dropped exactly when the
  cleanup is due and they have been idle for the configured time; nothing else changes.\<close>

theorem limiter_request_effect:
  assumes "newClientLimiter tps burst options = Inr l0"
    and "wf64 tps" "burst \<le> maxInt64" "optShardCount options \<le> maxInt64"
    and "l = snd (limiter_run reqs l0)"
  shows "fst (ClientLimiter_Allow now key l) = fst (Bucket_allowAt now (bucket (request_entry now l key)))
    \<and> client_entry (snd (ClientLimiter_Allow now key l)) k =
      (if k = key then Some ((request_entry now l key)\<lparr>bucket :=
         snd (Bucket_allowAt now (bucket (request_entry now l key)))\<rparr>)
       else if shardIndex l k = shardIndex l key then surviving now l k else client_entry l k)"
proof -
  have wf: "limiter_wf l"
    unfolding assms(5) using newClientLimiter_wf(1) [OF assms(1-4)] by (rule limiter_run_wf)
  show ?thesis using Allow_entries [OF wf] by (simp add: Allow_unfold [OF wf])
qed

text \<open>Which configurations the constructors accept: a rate that is a positive finite
  number, a positive burst and, for a limiter, positive options and a clock; the limiter then keeps
  an idle client at least as long as its bucket takes to refill.\<close>

theorem limiter_construction:
  assumes "wf64 tps"
  shows "((\<exists>b. newBucket tps burst clock = Inr b)
      \<longleftrightarrow> (\<exists>r. tps = Fin r \<and> 0 < r) \<and> 0 < burst \<and> clock \<noteq> None)
    \<and> ((\<exists>l. newClientLimiter tps burst options = Inr l)
      \<longleftrightarrow> (\<exists>r. tps = Fin r \<and> 0 < r) \<and> 0 < burst \<and> 0 < optShardCount options
        \<and> 0 < optClientIdleTTL options \<and> 0 < optCleanupInterval options \<and> optNow options \<noteq> None)
    \<and> (\<forall>l. newClientLimiter tps burst options = Inr l
      \<longrightarrow> bucketRefillDuration tps burst \<le> clientIdleTTL l)"
proof (intro conjI)
  have "validateBucketConfig tps burst = None \<longleftrightarrow> (\<exists>r. tps = Fin r \<and> 0 < r) \<and> 0 < burst"
    using assms by (cases tps) (auto simp: validateBucketConfig_def IsNaN_def IsInf_def float64_op_defs)
  then show "(\<exists>b. newBucket tps burst clock = Inr b)
      \<longleftrightarrow> (\<exists>r. tps = Fin r \<and> 0 < r) \<and> 0 < burst \<and> clock \<noteq> None"
    and "(\<exists>l. newClientLimiter tps burst options = Inr l)
      \<longleftrightarrow> (\<exists>r. tps = Fin r \<and> 0 < r) \<and> 0 < burst \<and> 0 < optShardCount options
        \<and> 0 < optClientIdleTTL options \<and> 0 < optCleanupInterval options \<and> optNow options \<noteq> None"
    by (auto simp: newBucket_def newClientLimiter_def split: option.splits)
qed (auto simp: newClientLimiter_def split: option.splits if_splits)

section \<open>Concrete runs\<close>

definition sample_bucket :: Bucket where
  "sample_bucket = newBucketAt (Fin (5 / 2)) 3 0"

lemma sample_bucket_facts:
  "newBucket (Fin (5 / 2)) 3 (Some 0) = Inr sample_bucket" "wf64 (Fin (5 / 2))" "3 \<le> maxInt64"
    apply (simp add: newBucket_def validateBucketConfig_def sample_bucket_def IsNaN_def IsInf_def float64_op_defs)
   apply code_simp
  apply (simp add: maxInt64_def)
  done

definition sample_options :: clientLimiterOptions where
  "sample_options =
    \<lparr>optShardCount = 2, optClientIdleTTL = 50, optCleanupInterval = 10, optNow = Some 0\<rparr>"

definition sample_limiter :: ClientLimiter where
  "sample_limiter =
    \<lparr>shards = replicate 2 \<lparr>clients = [], lastCleanup = 0\<rparr>,
     limTokensPerSecond = Fin (5 / 2), limBurst = 3,
     clientIdleTTL = max 50 (bucketRefillDuration (Fin (5 / 2)) 3), cleanupInterval = 10\<rparr>"

lemma sample_limiter_facts:
  "newClientLimiter (Fin (5 / 2)) 3 sample_options = Inr sample_limiter"
  "optShardCount sample_options \<le> maxInt64" "50 \<le> clientIdleTTL sample_limiter"
  by (simp_all add: newClientLimiter_def validateBucketConfig_def sample_limiter_def sample_options_def
      IsNaN_def IsInf_def float64_op_defs maxInt64_def)

theorem bucket_rate_bound_witness:
  "of_nat (allowed_count (fst (bucket_run [0, 0, 1000000000] sample_bucket)))
    \<le> val64 (float64_of_int 3) + earned sample_bucket 1000000000 + 3 * bucket_slack sample_bucket"
  using bucket_rate_bound [OF sample_bucket_facts, of "[0, 0, 1000000000]"] by simp

theorem bucket_tokens_in_range_witness:
  "0 \<le> val64 (tokens (snd (bucket_run [0, 7, 3] sample_bucket)))
    \<and> val64 (tokens (snd (bucket_run [0, 7, 3] sample_bucket))) \<le> val64 (float64_of_int 3)"
  using bucket_tokens_in_range [OF sample_bucket_facts, of "[0, 7, 3]"] by blast

theorem fresh_bucket_admits_burst_witness:
  "fst (bucket_run [0, 0, 0, 0] sample_bucket) = [True, True, True, False]"
  using fresh_bucket_admits_burst [OF sample_bucket_facts(1), of "[0, 0, 0, 0]"] by (simp add: upt_rec)

theorem clients_are_isolated_witness:
  "decisions_for ''a'' [(0, ''a''), (0, ''b''), (1, ''a''), (2, ''b''), (2, ''a'')]
      (fst (limiter_run [(0, ''a''), (0, ''b''), (1, ''a''), (2, ''b''), (2, ''a'')] sample_limiter))
    = fst (bucket_run [0, 1, 2] sample_bucket)"
proof -
  have "gaps_below (clientIdleTTL sample_limiter) [0, 1, 2]" using sample_limiter_facts(3) by simp
  then show ?thesis
    using clients_are_isolated [OF sample_limiter_facts(1) sample_bucket_facts(2,3) sample_limiter_facts(2),
        of "[(0, ''a''), (0, ''b''), (1, ''a''), (2, ''b''), (2, ''a'')]" "''a''"]
    by (simp add: times_of_def sample_bucket_def)
qed

theorem limiter_request_effect_witness:
  "fst (ClientLimiter_Allow 5 ''b'' (snd (limiter_run [(0, ''a'')] sample_limiter)))
    = fst (Bucket_allowAt 5 (bucket (request_entry 5 (snd (limiter_run [(0, ''a'')] sample_limiter)) ''b'')))"
  using limiter_request_effect [OF sample_limiter_facts(1) sample_bucket_facts(2,3) sample_limiter_facts(2) refl,
      of 5 "''b''"] by blast

theorem limiter_construction_witness:
  "(\<exists>b. newBucket (Fin (5 / 2)) 3 (Some 0) = Inr b)
    \<and> \<not> (\<exists>b. newBucket (Fin (5 / 2)) 0 (Some 0) = Inr b)
    \<and> bucketRefillDuration (Fin (5 / 2)) 3 \<le> clientIdleTTL sample_limiter"
  using limiter_construction [OF sample_bucket_facts(2), of 0 "Some 0" sample_options]
    limiter_construction [OF sample_bucket_facts(2), of 3 "Some 0" sample_options]
    sample_limiter_facts(1) sample_bucket_facts(1)
  by simp

end
