(* ===== verification/Go_Strings.thy ===== *)
theory Go_Strings
  imports Prelude "HOL-Library.Sublist"
begin

text \<open>
  The functions of Go's \<^verbatim>\<open>strings\<close> package that the gateway calls. A Go string is its bytes, so a
  string here is a list of 8-bit characters.

  \<^verbatim>\<open>TrimSpace\<close> removes Unicode white space: \<open>space_runes\<close> lists the UTF-8 encodings of the runes
  \<^verbatim>\<open>unicode.IsSpace\<close> accepts. No encoding is a suffix or prefix of another and a byte string ends
  with an encoding exactly when its last rune decodes to that rune, so trimming is on bytes.

  \<^verbatim>\<open>ToLower\<close>, \<^verbatim>\<open>ToUpper\<close> and \<^verbatim>\<open>EqualFold\<close> have an ASCII path and a path through Unicode case tables;
  the tables are the argument \<open>U\<close>, about which nothing is assumed.
\<close>

section \<open>Prefixes and trimming\<close>

definition HasPrefix :: "string \<Rightarrow> string \<Rightarrow> bool" where
  "HasPrefix s p = (take (length p) s = p)"

definition HasSuffix :: "string \<Rightarrow> string \<Rightarrow> bool" where
  "HasSuffix s p = (length p \<le> length s \<and> drop (length s - length p) s = p)"

lemma HasPrefix_prefix [simp]: "HasPrefix s p \<longleftrightarrow> prefix p s"
  by (auto simp: HasPrefix_def prefix_def intro: append_take_drop_id [symmetric] exI [of _ "drop (length p) s"])
    (metis append_take_drop_id)

definition TrimLeft :: "string \<Rightarrow> char \<Rightarrow> string" where
  "TrimLeft s c = dropWhile (\<lambda>x. x = c) s"

definition TrimRight :: "string \<Rightarrow> char \<Rightarrow> string" where
  "TrimRight s c = rev (dropWhile (\<lambda>x. x = c) (rev s))"

definition Trim :: "string \<Rightarrow> char \<Rightarrow> string" where
  "Trim s c = TrimRight (TrimLeft s c) c"

lemma TrimRight_append: "\<exists>n. s = TrimRight s c @ replicate n c"
proof -
  let ?t = "takeWhile (\<lambda>x. x = c) (rev s)"
  have "rev s = ?t @ dropWhile (\<lambda>x. x = c) (rev s)" by simp
  then have "rev (rev s) = rev (dropWhile (\<lambda>x. x = c) (rev s)) @ rev ?t"
    unfolding rev_append [symmetric] by simp
  then have "s = TrimRight s c @ rev ?t" by (simp add: TrimRight_def)
  moreover have "\<forall>x \<in> set (rev ?t). x = c" by (auto dest: set_takeWhileD)
  then have "rev ?t = replicate (length (rev ?t)) c" by (intro replicate_eqI) auto
  ultimately show ?thesis by metis
qed

lemma last_TrimRight: "TrimRight s c \<noteq> [] \<Longrightarrow> last (TrimRight s c) \<noteq> c"
  using hd_dropWhile [of "\<lambda>x. x = c" "rev s"] by (simp add: TrimRight_def last_rev)

lemma TrimRight_self: "s = [] \<or> last s \<noteq> c \<Longrightarrow> TrimRight s c = s"
  by (cases s rule: rev_cases) (auto simp: TrimRight_def)

lemma hd_TrimLeft: "TrimLeft s c \<noteq> [] \<Longrightarrow> hd (TrimLeft s c) \<noteq> c"
  unfolding TrimLeft_def by (rule hd_dropWhile)

section \<open>White space\<close>

definition byte_string :: "nat list \<Rightarrow> string" where
  "byte_string ns = map char_of ns"

definition space_runes :: "string list" where
  "space_runes = map byte_string
    ([[0x09], [0x0A], [0x0B], [0x0C], [0x0D], [0x20], [0xC2, 0x85], [0xC2, 0xA0],
      [0xE1, 0x9A, 0x80]] @ map (\<lambda>b. [0xE2, 0x80, b]) [0x80..<0x8B] @
     [[0xE2, 0x80, 0xA8], [0xE2, 0x80, 0xA9], [0xE2, 0x80, 0xAF], [0xE2, 0x81, 0x9F],
      [0xE3, 0x80, 0x80]])"

text \<open>Drop from the front every leading member of \<open>rs\<close>; the fuel is the number of bytes.\<close>

fun strip_runes :: "nat \<Rightarrow> string list \<Rightarrow> string \<Rightarrow> string" where
  "strip_runes 0 rs s = s"
| "strip_runes (Suc n) rs s =
    (case find (\<lambda>r. r \<noteq> [] \<and> take (length r) s = r) rs of
       None \<Rightarrow> s
     | Some r \<Rightarrow> strip_runes n rs (drop (length r) s))"

definition TrimSpace :: "string \<Rightarrow> string" where
  "TrimSpace s =
    (let left = strip_runes (length s) space_runes s
     in rev (strip_runes (length left) (map rev space_runes) (rev left)))"

text \<open>A string with visible characters at both ends is not changed.\<close>

definition visible :: "char \<Rightarrow> bool" where
  "visible c = (let n = of_char c :: nat in 0x21 \<le> n \<and> n \<le> 0x7e)"

lemma space_runes_invisible: "list_all (\<lambda>r. r \<noteq> [] \<and> \<not> visible (hd r) \<and> \<not> visible (last r)) space_runes"
  by code_simp

lemma strip_runes_keep:
  assumes "\<forall>r \<in> set rs. \<not> visible (hd r)" "s \<noteq> []" "visible (hd s)"
  shows "strip_runes n rs s = s"
proof (cases n)
  case (Suc m)
  have "\<not> (r \<noteq> [] \<and> take (length r) s = r)" if "r \<in> set rs" for r
  proof
    assume "r \<noteq> [] \<and> take (length r) s = r"
    then have "hd r = hd s" by (cases r; cases s) auto
    then show False using assms(1,3) that by metis
  qed
  then have "find (\<lambda>r. r \<noteq> [] \<and> take (length r) s = r) rs = None"
    unfolding find_None_iff by blast
  then show ?thesis using Suc by simp
qed simp

lemma TrimSpace_keep:
  assumes "s \<noteq> []" "visible (hd s)" "visible (last s)"
  shows "TrimSpace s = s"
proof -
  have runes: "\<forall>r \<in> set space_runes. \<not> visible (hd r)" "\<forall>r \<in> set (map rev space_runes). \<not> visible (hd r)"
    using space_runes_invisible by (auto simp: list_all_iff hd_rev)
  have left: "strip_runes (length s) space_runes s = s"
    using assms runes(1) by (intro strip_runes_keep)
  have right: "strip_runes (length s) (map rev space_runes) (rev s) = rev s"
    using assms runes(2) by (intro strip_runes_keep) (simp_all add: hd_rev)
  show ?thesis unfolding TrimSpace_def by (simp only: left right Let_def rev_rev_ident)
qed

section \<open>Splitting\<close>

fun Split :: "string \<Rightarrow> char \<Rightarrow> string list" where
  "Split [] c = [[]]"
| "Split (x # s) c =
    (if x = c then [] # Split s c
     else (case Split s c of p # ps \<Rightarrow> (x # p) # ps | [] \<Rightarrow> [[x]]))"

fun Join :: "string list \<Rightarrow> string \<Rightarrow> string" where
  "Join [] sep = []"
| "Join [s] sep = s"
| "Join (s # ss) sep = s @ sep @ Join ss sep"

definition Cut :: "string \<Rightarrow> char \<Rightarrow> string \<times> string \<times> bool" where
  "Cut s c =
    (let pre = takeWhile (\<lambda>x. x \<noteq> c) s
     in if length pre < length s then (pre, drop (Suc (length pre)) s, True)
        else (s, [], False))"

lemma Split_not_Nil [simp]: "Split s c \<noteq> []"
  by (induction s) (auto split: list.splits)

lemma Join_Split: "Join (Split s c) [c] = s"
proof (induction s)
  case (Cons x s)
  obtain p ps where "Split s c = p # ps" using Split_not_Nil by (cases "Split s c") blast+
  with Cons show ?case by (cases ps) auto
qed simp

section \<open>Case\<close>

record unicode_case =
  uToLower :: "string \<Rightarrow> string"
  uToUpper :: "string \<Rightarrow> string"
  uEqualFold :: "string \<Rightarrow> string \<Rightarrow> bool"

definition is_ascii :: "string \<Rightarrow> bool" where
  "is_ascii s = list_all (\<lambda>c. of_char c < (128 :: nat)) s"

definition ascii_lower :: "char \<Rightarrow> char" where
  "ascii_lower c = (let n = of_char c :: nat in if 65 \<le> n \<and> n \<le> 90 then char_of (n + 32) else c)"

definition ascii_upper :: "char \<Rightarrow> char" where
  "ascii_upper c = (let n = of_char c :: nat in if 97 \<le> n \<and> n \<le> 122 then char_of (n - 32) else c)"

definition ToLower :: "unicode_case \<Rightarrow> string \<Rightarrow> string" where
  "ToLower U s = (if is_ascii s then map ascii_lower s else uToLower U s)"

definition ToUpper :: "unicode_case \<Rightarrow> string \<Rightarrow> string" where
  "ToUpper U s = (if is_ascii s then map ascii_upper s else uToUpper U s)"

definition EqualFold :: "unicode_case \<Rightarrow> string \<Rightarrow> string \<Rightarrow> bool" where
  "EqualFold U s t =
    (if is_ascii s \<and> is_ascii t then map ascii_lower s = map ascii_lower t else uEqualFold U s t)"

end
