(* ===== verification/Load_Balancer.thy ===== *)
theory Load_Balancer
  imports Go_Strings "HOL-Library.Multiset"
begin

text \<open>
  The backend pools and their health checker, \<^verbatim>\<open>src/internal/balancer/pool.go\<close> and
  \<^verbatim>\<open>health_checker.go\<close>.

  A backend is named by its index in the pool: membership never changes, so the index stands for
  the pointer. \<^verbatim>\<open>Pool.Acquire\<close> holds \<^verbatim>\<open>selectionMu\<close> and is one step; the round-robin cursor is a
  \<^verbatim>\<open>uint64\<close> with its wrap-around. \<^verbatim>\<open>Backend.Release\<close> takes no lock: its compare-and-swap loop is
  modelled both as its net effect and as a step relation over interleaved goroutines, which is
  shown to have that effect.
\<close>

section \<open>Pools and backends\<close>

datatype PoolError = ErrNoBackends | ErrEmptyBackendURL | ErrUnsupportedStrategy

definition RoundRobin :: string where
  "RoundRobin = ''round_robin''"

definition LeastConnections :: string where
  "LeastConnections = ''least_connections''"

record Backend =
  url :: string
  healthy :: bool
  activeConnections :: int

record Pool =
  backends :: "Backend list"
  strategy :: string
  pool_next :: "64 word"

fun newBackends :: "string list \<Rightarrow> PoolError + Backend list" where
  "newBackends [] = Inr []"
| "newBackends (u # urls) =
    (if TrimSpace u = [] then Inl ErrEmptyBackendURL
     else
       (case newBackends urls of
          Inl e \<Rightarrow> Inl e
        | Inr bs \<Rightarrow> Inr (\<lparr>url = u, healthy = True, activeConnections = 0\<rparr> # bs)))"

definition NewPoolWithStrategy :: "string list \<Rightarrow> string \<Rightarrow> PoolError + Pool" where
  "NewPoolWithStrategy urls strat =
    (if urls = [] then Inl ErrNoBackends
     else if strat \<noteq> RoundRobin \<and> strat \<noteq> LeastConnections then Inl ErrUnsupportedStrategy
     else
       (case newBackends urls of
          Inl e \<Rightarrow> Inl e
        | Inr bs \<Rightarrow> Inr \<lparr>backends = bs, strategy = strat, pool_next = 0\<rparr>))"

definition NewPool :: "string list \<Rightarrow> PoolError + Pool" where
  "NewPool urls = NewPoolWithStrategy urls RoundRobin"

definition Pool_Strategy :: "Pool \<Rightarrow> string" where
  "Pool_Strategy p = strategy p"

definition Pool_Backends :: "Pool \<Rightarrow> Backend list" where
  "Pool_Backends p = backends p"

definition Backend_URL :: "Backend \<Rightarrow> string" where
  "Backend_URL b = url b"

definition Backend_Healthy :: "Backend \<Rightarrow> bool" where
  "Backend_Healthy b = healthy b"

definition Backend_SetHealthy :: "bool \<Rightarrow> Backend \<Rightarrow> Backend" where
  "Backend_SetHealthy h b = b\<lparr>healthy := h\<rparr>"

definition Backend_ActiveConnections :: "Backend \<Rightarrow> int" where
  "Backend_ActiveConnections b = activeConnections b"

definition Backend_Acquire :: "Backend \<Rightarrow> Backend" where
  "Backend_Acquire b = b\<lparr>activeConnections := int64_add (activeConnections b) 1\<rparr>"

text \<open>The net effect of the compare-and-swap loop.\<close>

definition Backend_Release :: "Backend \<Rightarrow> Backend" where
  "Backend_Release b =
    (if activeConnections b = 0 then b
     else b\<lparr>activeConnections := int64_add (activeConnections b) (- 1)\<rparr>)"

section \<open>Selection\<close>

fun roundRobin_loop :: "64 word \<Rightarrow> nat list \<Rightarrow> Pool \<Rightarrow> nat option \<times> Pool" where
  "roundRobin_loop start [] p = (None, p)"
| "roundRobin_loop start (offset # offsets) p =
    (let index = (start + of_nat offset) mod of_nat (length (backends p))
     in if Backend_Healthy (backends p ! unat index)
        then (Some (unat index), p\<lparr>pool_next := index + 1\<rparr>)
        else roundRobin_loop start offsets p)"

definition nextRoundRobin :: "Pool \<Rightarrow> nat option \<times> Pool" where
  "nextRoundRobin p = roundRobin_loop (pool_next p) [0..<length (backends p)] p"

fun leastConnections_loop :: "Backend list \<Rightarrow> nat list \<Rightarrow> nat option \<Rightarrow> nat option" where
  "leastConnections_loop bs [] selected = selected"
| "leastConnections_loop bs (i # is) selected =
    leastConnections_loop bs is
      (if \<not> Backend_Healthy (bs ! i) then selected
       else
         (case selected of
            None \<Rightarrow> Some i
          | Some s \<Rightarrow>
              if Backend_ActiveConnections (bs ! i) < Backend_ActiveConnections (bs ! s) then Some i
              else selected))"

definition nextLeastConnections :: "Pool \<Rightarrow> nat option \<times> Pool" where
  "nextLeastConnections p =
    (leastConnections_loop (backends p) [0..<length (backends p)] None, p)"

definition on_backend :: "nat \<Rightarrow> (Backend \<Rightarrow> Backend) \<Rightarrow> Pool \<Rightarrow> Pool" where
  "on_backend i f p = p\<lparr>backends := (backends p)[i := f (backends p ! i)]\<rparr>"

definition acquire_with :: "(Pool \<Rightarrow> nat option \<times> Pool) \<Rightarrow> Pool \<Rightarrow> nat option \<times> Pool" where
  "acquire_with select p =
    (case select p of
       (None, p) \<Rightarrow> (None, p)
     | (Some i, p) \<Rightarrow> (Some i, on_backend i Backend_Acquire p))"

definition Pool_Acquire :: "Pool \<Rightarrow> nat option \<times> Pool" where
  "Pool_Acquire p =
    acquire_with
      (if strategy p = RoundRobin then nextRoundRobin
       else if strategy p = LeastConnections then nextLeastConnections
       else (\<lambda>p. (None, p))) p"

section \<open>Health checks\<close>

datatype HealthCheckError =
    errNegativeHealthCheckInterval
  | errNegativeHealthCheckTimeout
  | errInvalidHealthCheckPath

record HealthChecker =
  interval :: duration
  timeout :: duration
  path :: string

definition defaultHealthCheckPath :: string where
  "defaultHealthCheckPath = ''/healthz''"

definition defaultHealthCheckInterval :: duration where
  "defaultHealthCheckInterval = 10 * Second"

definition defaultHealthCheckTimeout :: duration where
  "defaultHealthCheckTimeout = 2 * Second"

definition NewHealthChecker :: "duration \<Rightarrow> duration \<Rightarrow> string \<Rightarrow> HealthCheckError + HealthChecker" where
  "NewHealthChecker intv tmo pth =
    (if intv < 0 then Inl errNegativeHealthCheckInterval
     else if tmo < 0 then Inl errNegativeHealthCheckTimeout
     else if pth \<noteq> [] \<and> \<not> HasPrefix pth ''/'' then Inl errInvalidHealthCheckPath
     else Inr \<lparr>interval = (if intv = 0 then defaultHealthCheckInterval else intv),
               timeout = (if tmo = 0 then defaultHealthCheckTimeout else tmo),
               path = (if pth = [] then defaultHealthCheckPath else pth)\<rparr>)"

text \<open>
  What a probe relies on outside this code: \<^verbatim>\<open>url.Parse\<close> followed by \<^verbatim>\<open>ResolveReference\<close> and
  \<^verbatim>\<open>String\<close>, whether \<^verbatim>\<open>http.NewRequestWithContext\<close> accepts the URL, and the exchange itself,
  which fails, or gives a status and whether closing the body succeeded. The network may answer
  differently for every backend and every round.
\<close>

datatype ProbeResult = ProbeFailed | ProbeResponse int bool

record ProbeWorld =
  resolve_url :: "string \<Rightarrow> string \<Rightarrow> string option"
  request_ok :: "string \<Rightarrow> bool"
  exchange :: "string \<Rightarrow> duration \<Rightarrow> ProbeResult"

definition healthCheckURL :: "ProbeWorld \<Rightarrow> string \<Rightarrow> string \<Rightarrow> string option" where
  "healthCheckURL w backendURL pth = resolve_url w backendURL pth"

definition checkBackend :: "HealthChecker \<Rightarrow> ProbeWorld \<Rightarrow> Backend \<Rightarrow> Backend" where
  "checkBackend h w b =
    (case healthCheckURL w (Backend_URL b) (path h) of
       None \<Rightarrow> Backend_SetHealthy False b
     | Some checkURL \<Rightarrow>
         if \<not> request_ok w checkURL then Backend_SetHealthy False b
         else
           (case exchange w checkURL (timeout h) of
              ProbeFailed \<Rightarrow> Backend_SetHealthy False b
            | ProbeResponse status closed \<Rightarrow>
                Backend_SetHealthy (closed \<and> 200 \<le> status \<and> status < 400) b))"

text \<open>One goroutine per backend; \<open>order\<close> is the order in which they store their results.\<close>

definition HealthChecker_Check ::
  "HealthChecker \<Rightarrow> (nat \<Rightarrow> ProbeWorld) \<Rightarrow> nat list \<Rightarrow> Pool \<Rightarrow> Pool" where
  "HealthChecker_Check h w order p =
    foldl (\<lambda>p i. on_backend i (checkBackend h (w i)) p) p order"

text \<open>The loop of \<^verbatim>\<open>Run\<close>: what the \<^verbatim>\<open>select\<close> receives, one after the other. The result says
  whether the loop has returned.\<close>

datatype SelectEvent = CtxDone | Tick "nat \<Rightarrow> ProbeWorld" "nat list"

fun healthCheck_loop :: "HealthChecker \<Rightarrow> SelectEvent list \<Rightarrow> Pool \<Rightarrow> bool \<times> Pool" where
  "healthCheck_loop h [] p = (False, p)"
| "healthCheck_loop h (CtxDone # es) p = (True, p)"
| "healthCheck_loop h (Tick w order # es) p = healthCheck_loop h es (HealthChecker_Check h w order p)"

definition HealthChecker_Run ::
  "HealthChecker \<Rightarrow> (nat \<Rightarrow> ProbeWorld) \<Rightarrow> nat list \<Rightarrow> SelectEvent list \<Rightarrow> Pool \<Rightarrow> bool \<times> Pool" where
  "HealthChecker_Run h w order es p = healthCheck_loop h es (HealthChecker_Check h w order p)"

section \<open>Well-formed pools\<close>

text \<open>Go's \<^verbatim>\<open>len\<close> is an \<^verbatim>\<open>int\<close>, so a pool has fewer than \<open>2 ^ 63\<close> backends.\<close>

definition pool_wf :: "Pool \<Rightarrow> bool" where
  "pool_wf p =
    (backends p \<noteq> [] \<and> length (backends p) < 2 ^ 63 \<and> unat (pool_next p) \<le> length (backends p) \<and>
     (strategy p = RoundRobin \<or> strategy p = LeastConnections))"

lemma newBackends_eq:
  "newBackends urls =
    (if \<exists>u \<in> set urls. TrimSpace u = [] then Inl ErrEmptyBackendURL
     else Inr (map (\<lambda>u. \<lparr>url = u, healthy = True, activeConnections = 0\<rparr>) urls))"
  by (induction urls) auto

lemma pool_wf_New [gatex_inv]: "NewPoolWithStrategy urls s = Inr p \<Longrightarrow> length urls < 2 ^ 63 \<Longrightarrow> pool_wf p"
  by (auto simp: NewPoolWithStrategy_def pool_wf_def newBackends_eq split: if_splits sum.splits)

lemma on_backend_fields [simp]:
  "length (backends (on_backend i f p)) = length (backends p)"
  "strategy (on_backend i f p) = strategy p"
  "pool_next (on_backend i f p) = pool_next p"
  "i < length (backends p) \<Longrightarrow> backends (on_backend i f p) ! j = (if j = i then f (backends p ! i) else backends p ! j)"
  by (auto simp: on_backend_def)

lemma backends_Nil_on_backend [simp]: "backends (on_backend i f p) = [] \<longleftrightarrow> backends p = []"
  by (simp add: on_backend_def)

lemma pool_wf_on_backend [simp, gatex_inv]: "pool_wf (on_backend i f p) \<longleftrightarrow> pool_wf p"
  by (simp add: pool_wf_def)

abbreviation healthy_at :: "Pool \<Rightarrow> nat \<Rightarrow> bool" where
  "healthy_at p i \<equiv> healthy (backends p ! i)"

abbreviation active_at :: "Pool \<Rightarrow> nat \<Rightarrow> int" where
  "active_at p i \<equiv> activeConnections (backends p ! i)"

abbreviation some_healthy :: "Pool \<Rightarrow> bool" where
  "some_healthy p \<equiv> \<exists>i < length (backends p). healthy_at p i"

section \<open>Round robin\<close>

lemma roundRobin_index:
  assumes "unat start \<le> n" "k < n" "n < 2 ^ 63"
  shows "unat ((start + of_nat k) mod of_nat n :: 64 word) = (unat start + k) mod n"
proof -
  have k: "unat (of_nat k :: 64 word) = k" and n: "unat (of_nat n :: 64 word) = n"
    using assms by (simp_all add: unat_of_nat take_bit_nat_eq_self)
  have "unat start + k < 2 ^ 64" using assms by simp
  then have "unat (start + of_nat k) = unat start + k" by (subst unat_plus_if_size) (simp add: k word_size)
  then show ?thesis by (simp add: unat_mod_distrib n)
qed

lemma roundRobin_loop_find:
  assumes "pool_wf p" "\<forall>k \<in> set ks. k < length (backends p)"
  shows "roundRobin_loop (pool_next p) ks p =
    (case find (healthy_at p) (map (\<lambda>k. (unat (pool_next p) + k) mod length (backends p)) ks) of
       None \<Rightarrow> (None, p)
     | Some i \<Rightarrow> (Some i, p\<lparr>pool_next := of_nat (Suc i)\<rparr>))"
  using assms(2)
proof (induction ks)
  case (Cons k ks)
  have idx: "unat ((pool_next p + of_nat k) mod of_nat (length (backends p)))
      = (unat (pool_next p) + k) mod length (backends p)"
    using assms(1) Cons.prems by (intro roundRobin_index) (simp_all add: pool_wf_def)
  then have "(pool_next p + of_nat k) mod of_nat (length (backends p)) + 1
      = of_nat (Suc ((unat (pool_next p) + k) mod length (backends p)))"
    unfolding idx [symmetric] by simp
  with Cons idx show ?case by (simp add: Backend_Healthy_def Let_def)
qed simp

definition rr_ring :: "Pool \<Rightarrow> nat list" where
  "rr_ring p = rotate (unat (pool_next p)) [0..<length (backends p)]"

text \<open>The healthy backends in the order in which round robin is about to use them.\<close>

definition rr_order :: "Pool \<Rightarrow> nat list" where
  "rr_order p = filter (healthy_at p) (rr_ring p)"

lemma nextRoundRobin_eq:
  assumes "pool_wf p"
  shows "nextRoundRobin p =
    (case rr_order p of [] \<Rightarrow> (None, p) | i # _ \<Rightarrow> (Some i, p\<lparr>pool_next := of_nat (Suc i)\<rparr>))"
proof -
  let ?n = "length (backends p)"
  have n: "?n \<noteq> 0" using assms by (simp add: pool_wf_def)
  have "map (\<lambda>k. (unat (pool_next p) + k) mod ?n) [0..<?n] = rr_ring p"
    unfolding rr_ring_def by (rule nth_equalityI) (use n in \<open>simp_all add: nth_rotate\<close>)
  with roundRobin_loop_find [OF assms, of "[0..<?n]"]
  have "nextRoundRobin p =
      (case find (healthy_at p) (rr_ring p) of None \<Rightarrow> (None, p)
       | Some i \<Rightarrow> (Some i, p\<lparr>pool_next := of_nat (Suc i)\<rparr>))"
    by (simp add: nextRoundRobin_def)
  also have "find P xs = (case filter P xs of [] \<Rightarrow> None | i # _ \<Rightarrow> Some i)" for P and xs :: "nat list"
    by (induction xs) auto
  then have "find (healthy_at p) (rr_ring p) = (case rr_order p of [] \<Rightarrow> None | i # _ \<Rightarrow> Some i)"
    by (simp add: rr_order_def)
  finally show ?thesis by (simp split: list.splits)
qed

lemma set_rr_order: "set (rr_order p) = {i. i < length (backends p) \<and> healthy_at p i}"
  by (auto simp: rr_order_def rr_ring_def)

lemma distinct_rr_order: "distinct (rr_order p)"
  by (simp add: rr_order_def rr_ring_def)

text \<open>Taking the head of the order moves it to the end.\<close>

lemma rr_ring_step:
  assumes ring: "rr_ring p = pre @ i # post" and succ: "unat w = Suc i" and ne: "backends p \<noteq> []"
  shows "rr_ring (p\<lparr>pool_next := w\<rparr>) = post @ pre @ [i]"
proof -
  let ?n = "length (backends p)" and ?s = "unat (pool_next p)"
  have len: "length pre < ?n" using arg_cong [OF ring, of length] by (simp add: rr_ring_def)
  have "rr_ring p ! length pre = i" by (simp add: ring)
  moreover have "(?s + length pre) mod ?n < ?n" using ne by simp
  ultimately have i: "i = (?s + length pre) mod ?n" using len by (simp add: rr_ring_def nth_rotate)
  have rot: "rotate (m mod ?n) [0..<?n] = rotate m [0..<?n]" for m
    using rotate_conv_mod [of m "[0..<?n]"] unfolding length_upt diff_zero by (rule sym)
  have "rr_ring (p\<lparr>pool_next := w\<rparr>) = rotate (Suc i mod ?n) [0..<?n]"
    unfolding rot by (simp add: rr_ring_def succ)
  also have "Suc i mod ?n = (Suc (length pre) + ?s) mod ?n" unfolding i by (simp add: mod_simps add.commute)
  also have "rotate \<dots> [0..<?n] = rotate (Suc (length pre) + ?s) [0..<?n]" by (rule rot)
  also have "\<dots> = rotate (Suc (length pre)) (rr_ring p)" by (simp add: rr_ring_def rotate_rotate)
  also have "\<dots> = post @ pre @ [i]"
    using rotate_append [of "pre @ [i]" post] by (simp add: ring)
  finally show ?thesis .
qed

lemma rr_order_step:
  assumes wf: "pool_wf p" and order: "rr_order p = i # rest"
  shows "rr_order (p\<lparr>pool_next := of_nat (Suc i)\<rparr>) = rest @ [i]"
    and "pool_wf (p\<lparr>pool_next := of_nat (Suc i)\<rparr>)"
proof -
  have i: "i < length (backends p)" "healthy_at p i"
    using order set_rr_order [of p] by (metis list.set_intros(1) mem_Collect_eq)+
  have w: "unat (of_nat (Suc i) :: 64 word) = Suc i"
    using i wf by (simp add: pool_wf_def unat_of_nat take_bit_nat_eq_self del: of_nat_Suc)
  obtain pre post where ring: "rr_ring p = pre @ i # post" and pre: "\<forall>x \<in> set pre. \<not> healthy_at p x"
    and rest: "rest = filter (healthy_at p) post"
    using order unfolding rr_order_def filter_eq_Cons_iff by blast
  have "backends p \<noteq> []" using wf by (simp add: pool_wf_def)
  from rr_ring_step [OF ring w this] pre i(2) rest
  show "rr_order (p\<lparr>pool_next := of_nat (Suc i)\<rparr>) = rest @ [i]"
    by (simp add: rr_order_def)
  show "pool_wf (p\<lparr>pool_next := of_nat (Suc i)\<rparr>)"
    using wf i w by (simp add: pool_wf_def del: of_nat_Suc)
qed

section \<open>Least connections\<close>

definition lc_best :: "Backend list \<Rightarrow> nat \<Rightarrow> nat option \<Rightarrow> bool" where
  "lc_best bs n r =
    (case r of
       None \<Rightarrow> \<forall>j < n. \<not> healthy (bs ! j)
     | Some i \<Rightarrow> i < n \<and> healthy (bs ! i) \<and>
         (\<forall>j < n. healthy (bs ! j) \<longrightarrow> activeConnections (bs ! i) \<le> activeConnections (bs ! j)) \<and>
         (\<forall>j < i. healthy (bs ! j) \<longrightarrow> activeConnections (bs ! i) < activeConnections (bs ! j)))"

lemma leastConnections_loop_append:
  "leastConnections_loop bs (is @ js) r = leastConnections_loop bs js (leastConnections_loop bs is r)"
  by (induction "is" arbitrary: r) simp_all

lemma leastConnections_loop_best: "lc_best bs n (leastConnections_loop bs [0..<n] None)"
proof (induction n)
  case (Suc n)
  then show ?case
    by (fastforce simp: leastConnections_loop_append lc_best_def Backend_Healthy_def
        Backend_ActiveConnections_def less_Suc_eq split: option.splits)
qed (simp add: lc_best_def)

section \<open>What both strategies promise\<close>

text \<open>
  The pool relies on a selection strategy for this: it picks a healthy backend, finds one whenever
  there is one, and leaves the backends alone. Everything the rest of the gateway uses of
  \<^verbatim>\<open>Acquire\<close> follows.
\<close>

locale backend_selector =
  fixes select :: "Pool \<Rightarrow> nat option \<times> Pool" and wf :: "Pool \<Rightarrow> bool"
  assumes select_backends: "wf p \<Longrightarrow> backends (snd (select p)) = backends p"
    and select_strategy: "wf p \<Longrightarrow> strategy (snd (select p)) = strategy p"
    and select_wf: "wf p \<Longrightarrow> wf (snd (select p))"
    and select_Some: "wf p \<Longrightarrow> fst (select p) = Some i \<Longrightarrow> i < length (backends p) \<and> healthy_at p i"
    and select_None: "wf p \<Longrightarrow> fst (select p) = None \<Longrightarrow> i < length (backends p) \<Longrightarrow> \<not> healthy_at p i"
    and wf_on_backend: "wf p \<Longrightarrow> wf (on_backend i f p)"
begin

lemma acquire_None: "wf p \<Longrightarrow> fst (acquire_with select p) = None \<longleftrightarrow> \<not> some_healthy p"
  using select_Some select_None by (fastforce simp: acquire_with_def split: prod.splits option.splits)

lemma acquire_Some: "wf p \<Longrightarrow> fst (acquire_with select p) = Some i \<Longrightarrow> i < length (backends p) \<and> healthy_at p i"
  using select_Some by (fastforce simp: acquire_with_def split: prod.splits option.splits)

lemma acquire_backends:
  assumes "wf p"
  shows "backends (snd (acquire_with select p)) =
    (case fst (acquire_with select p) of
       None \<Rightarrow> backends p
     | Some i \<Rightarrow> (backends p)[i := Backend_Acquire (backends p ! i)])"
proof (cases "select p")
  case (Pair r q)
  then show ?thesis using select_backends [OF assms]
    by (auto simp: acquire_with_def on_backend_def split: option.splits)
qed

lemma acquire_wf: "wf p \<Longrightarrow> wf (snd (acquire_with select p))"
  using select_wf [of p] wf_on_backend by (auto simp: acquire_with_def split: prod.splits option.splits)

lemma acquire_strategy: "wf p \<Longrightarrow> strategy (snd (acquire_with select p)) = strategy p"
  using select_strategy [of p] by (auto simp: acquire_with_def split: prod.splits option.splits)

end

interpretation rr: backend_selector nextRoundRobin pool_wf
proof unfold_locales
  fix p i assume wf: "pool_wf p"
  note eq = nextRoundRobin_eq [OF wf]
  show "backends (snd (nextRoundRobin p)) = backends p" "strategy (snd (nextRoundRobin p)) = strategy p"
    by (simp_all add: eq split: list.splits)
  show "pool_wf (snd (nextRoundRobin p))"
    using rr_order_step(2) [OF wf] wf by (simp add: eq del: of_nat_Suc split: list.splits)
  show "fst (nextRoundRobin p) = Some i \<Longrightarrow> i < length (backends p) \<and> healthy_at p i"
    using set_rr_order [of p] by (auto simp: eq split: list.splits)
  show "fst (nextRoundRobin p) = None \<Longrightarrow> i < length (backends p) \<Longrightarrow> \<not> healthy_at p i"
    using set_rr_order [of p] by (auto simp: eq split: list.splits)
qed simp

interpretation lc: backend_selector nextLeastConnections pool_wf
proof unfold_locales
  fix p i
  have best: "lc_best (backends p) (length (backends p)) (fst (nextLeastConnections p))"
    by (simp add: nextLeastConnections_def leastConnections_loop_best)
  show "fst (nextLeastConnections p) = Some i \<Longrightarrow> i < length (backends p) \<and> healthy_at p i"
    "fst (nextLeastConnections p) = None \<Longrightarrow> i < length (backends p) \<Longrightarrow> \<not> healthy_at p i"
    using best by (simp_all add: lc_best_def)
qed (simp_all add: nextLeastConnections_def)

lemma Pool_Acquire_cases:
  assumes "pool_wf p"
  shows "Pool_Acquire p = acquire_with nextRoundRobin p \<and> strategy p = RoundRobin
    \<or> Pool_Acquire p = acquire_with nextLeastConnections p \<and> strategy p = LeastConnections"
  using assms by (auto simp: Pool_Acquire_def pool_wf_def)

lemma Pool_Acquire_contract:
  assumes "pool_wf p"
  shows "fst (Pool_Acquire p) = None \<longleftrightarrow> \<not> some_healthy p"
    and "fst (Pool_Acquire p) = Some i \<Longrightarrow> i < length (backends p) \<and> healthy_at p i"
    and "backends (snd (Pool_Acquire p)) =
      (case fst (Pool_Acquire p) of
         None \<Rightarrow> backends p
       | Some i \<Rightarrow> (backends p)[i := Backend_Acquire (backends p ! i)])"
    and "pool_wf (snd (Pool_Acquire p))" and "strategy (snd (Pool_Acquire p)) = strategy p"
  using Pool_Acquire_cases [OF assms]
    rr.acquire_None [OF assms] rr.acquire_Some [OF assms] rr.acquire_backends [OF assms]
    rr.acquire_wf [OF assms] rr.acquire_strategy [OF assms]
    lc.acquire_None [OF assms] lc.acquire_Some [OF assms] lc.acquire_backends [OF assms]
    lc.acquire_wf [OF assms] lc.acquire_strategy [OF assms]
  by (elim disjE conjE; simp)+

section \<open>Sequences of acquisitions\<close>

fun acquire_many :: "nat \<Rightarrow> Pool \<Rightarrow> nat option list \<times> Pool" where
  "acquire_many 0 p = ([], p)"
| "acquire_many (Suc m) p =
    (let (r, p) = Pool_Acquire p; (rs, p) = acquire_many m p in (r # rs, p))"

lemma healthy_after_acquire:
  assumes "pool_wf p"
  shows "map healthy (backends (snd (Pool_Acquire p))) = map healthy (backends p)"
  using Pool_Acquire_contract(2,3) [OF assms]
  by (auto simp: map_update Backend_Acquire_def list_update_same_conv split: option.splits)

lemma rr_order_cong: "map healthy (backends p) = map healthy (backends q) \<Longrightarrow> pool_next p = pool_next q \<Longrightarrow> rr_order p = rr_order q"
proof -
  assume eq: "map healthy (backends p) = map healthy (backends q)" and "pool_next p = pool_next q"
  then have ring: "rr_ring p = rr_ring q" unfolding rr_ring_def by (metis length_map)
  have len: "length (backends p) = length (backends q)" using eq by (metis length_map)
  have "healthy_at p i = healthy_at q i" if "i < length (backends p)" for i
    using that len arg_cong [OF eq, of "\<lambda>xs. xs ! i"] by simp
  then have "\<forall>i \<in> set (rr_ring p). healthy_at p i = healthy_at q i" by (auto simp: rr_ring_def)
  then show "rr_order p = rr_order q" unfolding rr_order_def ring [symmetric] by (metis filter_cong)
qed

lemma rr_acquire:
  assumes wf: "pool_wf p" and rr: "strategy p = RoundRobin"
  shows "fst (Pool_Acquire p) = (case rr_order p of [] \<Rightarrow> None | i # _ \<Rightarrow> Some i)"
    and "rr_order (snd (Pool_Acquire p)) = rotate1 (rr_order p)"
proof -
  have eq: "Pool_Acquire p = acquire_with nextRoundRobin p" using rr by (simp add: Pool_Acquire_def)
  show "fst (Pool_Acquire p) = (case rr_order p of [] \<Rightarrow> None | i # _ \<Rightarrow> Some i)"
    by (simp add: eq acquire_with_def nextRoundRobin_eq [OF wf] split: list.splits)
  show "rr_order (snd (Pool_Acquire p)) = rotate1 (rr_order p)"
  proof (cases "rr_order p")
    case Nil
    then show ?thesis by (simp add: eq acquire_with_def nextRoundRobin_eq [OF wf])
  next
    case (Cons i rest)
    have "rr_order (snd (Pool_Acquire p)) = rr_order (p\<lparr>pool_next := of_nat (Suc i)\<rparr>)"
    proof (rule rr_order_cong)
      show "map healthy (backends (snd (Pool_Acquire p))) = map healthy (backends (p\<lparr>pool_next := of_nat (Suc i)\<rparr>))"
        using healthy_after_acquire [OF wf] by simp
      show "pool_next (snd (Pool_Acquire p)) = pool_next (p\<lparr>pool_next := of_nat (Suc i)\<rparr>)"
        using Cons by (simp add: eq acquire_with_def nextRoundRobin_eq [OF wf])
    qed
    with rr_order_step(1) [OF wf Cons] Cons show ?thesis by simp
  qed
qed

lemma upt_Suc_shift: "map f [0..<Suc m] = f 0 # map (\<lambda>j. f (Suc j)) [0..<m]"
  by (simp add: upt_conv_Cons map_Suc_upt [symmetric] del: upt_Suc)

lemma rr_acquire_many:
  assumes "pool_wf p" "strategy p = RoundRobin" "rr_order p \<noteq> []"
  shows "fst (acquire_many m p) = map (\<lambda>j. Some (rr_order p ! (j mod length (rr_order p)))) [0..<m]"
  using assms
proof (induction m arbitrary: p)
  case (Suc m)
  let ?q = "snd (Pool_Acquire p)" and ?o = "rr_order p"
  note acq = rr_acquire [OF Suc.prems(1,2)]
  have k: "length ?o \<noteq> 0" using Suc.prems(3) by simp
  have "fst (acquire_many m ?q) = map (\<lambda>j. Some (rr_order ?q ! (j mod length (rr_order ?q)))) [0..<m]"
    using Suc.prems Pool_Acquire_contract(4,5) [OF Suc.prems(1)] acq(2) by (intro Suc.IH) simp_all
  also have "\<dots> = map (\<lambda>j. Some (?o ! (Suc j mod length ?o))) [0..<m]"
    using k by (intro map_cong) (simp_all add: acq(2) nth_rotate1 mod_Suc_eq)
  finally have "fst (acquire_many m ?q) = map (\<lambda>j. Some (?o ! (Suc j mod length ?o))) [0..<m]" .
  moreover have "fst (Pool_Acquire p) = Some (?o ! 0)"
    using acq(1) Suc.prems(3) by (cases "rr_order p") simp_all
  ultimately show ?case by (simp add: split_beta upt_Suc_shift del: upt_Suc)
qed simp

text \<open>Least connections keeps the load of the healthy backends level.\<close>

definition level :: "Pool \<Rightarrow> bool" where
  "level p = (\<forall>i < length (backends p). \<forall>j < length (backends p).
     healthy_at p i \<longrightarrow> healthy_at p j \<longrightarrow> active_at p i \<le> active_at p j + 1)"

lemma lc_acquire:
  assumes wf: "pool_wf p" and lc: "strategy p = LeastConnections"
  shows "lc_best (backends p) (length (backends p)) (fst (Pool_Acquire p))"
proof -
  have eq: "Pool_Acquire p = acquire_with nextLeastConnections p"
    using lc by (simp add: Pool_Acquire_def RoundRobin_def LeastConnections_def)
  have "fst (Pool_Acquire p) = leastConnections_loop (backends p) [0..<length (backends p)] None"
    by (simp add: eq acquire_with_def nextLeastConnections_def split: option.splits)
  then show ?thesis by (simp add: leastConnections_loop_best)
qed

lemma level_acquire:
  assumes wf: "pool_wf p" and lc: "strategy p = LeastConnections" and level: "level p"
    and bound: "\<forall>b \<in> set (backends p). 0 \<le> activeConnections b \<and> activeConnections b < maxInt64"
  shows "level (snd (Pool_Acquire p))"
proof (cases "fst (Pool_Acquire p)")
  case None
  then show ?thesis using level Pool_Acquire_contract(3) [OF wf] by (simp add: level_def)
next
  case (Some i)
  then have i: "i < length (backends p)" "healthy_at p i"
    and min: "\<forall>j < length (backends p). healthy_at p j \<longrightarrow> active_at p i \<le> active_at p j"
    using lc_acquire [OF wf lc] by (simp_all add: lc_best_def)
  have "0 \<le> active_at p i" "active_at p i < maxInt64" using bound nth_mem [OF i(1)] by blast+
  then have inc: "int64_add (active_at p i) 1 = active_at p i + 1"
    by (intro int64_add_exact) (simp_all add: minInt64_def)
  have bs: "backends (snd (Pool_Acquire p)) = (backends p)[i := Backend_Acquire (backends p ! i)]"
    using Pool_Acquire_contract(3) [OF wf] Some by simp
  have up: "active_at p j \<le> 2 + active_at p i" if "j < length (backends p)" "healthy_at p j" for j
    using level i that unfolding level_def by fastforce
  show ?thesis
    using level min i up unfolding level_def bs
    by (auto simp: nth_list_update Backend_Acquire_def inc)
qed

section \<open>Accounting of active requests\<close>

text \<open>
  A pool and the requests that hold one of its backends. A caller releases what it acquired, once;
  health checks change flags at any moment. \<open>acquired\<close> counts all acquisitions so far.
\<close>

record pool_sys =
  sys_pool :: Pool
  held :: "nat list"
  acquired :: nat

datatype pool_event =
    PoolAcquire
  | PoolRelease nat
  | PoolSetHealthy nat bool

fun pool_exec :: "pool_sys \<Rightarrow> pool_event \<Rightarrow> pool_sys" where
  "pool_exec s PoolAcquire =
    (case Pool_Acquire (sys_pool s) of
       (None, p) \<Rightarrow> s\<lparr>sys_pool := p\<rparr>
     | (Some i, p) \<Rightarrow> s\<lparr>sys_pool := p, held := held s @ [i], acquired := Suc (acquired s)\<rparr>)"
| "pool_exec s (PoolRelease k) =
    (if k < length (held s)
     then s\<lparr>sys_pool := on_backend (held s ! k) Backend_Release (sys_pool s),
             held := take k (held s) @ drop (Suc k) (held s)\<rparr>
     else s)"
| "pool_exec s (PoolSetHealthy i h) =
    (if i < length (backends (sys_pool s))
     then s\<lparr>sys_pool := on_backend i (Backend_SetHealthy h) (sys_pool s)\<rparr> else s)"

definition pool_inv :: "pool_sys \<Rightarrow> bool" where
  "pool_inv s =
    (pool_wf (sys_pool s) \<and> (\<forall>i \<in> set (held s). i < length (backends (sys_pool s))) \<and>
     length (held s) \<le> acquired s \<and>
     (\<forall>i < length (backends (sys_pool s)).
        active_at (sys_pool s) i = int (count (mset (held s)) i)))"

abbreviation pool_ok :: "pool_sys \<Rightarrow> bool" where
  "pool_ok s \<equiv> int (acquired s) < maxInt64"

lemma count_le_length: "count (mset xs) i \<le> length xs"
  by (metis count_le_replicate_mset_subset_eq count_mset length_filter_le length_replicate count_list_eq_length_filter)

lemma active_bound:
  assumes "pool_inv s" "pool_ok s" "i < length (backends (sys_pool s))"
  shows "0 \<le> active_at (sys_pool s) i" "active_at (sys_pool s) i < maxInt64"
  using assms count_le_length [of "held s" i] by (auto simp: pool_inv_def)

lemma pool_inv_acquire:
  assumes inv: "pool_inv s" and ok: "pool_ok s"
  shows "pool_inv (pool_exec s PoolAcquire)"
proof -
  let ?p = "sys_pool s"
  have wf: "pool_wf ?p" using inv by (simp add: pool_inv_def)
  note con = Pool_Acquire_contract [OF wf]
  obtain r q where acq: "Pool_Acquire ?p = (r, q)" by fastforce
  show ?thesis
  proof (cases r)
    case None
    with con(3,4) acq inv show ?thesis by (simp add: pool_inv_def)
  next
    case (Some i)
    with acq have i: "i < length (backends ?p)" using con(2) [of i] by simp
    have "int64_add (active_at ?p i) 1 = active_at ?p i + 1"
      using active_bound [OF inv ok i] by (intro int64_add_exact) (simp_all add: minInt64_def)
    with con(3,4) acq Some i inv show ?thesis
      by (auto simp: pool_inv_def nth_list_update Backend_Acquire_def)
  qed
qed

lemma remove_nth: "k < length xs \<Longrightarrow> mset xs = add_mset (xs ! k) (mset (take k xs @ drop (Suc k) xs))"
  by (metis id_take_nth_drop mset_append mset.simps(2) union_mset_add_mset_right)

lemma pool_inv_release:
  assumes inv: "pool_inv s" and ok: "pool_ok s"
  shows "pool_inv (pool_exec s (PoolRelease k))"
proof (cases "k < length (held s)")
  case True
  let ?p = "sys_pool s" and ?i = "held s ! k" and ?held = "take k (held s) @ drop (Suc k) (held s)"
  have i: "?i < length (backends ?p)" using inv True by (simp add: pool_inv_def)
  have m: "mset (held s) = add_mset ?i (mset ?held)" using True by (rule remove_nth)
  have act: "active_at ?p ?i = int (count (mset ?held) ?i) + 1"
    using inv i m by (simp add: pool_inv_def)
  have "int64_add (active_at ?p ?i) (- 1) = active_at ?p ?i + - 1"
    using active_bound [OF inv ok i] act by (intro int64_add_exact) (simp_all add: minInt64_def)
  then have rel: "activeConnections (Backend_Release (backends ?p ! ?i)) = int (count (mset ?held) ?i)"
    using act by (simp add: Backend_Release_def)
  have "set ?held \<subseteq> set (held s)" by (auto dest: in_set_takeD in_set_dropD)
  moreover have "length ?held \<le> length (held s)" by simp
  ultimately show ?thesis
    using True inv i rel m unfolding pool_inv_def by (auto simp del: mset_append)
qed (use inv in simp)

lemma pool_inv_health: "pool_inv s \<Longrightarrow> pool_inv (pool_exec s (PoolSetHealthy i h))"
  by (auto simp: pool_inv_def Backend_SetHealthy_def)

lemma acquired_mono: "acquired s \<le> acquired (pool_exec s e)"
  by (cases e) (auto split: prod.splits option.splits)

interpretation pool_machine: invariant_machine pool_exec pool_ok pool_inv
proof unfold_locales
  fix s e assume "pool_inv s" "pool_ok s"
  then show "pool_inv (pool_exec s e)"
    by (cases e) (simp_all only: pool_inv_acquire pool_inv_release pool_inv_health)
next
  fix s e show "pool_ok (pool_exec s e) \<Longrightarrow> pool_ok s" using acquired_mono [of s e] by linarith
qed

definition pool_start :: "Pool \<Rightarrow> pool_sys" where
  "pool_start p = \<lparr>sys_pool = p, held = [], acquired = 0\<rparr>"

lemma pool_inv_start:
  assumes "NewPoolWithStrategy urls s = Inr p" "length urls < 2 ^ 63"
  shows "pool_inv (pool_start p)"
proof -
  have "\<forall>i < length (backends p). active_at p i = 0"
    using assms(1) by (auto simp: NewPoolWithStrategy_def newBackends_eq split: if_splits)
  with pool_wf_New [OF assms] show ?thesis by (simp add: pool_inv_def pool_start_def)
qed

lemma roundRobin_loop_fixed:
  "strategy (snd (roundRobin_loop w ks p)) = strategy p"
  "length (backends (snd (roundRobin_loop w ks p))) = length (backends p)"
  by (induction ks) (simp_all add: Let_def)

lemma Pool_Acquire_fixed [simp]:
  "strategy (snd (Pool_Acquire p)) = strategy p"
  "length (backends (snd (Pool_Acquire p))) = length (backends p)"
proof -
  have "strategy (snd (acquire_with sel p)) = strategy p \<and>
      length (backends (snd (acquire_with sel p))) = length (backends p)"
    if "strategy (snd (sel p)) = strategy p" "length (backends (snd (sel p))) = length (backends p)" for sel
    using that by (auto simp: acquire_with_def split: prod.splits option.splits)
  then show "strategy (snd (Pool_Acquire p)) = strategy p"
    and "length (backends (snd (Pool_Acquire p))) = length (backends p)"
    by (simp_all add: Pool_Acquire_def nextRoundRobin_def nextLeastConnections_def roundRobin_loop_fixed)
qed

lemma pool_exec_fixed:
  "strategy (sys_pool (pool_exec s e)) = strategy (sys_pool s)"
  "length (backends (sys_pool (pool_exec s e))) = length (backends (sys_pool s))"
proof -
  obtain r p where "Pool_Acquire (sys_pool s) = (r, p)" by fastforce
  with Pool_Acquire_fixed [of "sys_pool s"]
  show "strategy (sys_pool (pool_exec s e)) = strategy (sys_pool s)"
    and "length (backends (sys_pool (pool_exec s e))) = length (backends (sys_pool s))"
    by (cases e; auto split: option.splits)+
qed

lemma pool_run_fixed:
  "strategy (sys_pool (foldl pool_exec s es)) = strategy (sys_pool s)"
  "length (backends (sys_pool (foldl pool_exec s es))) = length (backends (sys_pool s))"
  by (induction es arbitrary: s) (simp_all add: pool_exec_fixed)

lemma reachable_pool:
  assumes "NewPoolWithStrategy urls strat = Inr p0" "length urls < 2 ^ 63"
    and "s = foldl pool_exec (pool_start p0) es" "int (acquired s) < maxInt64"
  shows "pool_inv s" and "pool_wf (sys_pool s)" and "strategy (sys_pool s) = strat"
    and "length (backends (sys_pool s)) = length urls"
proof -
  show inv: "pool_inv s"
    using pool_machine.run_inv [OF pool_inv_start [OF assms(1,2)], of es] assms(3,4) by simp
  then show "pool_wf (sys_pool s)" by (simp add: pool_inv_def)
  have "strategy p0 = strat" "length (backends p0) = length urls"
    using assms(1) by (auto simp: NewPoolWithStrategy_def newBackends_eq split: if_splits)
  then show "strategy (sys_pool s) = strat" "length (backends (sys_pool s)) = length urls"
    by (simp_all add: assms(3) pool_run_fixed pool_start_def)
qed

section \<open>The compare-and-swap loop of Release\<close>

text \<open>
  Goroutines run \<^verbatim>\<open>Release\<close> on one backend's counter, interleaved with each other and with
  \<^verbatim>\<open>Acquire\<close>: each is about to load the counter, about to compare and swap with the value it has
  loaded, or done, having decremented or not.
\<close>

datatype release_pc = RelLoad | RelCas int | RelDone bool

record cas_sys =
  counter :: int
  threads :: "release_pc list"
  acquires :: nat

inductive cas_step :: "cas_sys \<Rightarrow> cas_sys \<Rightarrow> bool" where
  cas_acquire: "cas_step s (s\<lparr>counter := int64_add (counter s) 1, acquires := Suc (acquires s)\<rparr>)"
| cas_call: "cas_step s (s\<lparr>threads := threads s @ [RelLoad]\<rparr>)"
| cas_load_zero:
    "i < length (threads s) \<Longrightarrow> threads s ! i = RelLoad \<Longrightarrow> counter s = 0
     \<Longrightarrow> cas_step s (s\<lparr>threads := (threads s)[i := RelDone False]\<rparr>)"
| cas_load:
    "i < length (threads s) \<Longrightarrow> threads s ! i = RelLoad \<Longrightarrow> counter s \<noteq> 0
     \<Longrightarrow> cas_step s (s\<lparr>threads := (threads s)[i := RelCas (counter s)]\<rparr>)"
| cas_swap:
    "i < length (threads s) \<Longrightarrow> threads s ! i = RelCas v \<Longrightarrow> counter s = v
     \<Longrightarrow> cas_step s (s\<lparr>counter := int64_add v (- 1), threads := (threads s)[i := RelDone True]\<rparr>)"
| cas_retry:
    "i < length (threads s) \<Longrightarrow> threads s ! i = RelCas v \<Longrightarrow> counter s \<noteq> v
     \<Longrightarrow> cas_step s (s\<lparr>threads := (threads s)[i := RelLoad]\<rparr>)"

inductive cas_reachable :: "cas_sys \<Rightarrow> bool" where
  cas_init: "cas_reachable \<lparr>counter = 0, threads = [], acquires = 0\<rparr>"
| cas_next: "cas_reachable s \<Longrightarrow> cas_step s s' \<Longrightarrow> cas_reachable s'"

definition rel_finished :: "release_pc \<Rightarrow> bool" where
  "rel_finished pc = (case pc of RelDone _ \<Rightarrow> True | _ \<Rightarrow> False)"

definition finished :: "cas_sys \<Rightarrow> nat" where
  "finished s = length (filter rel_finished (threads s))"

definition decremented :: "cas_sys \<Rightarrow> nat" where
  "decremented s = length (filter (\<lambda>pc. pc = RelDone True) (threads s))"

definition cas_inv :: "cas_sys \<Rightarrow> bool" where
  "cas_inv s =
    (counter s = int (acquires s) - int (decremented s) \<and> 0 \<le> counter s \<and>
     (\<forall>pc \<in> set (threads s). \<forall>v. pc = RelCas v \<longrightarrow> v \<noteq> 0))"

inductive_simps cas_step_iff: "cas_step s s'"

lemma decremented_update:
  "i < length ts \<Longrightarrow> ts ! i \<noteq> RelDone True \<Longrightarrow>
    length (filter (\<lambda>pc. pc = RelDone True) (ts[i := pc])) =
    length (filter (\<lambda>pc. pc = RelDone True) ts) + (if pc = RelDone True then 1 else 0)"
  using filter_count_update [of i ts "\<lambda>pc. pc = RelDone True" pc] by simp

lemma finished_update:
  "i < length ts \<Longrightarrow> \<not> rel_finished (ts ! i) \<Longrightarrow>
    length (filter rel_finished (ts[i := pc])) =
    length (filter rel_finished ts) + (if rel_finished pc then 1 else 0)"
  using filter_count_update [of i ts rel_finished pc] by simp

lemma cas_threads_update:
  "\<forall>pc \<in> set ts. \<forall>v. pc = RelCas v \<longrightarrow> v \<noteq> (0::int) \<Longrightarrow> \<forall>v. pc = RelCas v \<longrightarrow> v \<noteq> 0
    \<Longrightarrow> \<forall>pc \<in> set (ts[i := pc]). \<forall>v. pc = RelCas v \<longrightarrow> v \<noteq> 0"
  by (rule ball_list_update)

lemma cas_inv_step:
  assumes "cas_step s s'" "cas_inv s" "int (acquires s) < maxInt64"
  shows "cas_inv s'"
  using assms
proof (induction rule: cas_step.induct)
  case (cas_acquire s)
  then have "int64_add (counter s) 1 = counter s + 1"
    by (intro int64_add_exact) (auto simp: cas_inv_def minInt64_def)
  with cas_acquire show ?case by (simp add: cas_inv_def decremented_def)
next
  case (cas_swap i s v)
  then have v: "0 < v" "v < maxInt64" using nth_mem [of i "threads s"] by (force simp: cas_inv_def)+
  then have "int64_add v (- 1) = v + - 1" by (intro int64_add_exact) (auto simp: minInt64_def)
  with cas_swap v show ?case
    using cas_threads_update [of "threads s" "RelDone True" i]
    by (simp add: cas_inv_def decremented_def decremented_update)
next
  case (cas_load_zero i s)
  then show ?case using cas_threads_update [of "threads s" "RelDone False" i]
    by (simp add: cas_inv_def decremented_def decremented_update)
next
  case (cas_load i s)
  then show ?case using cas_threads_update [of "threads s" "RelCas (counter s)" i]
    by (simp add: cas_inv_def decremented_def decremented_update)
next
  case (cas_retry i s v)
  then show ?case using cas_threads_update [of "threads s" RelLoad i]
    by (simp add: cas_inv_def decremented_def decremented_update)
qed (simp add: cas_inv_def decremented_def)

lemma acquires_mono: "cas_step s s' \<Longrightarrow> acquires s \<le> acquires s'"
  by (induction rule: cas_step.induct) simp_all

lemma cas_reachable_inv: "cas_reachable s \<Longrightarrow> int (acquires s) < maxInt64 \<Longrightarrow> cas_inv s"
proof (induction rule: cas_reachable.induct)
  case (cas_next s s')
  then show ?case using acquires_mono [of s s'] cas_inv_step [of s s'] by fastforce
qed (simp add: cas_inv_def decremented_def)

text \<open>One goroutine running its next step.\<close>

definition cas_thread :: "nat \<Rightarrow> cas_sys \<Rightarrow> cas_sys" where
  "cas_thread i s =
    (case threads s ! i of
       RelLoad \<Rightarrow>
         if counter s = 0 then s\<lparr>threads := (threads s)[i := RelDone False]\<rparr>
         else s\<lparr>threads := (threads s)[i := RelCas (counter s)]\<rparr>
     | RelCas v \<Rightarrow>
         if counter s = v then s\<lparr>counter := int64_add v (- 1), threads := (threads s)[i := RelDone True]\<rparr>
         else s\<lparr>threads := (threads s)[i := RelLoad]\<rparr>
     | RelDone _ \<Rightarrow> s)"

lemma cas_thread_step: "i < length (threads s) \<Longrightarrow> cas_thread i s = s \<or> cas_step s (cas_thread i s)"
  by (cases "threads s ! i") (auto simp: cas_thread_def intro: cas_step.intros)

lemma cas_thread_length [simp]: "length (threads (cas_thread i s)) = length (threads s)"
  by (simp add: cas_thread_def split: release_pc.splits)

text \<open>Schedules: acquisitions, calls of \<^verbatim>\<open>Release\<close> and steps of the goroutines that run one, in any order.\<close>

datatype cas_event = CasAcquire | CasCall | CasRun nat

fun cas_exec :: "cas_sys \<Rightarrow> cas_event \<Rightarrow> cas_sys" where
  "cas_exec s CasAcquire = s\<lparr>counter := int64_add (counter s) 1, acquires := Suc (acquires s)\<rparr>"
| "cas_exec s CasCall = s\<lparr>threads := threads s @ [RelLoad]\<rparr>"
| "cas_exec s (CasRun i) = (if i < length (threads s) then cas_thread i s else s)"

lemma cas_exec_step: "cas_exec s e = s \<or> cas_step s (cas_exec s e)"
  by (cases e) (auto intro: cas_step.intros dest: cas_thread_step)

lemma cas_run_reachable: "cas_reachable s \<Longrightarrow> cas_reachable (foldl cas_exec s es)"
proof (induction es arbitrary: s)
  case (Cons e es)
  then show ?case using cas_exec_step [of s e] by (auto intro: cas_next)
qed simp

text \<open>How often the others change the counter while goroutine \<open>i\<close> runs.\<close>

fun disturbances :: "nat \<Rightarrow> cas_sys \<Rightarrow> cas_event list \<Rightarrow> nat" where
  "disturbances i s [] = 0"
| "disturbances i s (e # es) =
    (if e \<noteq> CasRun i \<and> counter (cas_exec s e) \<noteq> counter s then 1 else 0) + disturbances i (cas_exec s e) es"

text \<open>The steps a goroutine still needs if nobody changes the counter.\<close>

definition cas_distance :: "nat \<Rightarrow> cas_sys \<Rightarrow> nat" where
  "cas_distance i s =
    (case threads s ! i of RelDone _ \<Rightarrow> 0 | RelLoad \<Rightarrow> 2 | RelCas v \<Rightarrow> if v = counter s then 1 else 3)"

lemma cas_distance_0: "cas_distance i s = 0 \<longleftrightarrow> rel_finished (threads s ! i)"
  by (simp add: cas_distance_def rel_finished_def split: release_pc.splits)

lemma cas_distance_own: "i < length (threads s) \<Longrightarrow> cas_distance i (cas_exec s (CasRun i)) \<le> cas_distance i s - 1"
  by (cases "threads s ! i") (simp_all add: cas_distance_def cas_thread_def)

lemma cas_distance_other:
  assumes "i < length (threads s)" "e \<noteq> CasRun i"
  shows "i < length (threads (cas_exec s e)) \<and> threads (cas_exec s e) ! i = threads s ! i"
  using assms by (cases e) (auto simp: nth_append cas_thread_def split: release_pc.splits)

lemma cas_distance_disturbed:
  assumes "i < length (threads s)" "e \<noteq> CasRun i"
  shows "cas_distance i (cas_exec s e) \<le> cas_distance i s + (if counter (cas_exec s e) \<noteq> counter s then 2 else 0)"
  using cas_distance_other [OF assms] by (auto simp: cas_distance_def split: release_pc.splits)

lemma cas_finished_stays:
  "i < length (threads s) \<Longrightarrow> cas_distance i s = 0 \<Longrightarrow> cas_distance i (foldl cas_exec s es) = 0"
proof (induction es arbitrary: s)
  case (Cons e es)
  have "i < length (threads (cas_exec s e)) \<and> cas_distance i (cas_exec s e) = 0"
  proof (cases "e = CasRun i")
    case True
    then show ?thesis using Cons.prems cas_distance_own [OF Cons.prems(1)] by simp
  next
    case False
    then show ?thesis using Cons.prems(2) cas_distance_other [OF Cons.prems(1) False] by (simp add: cas_distance_0)
  qed
  then show ?case using Cons.IH by simp
qed simp

lemma cas_finishes:
  assumes "i < length (threads s)" "cas_distance i s + 2 * disturbances i s es \<le> count_list es (CasRun i)"
  shows "cas_distance i (foldl cas_exec s es) = 0"
  using assms
proof (induction es arbitrary: s)
  case (Cons e es)
  show ?case
  proof (cases "e = CasRun i")
    case True
    show ?thesis
    proof (cases "cas_distance i s = 0")
      case True
      then show ?thesis using cas_finished_stays Cons.prems(1) by blast
    next
      case False
      then show ?thesis
        using Cons.IH [of "cas_exec s e"] Cons.prems cas_distance_own [OF Cons.prems(1)] \<open>e = CasRun i\<close> by simp
    qed
  next
    case False
    then show ?thesis
      using Cons.IH [of "cas_exec s e"] Cons.prems cas_distance_other [OF Cons.prems(1) False]
        cas_distance_disturbed [OF Cons.prems(1) False] by (simp split: if_splits)
  qed
qed simp

section \<open>Health checks set every flag from its own probe\<close>

definition probe_ok :: "HealthChecker \<Rightarrow> ProbeWorld \<Rightarrow> string \<Rightarrow> bool" where
  "probe_ok h w u =
    (\<exists>checkURL status. resolve_url w u (path h) = Some checkURL \<and> request_ok w checkURL \<and>
       exchange w checkURL (timeout h) = ProbeResponse status True \<and> 200 \<le> status \<and> status < 400)"

lemma checkBackend_eq: "checkBackend h w b = b\<lparr>healthy := probe_ok h w (url b)\<rparr>"
  by (auto simp: checkBackend_def probe_ok_def Backend_SetHealthy_def Backend_URL_def healthCheckURL_def
      split: option.splits ProbeResult.splits)

lemma Check_Cons:
  "HealthChecker_Check h w (i # order) p = HealthChecker_Check h w order (on_backend i (checkBackend h (w i)) p)"
  by (simp add: HealthChecker_Check_def)

lemma Check_backends:
  assumes "distinct order" "\<forall>i \<in> set order. i < length (backends p)" "j < length (backends p)"
  shows "backends (HealthChecker_Check h w order p) ! j =
    (if j \<in> set order then checkBackend h (w j) (backends p ! j) else backends p ! j)"
  using assms
proof (induction order arbitrary: p)
  case (Cons i order)
  then show ?case
    using Cons.IH [of "on_backend i (checkBackend h (w i)) p"] by (auto simp: Check_Cons)
qed (simp add: HealthChecker_Check_def)

lemma Check_fields [simp]:
  "length (backends (HealthChecker_Check h w order p)) = length (backends p)"
  "strategy (HealthChecker_Check h w order p) = strategy p"
  "pool_next (HealthChecker_Check h w order p) = pool_next p"
  by (induction order arbitrary: p) (simp_all add: HealthChecker_Check_def)

lemma level_acquire_many:
  assumes "pool_inv s" "int (acquired s + k) < maxInt64" "level (sys_pool s)" "strategy (sys_pool s) = LeastConnections"
  shows "level (snd (acquire_many k (sys_pool s)))"
    and "map healthy (backends (snd (acquire_many k (sys_pool s)))) = map healthy (backends (sys_pool s))"
proof -
  have "level (snd (acquire_many k (sys_pool s))) \<and>
      map healthy (backends (snd (acquire_many k (sys_pool s)))) = map healthy (backends (sys_pool s))"
    using assms
proof (induction k arbitrary: s)
    case (Suc k)
    let ?s = "pool_exec s PoolAcquire"
    have ok: "pool_ok s" and wf: "pool_wf (sys_pool s)" using Suc.prems(1,2) by (simp_all add: pool_inv_def)
    have sp: "sys_pool ?s = snd (Pool_Acquire (sys_pool s))" by (auto split: prod.splits option.splits)
    have "\<forall>b \<in> set (backends (sys_pool s)). 0 \<le> activeConnections b \<and> activeConnections b < maxInt64"
      using active_bound [OF Suc.prems(1) ok] by (auto simp: in_set_conv_nth)
    then have "level (sys_pool ?s)" unfolding sp using level_acquire wf Suc.prems(3,4) by blast
    moreover have "acquired ?s \<le> Suc (acquired s)" by (auto split: prod.splits option.splits)
    moreover have "pool_inv ?s" using pool_inv_acquire [OF Suc.prems(1) ok] .
    ultimately show ?case
      using Suc.IH [of ?s] Suc.prems(2,4) healthy_after_acquire [OF wf] unfolding sp by (simp add: split_beta)
  qed simp
  then show "level (snd (acquire_many k (sys_pool s)))"
    and "map healthy (backends (snd (acquire_many k (sys_pool s)))) = map healthy (backends (sys_pool s))"
    by blast+
qed

section \<open>Properties\<close>

text \<open>C9 (functional). Round robin is a fair rotation, the wrap-around of its cursor included: from
  every reachable pool, while health does not change, successive acquisitions go through the
  healthy backends cyclically in one fixed order, so each of \<open>k\<close> healthy backends is used exactly
  once in every \<open>k\<close> consecutive acquisitions; with none, every acquisition fails.\<close>

theorem round_robin_rotation:
  assumes "NewPoolWithStrategy urls RoundRobin = Inr p0" "length urls < 2 ^ 63"
    and "s = foldl pool_exec (pool_start p0) es" "int (acquired s) < maxInt64"
  shows "\<exists>order. distinct order
    \<and> set order = {i. i < length (backends (sys_pool s)) \<and> healthy_at (sys_pool s) i}
    \<and> fst (acquire_many m (sys_pool s)) =
      (if order = [] then replicate m None
       else map (\<lambda>j. Some (order ! (j mod length order))) [0..<m])"
proof -
  let ?p = "sys_pool s"
  note wf = reachable_pool(2) [OF assms] and rr = reachable_pool(3) [OF assms]
  have "fst (acquire_many m q) = replicate m None" if "rr_order q = []" "pool_wf q" "strategy q = RoundRobin" for q m
    using that
  proof (induction m arbitrary: q)
    case (Suc m)
    show ?case
      using Suc.IH [of "snd (Pool_Acquire q)"] Suc.prems rr_acquire [OF Suc.prems(2,3)]
        Pool_Acquire_contract(4,5) [OF Suc.prems(2)] by (simp add: split_beta)
  qed simp
  with rr_acquire_many [OF wf rr, of m] rr wf
  show ?thesis using distinct_rr_order [of ?p] set_rr_order [of ?p] by (intro exI [of _ "rr_order ?p"]) auto
qed

text \<open>Acquiring a backend, under either strategy and in every reachable pool: it fails
  exactly when every backend is unhealthy; otherwise it returns a healthy backend, counts one more
  active request on that backend, and changes no other backend.\<close>

theorem pool_acquire_outcome:
  assumes "NewPoolWithStrategy urls strat = Inr p0" "length urls < 2 ^ 63"
    and "s = foldl pool_exec (pool_start p0) es" "int (acquired s) < maxInt64"
    and "p = sys_pool s" and "Pool_Acquire p = (r, q)"
  shows "case r of
      None \<Rightarrow> (\<forall>b \<in> set (backends p). \<not> healthy b) \<and> backends q = backends p
    | Some i \<Rightarrow> i < length (backends p) \<and> healthy_at p i \<and> active_at q i = active_at p i + 1
        \<and> url (backends q ! i) = url (backends p ! i) \<and> healthy_at q i
        \<and> (\<forall>j < length (backends p). j \<noteq> i \<longrightarrow> backends q ! j = backends p ! j)"
proof -
  note inv = reachable_pool(1) [OF assms(1-4)] and wf = reachable_pool(2) [OF assms(1-4), folded assms(5)]
  note con = Pool_Acquire_contract [OF wf]
  show ?thesis
  proof (cases r)
    case None
    then show ?thesis using con(1,3) assms(6) by (auto simp: in_set_conv_nth)
  next
    case (Some i)
    then have i: "i < length (backends p)" "healthy_at p i" using con(2) assms(6) by simp_all
    have "int64_add (active_at p i) 1 = active_at p i + 1"
      using active_bound [OF inv assms(4), folded assms(5), OF i(1)]
      by (intro int64_add_exact) (simp_all add: minInt64_def)
    with Some i con(3) assms(6) show ?thesis by (simp add: Backend_Acquire_def)
  qed
qed

text \<open>Active-request accounting: after any interleaving of acquisitions, releases of
  acquired backends and health changes, each backend's counter is the number of requests that hold
  it, hence never negative.\<close>

theorem active_requests_accounted:
  assumes "NewPoolWithStrategy urls strat = Inr p0" "length urls < 2 ^ 63"
    and "s = foldl pool_exec (pool_start p0) es" "int (acquired s) < maxInt64"
    and "i < length urls"
  shows "active_at (sys_pool s) i = int (count (mset (held s)) i)"
  using reachable_pool(1,4) [OF assms(1-4)] assms(5) by (simp add: pool_inv_def)

text \<open>Least connections picks a healthy backend with the fewest active requests, the
  first such one in configuration order.\<close>

theorem least_connections_choice:
  assumes "NewPoolWithStrategy urls LeastConnections = Inr p0" "length urls < 2 ^ 63"
    and "s = foldl pool_exec (pool_start p0) es" "int (acquired s) < maxInt64"
    and "p = sys_pool s" "fst (Pool_Acquire p) = Some i"
  shows "i < length urls \<and> healthy_at p i
    \<and> (\<forall>j < length urls. healthy_at p j \<longrightarrow> active_at p i \<le> active_at p j)
    \<and> (\<forall>j < i. healthy_at p j \<longrightarrow> active_at p i < active_at p j)"
  using lc_acquire [OF reachable_pool(2,3) [OF assms(1-4)]] reachable_pool(4) [OF assms(1-4)] assms(5,6)
  by (simp add: lc_best_def)

text \<open>C37 (invariant). Least connections spreads load evenly: while no request completes, the active
  counts of any two backends of a new pool differ by at most one after any number of
  acquisitions.\<close>

theorem least_connections_level:
  assumes "NewPoolWithStrategy urls LeastConnections = Inr p0" "length urls < 2 ^ 63"
    and "int m < maxInt64" "i < length urls" "j < length urls"
  shows "\<bar>active_at (snd (acquire_many m p0)) i - active_at (snd (acquire_many m p0)) j\<bar> \<le> 1"
proof -
  have new: "level p0 \<and> strategy p0 = LeastConnections \<and> map healthy (backends p0) = replicate (length urls) True"
    using assms(1) by (auto simp: NewPoolWithStrategy_def newBackends_eq level_def comp_def map_replicate_const split: if_splits)
  let ?p = "snd (acquire_many m p0)"
  have fin: "level ?p" "map healthy (backends ?p) = replicate (length urls) True"
    using level_acquire_many [OF pool_inv_start [OF assms(1,2)], of m] assms(3) new by (simp_all add: pool_start_def)
  have len: "length (backends ?p) = length urls" using arg_cong [OF fin(2), of length] by simp
  have "healthy_at ?p k" if "k < length urls" for k
    using that len fin(2) nth_map [of k "backends ?p" healthy] by simp
  then have "active_at ?p i \<le> active_at ?p j + 1" "active_at ?p j \<le> active_at ?p i + 1"
    using fin(1) [unfolded level_def, rule_format, of i j] fin(1) [unfolded level_def, rule_format, of j i]
      assms(4,5) len by simp_all
  then show ?thesis by linarith
qed

text \<open>C22 (refinement). The lock-free \<^verbatim>\<open>Release\<close> is linearizable: in every interleaving of goroutines
  running its compare-and-swap loop and acquisitions, each step either leaves the counter as it is,
  or is an acquisition, or completes exactly one \<^verbatim>\<open>Release\<close> with exactly the effect of the atomic
  operation on the current counter; and the counter is never negative.\<close>

theorem release_linearizable:
  assumes "cas_reachable s" "cas_step s s'" "int (acquires s) < maxInt64" "activeConnections b = counter s"
  shows "0 \<le> counter s
    \<and> (acquires s' = acquires s \<and> finished s' = finished s \<and> counter s' = counter s
     \<or> acquires s' = Suc (acquires s) \<and> finished s' = finished s
       \<and> counter s' = activeConnections (Backend_Acquire b)
     \<or> acquires s' = acquires s \<and> finished s' = Suc (finished s)
       \<and> counter s' = activeConnections (Backend_Release b))"
proof
  have inv: "cas_inv s" using assms(1,3) by (rule cas_reachable_inv)
  then show "0 \<le> counter s" by (simp add: cas_inv_def)
  have pos: "v \<noteq> 0" if "i < length (threads s)" "threads s ! i = RelCas v" for i v
    using inv nth_mem [OF that(1)] that(2) by (auto simp: cas_inv_def)
  show "acquires s' = acquires s \<and> finished s' = finished s \<and> counter s' = counter s
     \<or> acquires s' = Suc (acquires s) \<and> finished s' = finished s
       \<and> counter s' = activeConnections (Backend_Acquire b)
     \<or> acquires s' = acquires s \<and> finished s' = Suc (finished s)
       \<and> counter s' = activeConnections (Backend_Release b)"
    using assms(2,4) pos
    by (induction rule: cas_step.induct)
      (auto simp: finished_def finished_update rel_finished_def Backend_Acquire_def Backend_Release_def)
qed

text \<open>C0 (termination). The compare-and-swap loop of \<^verbatim>\<open>Release\<close> ends. It repeats only when another goroutine has
  changed the counter between its load and its swap: from any point of the loop, and in any interleaving with
  acquisitions and other releases, a goroutine has returned once it has taken three steps and two more for every change the others made to the
  counter in the meantime. A goroutine that is left alone returns within three steps.\<close>

theorem release_terminates:
  assumes "i < length (threads s)" "3 + 2 * disturbances i s es \<le> count_list es (CasRun i)"
  shows "rel_finished (threads (foldl cas_exec s es) ! i)"
proof -
  have "cas_distance i s \<le> 3" by (simp add: cas_distance_def split: release_pc.splits)
  then show ?thesis using cas_finishes [OF assms(1)] assms(2) by (simp add: cas_distance_0 [symmetric])
qed

text \<open>C38 (functional). A health check sets every backend's flag from its own probe and nothing else:
  whatever the order in which the concurrent probes finish, a backend is healthy afterwards exactly
  when its URL resolved, the request was made and answered in time with a status from 200 to 399,
  and the body closed cleanly.\<close>

theorem health_check_outcome:
  assumes "mset order = mset [0..<length (backends p)]" "i < length (backends p)"
  shows "backends (HealthChecker_Check h w order p) ! i =
    (backends p ! i)\<lparr>healthy :=
      \<exists>checkURL status. resolve_url (w i) (url (backends p ! i)) (path h) = Some checkURL
        \<and> request_ok (w i) checkURL
        \<and> exchange (w i) checkURL (timeout h) = ProbeResponse status True
        \<and> 200 \<le> status \<and> status < 400\<rparr>"
proof -
  have "distinct order" "set order = {0..<length (backends p)}"
    using assms(1) mset_eq_imp_distinct_iff [OF assms(1)] mset_eq_setD [OF assms(1)] by simp_all
  then show ?thesis
    using Check_backends [of order p i h w] assms(2)
    by (simp add: checkBackend_eq probe_ok_def)
qed

text \<open>Which pools can be built: the first of no backends, an unknown strategy and a blank
  URL is the error; otherwise every backend starts healthy and idle.\<close>

theorem new_pool_outcome:
  "NewPoolWithStrategy urls strat =
    (if urls = [] then Inl ErrNoBackends
     else if strat \<notin> {RoundRobin, LeastConnections} then Inl ErrUnsupportedStrategy
     else if \<exists>u \<in> set urls. TrimSpace u = [] then Inl ErrEmptyBackendURL
     else Inr \<lparr>backends = map (\<lambda>u. \<lparr>url = u, healthy = True, activeConnections = 0\<rparr>) urls,
               strategy = strat, pool_next = 0\<rparr>)"
  by (simp add: NewPoolWithStrategy_def newBackends_eq)

section \<open>Concrete runs\<close>

definition sample_urls :: "string list" where
  "sample_urls = [''http://a'', ''http://b'', ''http://c'']"

definition sample_pool :: "string \<Rightarrow> Pool" where
  "sample_pool strat =
    \<lparr>backends = map (\<lambda>u. \<lparr>url = u, healthy = True, activeConnections = 0\<rparr>) sample_urls,
     strategy = strat, pool_next = 0\<rparr>"

lemma sample_pool_facts:
  "NewPoolWithStrategy sample_urls RoundRobin = Inr (sample_pool RoundRobin)"
  "NewPoolWithStrategy sample_urls LeastConnections = Inr (sample_pool LeastConnections)"
  "length sample_urls < 2 ^ 63"
proof -
  have "TrimSpace u \<noteq> []" if "u \<in> set sample_urls" for u
    using that by (auto simp: sample_urls_def TrimSpace_keep visible_def)
  then show "NewPoolWithStrategy sample_urls RoundRobin = Inr (sample_pool RoundRobin)"
    "NewPoolWithStrategy sample_urls LeastConnections = Inr (sample_pool LeastConnections)"
    by (auto simp: NewPoolWithStrategy_def newBackends_eq sample_pool_def) (simp_all add: sample_urls_def)
  show "length sample_urls < 2 ^ 63" by (simp add: sample_urls_def)
qed

text \<open>Two acquisitions, the first released; then the second backend turns unhealthy.\<close>

definition sample_events :: "pool_event list" where
  "sample_events = [PoolAcquire, PoolAcquire, PoolRelease 0, PoolSetHealthy 1 False]"

definition sample_pool_sys :: "string \<Rightarrow> pool_sys" where
  "sample_pool_sys strat = foldl pool_exec (pool_start (sample_pool strat)) sample_events"

lemma sample_pool_sys_facts:
  "acquired (sample_pool_sys RoundRobin) = 2" "acquired (sample_pool_sys LeastConnections) = 2"
  "held (sample_pool_sys RoundRobin) = [1]"
  "fst (acquire_many 5 (sys_pool (sample_pool_sys RoundRobin))) = map Some [2, 0, 2, 0, 2]"
  "fst (Pool_Acquire (sys_pool (sample_pool_sys LeastConnections))) = Some 0"
  "Pool_Acquire (sys_pool (sample_pool_sys RoundRobin)) =
    (Some 2, snd (Pool_Acquire (sys_pool (sample_pool_sys RoundRobin))))"
  by code_simp+

lemma sample_acquired:
  "int (acquired (sample_pool_sys RoundRobin)) < maxInt64"
  "int (acquired (sample_pool_sys LeastConnections)) < maxInt64"
  using sample_pool_sys_facts by (simp_all add: maxInt64_def)

theorem round_robin_rotation_witness:
  "\<exists>order. distinct order
    \<and> set order = {i. i < length (backends (sys_pool (sample_pool_sys RoundRobin)))
        \<and> healthy_at (sys_pool (sample_pool_sys RoundRobin)) i}
    \<and> map Some [2, 0, 2, 0, 2] = (if order = [] then replicate 5 None
        else map (\<lambda>j. Some (order ! (j mod length order))) [0..<5])"
  using round_robin_rotation [OF sample_pool_facts(1,3) sample_pool_sys_def sample_acquired(1), of 5]
  unfolding sample_pool_sys_facts(4) .

theorem pool_acquire_outcome_witness:
  "healthy_at (sys_pool (sample_pool_sys RoundRobin)) 2
    \<and> active_at (snd (Pool_Acquire (sys_pool (sample_pool_sys RoundRobin)))) 2
      = active_at (sys_pool (sample_pool_sys RoundRobin)) 2 + 1"
  using pool_acquire_outcome [OF sample_pool_facts(1,3) sample_pool_sys_def sample_acquired(1) refl
      sample_pool_sys_facts(6)] by simp

theorem active_requests_accounted_witness:
  "active_at (sys_pool (sample_pool_sys RoundRobin)) 1 = 1"
  using active_requests_accounted [OF sample_pool_facts(1,3) sample_pool_sys_def sample_acquired(1), of 1]
  by (simp add: sample_urls_def sample_pool_sys_facts(3))

theorem least_connections_choice_witness:
  "healthy_at (sys_pool (sample_pool_sys LeastConnections)) 0
    \<and> active_at (sys_pool (sample_pool_sys LeastConnections)) 0
      \<le> active_at (sys_pool (sample_pool_sys LeastConnections)) 2"
proof -
  have "healthy_at (sys_pool (sample_pool_sys LeastConnections)) 2" by code_simp
  then show ?thesis
    using least_connections_choice [OF sample_pool_facts(2,3) sample_pool_sys_def sample_acquired(2) refl
        sample_pool_sys_facts(5)] by (simp add: sample_urls_def)
qed

theorem least_connections_level_witness:
  "\<bar>active_at (snd (acquire_many 7 (sample_pool LeastConnections))) 0
    - active_at (snd (acquire_many 7 (sample_pool LeastConnections))) 2\<bar> \<le> 1"
  using least_connections_level [OF sample_pool_facts(2,3), of 7 0 2]
  by (simp add: sample_urls_def maxInt64_def)

definition sample_cas :: cas_sys where
  "sample_cas = \<lparr>counter = 1, threads = [RelLoad], acquires = 1\<rparr>"

lemma sample_cas_reachable: "cas_reachable sample_cas"
proof -
  let ?s0 = "\<lparr>counter = 0, threads = [], acquires = 0\<rparr> :: cas_sys"
  let ?s1 = "\<lparr>counter = 1, threads = [], acquires = 1\<rparr> :: cas_sys"
  have "cas_step ?s0 ?s1" using cas_acquire [of ?s0] by (simp add: int64_add_def)
  moreover have "cas_step ?s1 sample_cas" using cas_call [of ?s1] by (simp add: sample_cas_def)
  ultimately show ?thesis using cas_init cas_next by blast
qed

theorem release_linearizable_witness:
  "0 \<le> counter sample_cas \<and> cas_step sample_cas (cas_thread 0 sample_cas)
    \<and> finished (cas_thread 0 sample_cas) = finished sample_cas"
proof -
  have step: "cas_step sample_cas (cas_thread 0 sample_cas)"
    using cas_load [of 0 sample_cas] by (simp add: sample_cas_def cas_thread_def)
  have "acquires (cas_thread 0 sample_cas) = acquires sample_cas"
    "counter (cas_thread 0 sample_cas) = 1" "counter sample_cas = 1"
    by (simp_all add: sample_cas_def cas_thread_def)
  with release_linearizable [OF sample_cas_reachable step, of "\<lparr>url = ''u'', healthy = True, activeConnections = 1\<rparr>"]
  show ?thesis using step
    by (auto simp: sample_cas_def maxInt64_def Backend_Release_def int64_add_def)
qed

text \<open>The second goroutine releases between the load and the swap of the first, and a request acquires.\<close>

definition sample_cas_two :: cas_sys where
  "sample_cas_two = \<lparr>counter = 2, threads = [RelLoad, RelLoad], acquires = 2\<rparr>"

definition sample_schedule :: "cas_event list" where
  "sample_schedule = [CasRun 0, CasRun 1, CasRun 1, CasRun 0, CasRun 0, CasAcquire, CasRun 0, CasRun 0, CasRun 0, CasRun 0]"

theorem release_terminates_witness:
  "disturbances 0 sample_cas_two sample_schedule = 2 \<and> count_list sample_schedule (CasRun 0) = 7
    \<and> rel_finished (threads (foldl cas_exec sample_cas_two sample_schedule) ! 0)
    \<and> \<not> rel_finished (threads (foldl cas_exec sample_cas_two (take 8 sample_schedule)) ! 0)"
proof -
  have "disturbances 0 sample_cas_two sample_schedule = 2" "count_list sample_schedule (CasRun 0) = 7"
    "0 < length (threads sample_cas_two)" "\<not> rel_finished (threads (foldl cas_exec sample_cas_two (take 8 sample_schedule)) ! 0)"
    by code_simp+
  with release_terminates [of 0 sample_cas_two sample_schedule] show ?thesis by simp
qed

definition sample_probe :: "nat \<Rightarrow> ProbeWorld" where
  "sample_probe i =
    \<lparr>resolve_url = (\<lambda>u p. Some (u @ p)), request_ok = (\<lambda>u. True),
     exchange = (\<lambda>u t. if i = 1 then ProbeFailed else ProbeResponse 204 True)\<rparr>"

theorem health_check_outcome_witness:
  "healthy_at (HealthChecker_Check \<lparr>interval = 1, timeout = 1, path = ''/healthz''\<rparr> sample_probe [2, 0, 1]
      (sample_pool RoundRobin)) 0
    \<and> \<not> healthy_at (HealthChecker_Check \<lparr>interval = 1, timeout = 1, path = ''/healthz''\<rparr> sample_probe [2, 0, 1]
      (sample_pool RoundRobin)) 1"
  using health_check_outcome [of "[2, 0, 1]" "sample_pool RoundRobin" 0 "\<lparr>interval = 1, timeout = 1, path = ''/healthz''\<rparr>" sample_probe]
    health_check_outcome [of "[2, 0, 1]" "sample_pool RoundRobin" 1 "\<lparr>interval = 1, timeout = 1, path = ''/healthz''\<rparr>" sample_probe]
  by (simp add: sample_pool_def sample_urls_def sample_probe_def upt_rec)

end
