(* ===== verification/Response_Cache.thy ===== *)
theory Response_Cache
  imports Prelude
begin

text \<open>
  The response cache, \<^verbatim>\<open>src/internal/cache/cache.go\<close>: a map from keys to entries and a recency list,
  most recently used first, with a common time to live and lazy expiry.

  The recency list holds keys where the code holds element pointers: an entry knows its key and
  its element, and the invariant \<open>cache_wf\<close> is what makes the two the same. Every operation holds
  the cache's mutex and is one step; the clock reading is the argument \<open>now\<close>.

  Operations are generic in the stored response \<open>'r\<close>. The second half of the theory takes a response
  to be references into a heap of headers and bodies, where cloning allocates, to show that callers
  cannot reach what the cache holds.
\<close>

section \<open>Model\<close>

datatype CacheError = ErrInvalidTTL | ErrInvalidMaxEntries | errNilClock

record 'r entry =
  entry_key :: string
  response :: 'r
  expiresAt :: time

record 'r Cache =
  ttl :: duration
  maxEntries :: int
  entries :: "(string, 'r entry) gomap"
  recency :: "string list"

definition newWithClock :: "duration \<Rightarrow> int \<Rightarrow> bool \<Rightarrow> CacheError + 'r Cache" where
  "newWithClock lifetime limit clock =
    (if lifetime \<le> 0 then Inl ErrInvalidTTL
     else if limit \<le> 0 then Inl ErrInvalidMaxEntries
     else if \<not> clock then Inl errNilClock
     else Inr \<lparr>ttl = lifetime, maxEntries = limit, entries = [], recency = []\<rparr>)"

definition New :: "duration \<Rightarrow> int \<Rightarrow> CacheError + 'r Cache" where
  "New lifetime limit = newWithClock lifetime limit True"

text \<open>\<^verbatim>\<open>list.MoveToFront\<close>, and \<^verbatim>\<open>remove\<close>, which takes an entry out of the map and the list.\<close>

definition MoveToFront :: "string \<Rightarrow> string list \<Rightarrow> string list" where
  "MoveToFront key keys = key # remove1 key keys"

definition Cache_remove :: "'r entry \<Rightarrow> 'r Cache \<Rightarrow> 'r Cache" where
  "Cache_remove cached c =
    c\<lparr>entries := AList.delete (entry_key cached) (entries c),
      recency := remove1 (entry_key cached) (recency c)\<rparr>"

definition Cache_Get :: "time \<Rightarrow> string \<Rightarrow> 'r Cache \<Rightarrow> 'r option \<times> 'r Cache" where
  "Cache_Get now key c =
    (case map_of (entries c) key of
       None \<Rightarrow> (None, c)
     | Some cached \<Rightarrow>
         if \<not> now < expiresAt cached then (None, Cache_remove cached c)
         else (Some (response cached), c\<lparr>recency := MoveToFront key (recency c)\<rparr>))"

text \<open>The loop walks from the back of the list and removes as it goes.\<close>

fun removeExpired_loop :: "time \<Rightarrow> string list \<Rightarrow> 'r Cache \<Rightarrow> 'r Cache" where
  "removeExpired_loop now [] c = c"
| "removeExpired_loop now (key # keys) c =
    removeExpired_loop now keys
      (case map_of (entries c) key of
         None \<Rightarrow> c
       | Some cached \<Rightarrow> if \<not> now < expiresAt cached then Cache_remove cached c else c)"

definition Cache_removeExpired :: "time \<Rightarrow> 'r Cache \<Rightarrow> 'r Cache" where
  "Cache_removeExpired now c = removeExpired_loop now (rev (recency c)) c"

definition Cache_Set :: "time \<Rightarrow> string \<Rightarrow> 'r \<Rightarrow> 'r Cache \<Rightarrow> 'r Cache" where
  "Cache_Set now key stored c =
    (let expires = now + ttl c
     in case map_of (entries c) key of
          Some cached \<Rightarrow>
            c\<lparr>entries := AList.update key (cached\<lparr>response := stored, expiresAt := expires\<rparr>) (entries c),
              recency := MoveToFront key (recency c)\<rparr>
        | None \<Rightarrow>
            let c = (if maxEntries c \<le> int (length (entries c)) then Cache_removeExpired now c else c);
                cached = \<lparr>entry_key = key, response = stored, expiresAt = expires\<rparr>;
                c = c\<lparr>recency := key # recency c, entries := AList.update key cached (entries c)\<rparr>
            in if maxEntries c < int (length (entries c))
               then (case map_of (entries c) (last (recency c)) of
                       None \<Rightarrow> c
                     | Some oldest \<Rightarrow> Cache_remove oldest c)
               else c)"

section \<open>Invariant\<close>

definition cache_wf :: "'r Cache \<Rightarrow> bool" where
  "cache_wf c =
    (0 < ttl c \<and> 0 < maxEntries c \<and> gomap_wf (entries c) \<and> distinct (recency c) \<and>
     set (recency c) = dom (map_of (entries c)) \<and>
     (\<forall>k e. map_of (entries c) k = Some e \<longrightarrow> entry_key e = k) \<and>
     int (length (recency c)) \<le> maxEntries c)"

text \<open>The same without the bound on the number of entries, for the states inside \<^verbatim>\<open>Set\<close>.\<close>

definition cache_ok :: "'r Cache \<Rightarrow> bool" where
  "cache_ok c =
    (gomap_wf (entries c) \<and> distinct (recency c) \<and> set (recency c) = dom (map_of (entries c)) \<and>
     (\<forall>k e. map_of (entries c) k = Some e \<longrightarrow> entry_key e = k))"

lemma cache_wf_ok: "cache_wf c \<longleftrightarrow> cache_ok c \<and> 0 < ttl c \<and> 0 < maxEntries c \<and> int (length (recency c)) \<le> maxEntries c"
  by (auto simp: cache_wf_def cache_ok_def)

lemma length_entries: "cache_ok c \<Longrightarrow> length (entries c) = length (recency c)"
  using length_gomap [of "entries c"] distinct_card [of "recency c"] by (simp add: cache_ok_def)

section \<open>The abstract cache: one list, most recently used first\<close>

type_synonym 'r lru = "(string \<times> 'r \<times> time) list"

definition cache_abs :: "'r Cache \<Rightarrow> 'r lru" where
  "cache_abs c =
    map (\<lambda>k. let e = the (map_of (entries c) k) in (k, response e, expiresAt e)) (recency c)"

definition lru_without :: "string \<Rightarrow> 'r lru \<Rightarrow> 'r lru" where
  "lru_without key xs = filter (\<lambda>x. fst x \<noteq> key) xs"

definition lru_get :: "time \<Rightarrow> string \<Rightarrow> 'r lru \<Rightarrow> 'r option \<times> 'r lru" where
  "lru_get now key xs =
    (case map_of xs key of
       None \<Rightarrow> (None, xs)
     | Some (r, e) \<Rightarrow>
         if now < e then (Some r, (key, r, e) # lru_without key xs) else (None, lru_without key xs))"

definition lru_set :: "duration \<Rightarrow> nat \<Rightarrow> time \<Rightarrow> string \<Rightarrow> 'r \<Rightarrow> 'r lru \<Rightarrow> 'r lru" where
  "lru_set lifetime limit now key r xs =
    (if map_of xs key \<noteq> None then (key, r, now + lifetime) # lru_without key xs
     else
       let live = (if length xs < limit then xs else filter (\<lambda>(k, r, e). now < e) xs)
       in take limit ((key, r, now + lifetime) # live))"

lemma cache_abs_keys: "map fst (cache_abs c) = recency c"
  by (simp add: cache_abs_def Let_def comp_def)

lemma map_of_map_key: "map_of (map (\<lambda>k. (k, f k)) ks) k = (if k \<in> set ks then Some (f k) else None)"
  by (induction ks) auto

lemma map_of_cache_abs:
  assumes "cache_ok c"
  shows "map_of (cache_abs c) k = map_option (\<lambda>e. (response e, expiresAt e)) (map_of (entries c) k)"
proof -
  have "cache_abs c = map (\<lambda>k. (k, (\<lambda>e. (response e, expiresAt e)) (the (map_of (entries c) k)))) (recency c)"
    by (simp add: cache_abs_def Let_def)
  then show ?thesis using assms by (auto simp: map_of_map_key cache_ok_def domIff)
qed

section \<open>Refinement\<close>

lemma remove1_filter: "distinct xs \<Longrightarrow> remove1 k xs = filter (\<lambda>x. x \<noteq> k) xs"
  by (auto simp: distinct_remove1_removeAll removeAll_filter_not_eq intro: filter_cong)

lemma cache_abs_eqI:
  assumes "recency c = map fst xs" "\<And>k r e. (k, r, e) \<in> set xs \<Longrightarrow>
    \<exists>x. map_of (entries c) k = Some x \<and> response x = r \<and> expiresAt x = e"
  shows "cache_abs c = xs"
proof -
  have "cache_abs c = map (\<lambda>x. let e = the (map_of (entries c) (fst x)) in (fst x, response e, expiresAt e)) xs"
    by (simp add: cache_abs_def assms(1) comp_def)
  also have "\<dots> = map id xs" using assms(2) by (intro map_cong) (force simp: Let_def)+
  finally show ?thesis by simp
qed

lemma in_cache_abs:
  assumes "cache_ok c"
  shows "(k, r, e) \<in> set (cache_abs c) \<longleftrightarrow>
    (\<exists>x. map_of (entries c) k = Some x \<and> response x = r \<and> expiresAt x = e)"
proof -
  have "k \<in> set (recency c) \<longleftrightarrow> map_of (entries c) k \<noteq> None" for k
    using assms by (auto simp: cache_ok_def)
  then show ?thesis by (force simp: cache_abs_def Let_def)
qed

lemma keys_without: "map fst (lru_without k (cache_abs c)) = filter (\<lambda>y. y \<noteq> k) (recency c)"
  unfolding lru_without_def cache_abs_keys [of c, symmetric] by (simp add: filter_map comp_def)

lemma remove_refines:
  assumes ok: "cache_ok c" and hit: "map_of (entries c) k = Some x"
  shows "cache_ok (Cache_remove x c)" and "cache_abs (Cache_remove x c) = lru_without k (cache_abs c)"
proof -
  have key: "entry_key x = k" using ok hit by (simp add: cache_ok_def)
  have rec: "recency (Cache_remove x c) = filter (\<lambda>y. y \<noteq> k) (recency c)"
    using ok by (simp add: Cache_remove_def key cache_ok_def remove1_filter)
  have ent: "map_of (entries (Cache_remove x c)) = (map_of (entries c))(k := None)"
    by (simp add: Cache_remove_def key delete_conv')
  have "gomap_wf (entries (Cache_remove x c))" using ok by (simp add: Cache_remove_def cache_ok_def)
  moreover have "set (recency (Cache_remove x c)) = dom (map_of (entries (Cache_remove x c)))"
    using ok unfolding rec ent by (auto simp: cache_ok_def)
  moreover have "distinct (recency (Cache_remove x c))" using ok by (simp add: rec cache_ok_def)
  ultimately show "cache_ok (Cache_remove x c)" using ok by (auto simp: cache_ok_def ent split: if_splits)
  show "cache_abs (Cache_remove x c) = lru_without k (cache_abs c)"
  proof (rule cache_abs_eqI)
    show "recency (Cache_remove x c) = map fst (lru_without k (cache_abs c))"
      by (simp add: rec keys_without)
  qed (auto simp: lru_without_def ent in_cache_abs [OF ok])
qed

lemma touch_refines:
  assumes ok: "cache_ok c" and hit: "map_of (entries c) k = Some x"
    and c': "entries c' = AList.update k y (entries c)" "recency c' = MoveToFront k (recency c)"
    and y: "entry_key y = k"
  shows "cache_ok c'" and "cache_abs c' = (k, response y, expiresAt y) # lru_without k (cache_abs c)"
    and "length (recency c') = length (recency c)"
proof -
  have kin: "k \<in> set (recency c)" using ok hit by (auto simp: cache_ok_def)
  have rec: "recency c' = k # filter (\<lambda>z. z \<noteq> k) (recency c)"
    using ok by (simp add: c' MoveToFront_def cache_ok_def remove1_filter)
  have ent: "map_of (entries c') = (map_of (entries c))(k \<mapsto> y)" by (simp add: c' update_conv')
  show "length (recency c') = length (recency c)"
    using kin length_pos_if_in_set [OF kin] by (simp add: c' MoveToFront_def length_remove1)
  show "cache_ok c'" using ok y unfolding cache_ok_def rec ent by (auto simp: c')
  show "cache_abs c' = (k, response y, expiresAt y) # lru_without k (cache_abs c)"
  proof (rule cache_abs_eqI)
    show "recency c' = map fst ((k, response y, expiresAt y) # lru_without k (cache_abs c))"
      by (simp add: rec keys_without)
  qed (auto simp: lru_without_def ent in_cache_abs [OF ok])
qed

lemma remove_fields [simp]:
  "ttl (Cache_remove x c) = ttl c" "maxEntries (Cache_remove x c) = maxEntries c"
  by (simp_all add: Cache_remove_def)

lemma length_remove_le: "length (recency (Cache_remove x c)) \<le> length (recency c)"
  by (simp add: Cache_remove_def length_remove1)

lemma update_same: "gomap_wf m \<Longrightarrow> map_of m k = Some v \<Longrightarrow> AList.update k v m = m"
  by (induction m) (auto simp: gomap_wf_def split: if_splits)

lemma Get_refines:
  assumes wf: "cache_wf c"
  shows "cache_wf (snd (Cache_Get now key c))"
    and "(fst (Cache_Get now key c), cache_abs (snd (Cache_Get now key c))) = lru_get now key (cache_abs c)"
proof -
  have ok: "cache_ok c" using wf by (simp add: cache_wf_ok)
  have "cache_wf (snd (Cache_Get now key c)) \<and>
      (fst (Cache_Get now key c), cache_abs (snd (Cache_Get now key c))) = lru_get now key (cache_abs c)"
  proof (cases "map_of (entries c) key")
    case None
    then show ?thesis using wf map_of_cache_abs [OF ok, of key] by (simp add: Cache_Get_def lru_get_def)
  next
    case (Some x)
    show ?thesis
    proof (cases "now < expiresAt x")
      case True
      let ?c = "c\<lparr>recency := MoveToFront key (recency c)\<rparr>"
      have "entries ?c = AList.update key x (entries c)" "entry_key x = key"
        using ok Some by (simp_all add: cache_ok_def update_same)
      from touch_refines [OF ok Some this(1) _ this(2)]
      have "cache_ok ?c" "cache_abs ?c = (key, response x, expiresAt x) # lru_without key (cache_abs c)"
        "length (recency ?c) = length (recency c)" by simp_all
      then show ?thesis
        using True Some wf map_of_cache_abs [OF ok, of key]
        by (simp add: Cache_Get_def lru_get_def cache_wf_ok)
    next
      case False
      then show ?thesis
        using Some wf map_of_cache_abs [OF ok, of key] remove_refines [OF ok Some] length_remove_le [of x c]
        by (auto simp: Cache_Get_def lru_get_def cache_wf_ok)
    qed
  qed
  then show "cache_wf (snd (Cache_Get now key c))"
    and "(fst (Cache_Get now key c), cache_abs (snd (Cache_Get now key c))) = lru_get now key (cache_abs c)"
    by blast+
qed

lemma removeExpired_loop_fields [simp]:
  "ttl (removeExpired_loop now keys c) = ttl c" "maxEntries (removeExpired_loop now keys c) = maxEntries c"
  by (induction keys arbitrary: c) (simp_all split: option.splits)

lemma removeExpired_loop_refines:
  assumes "cache_ok c"
  shows "cache_ok (removeExpired_loop now keys c) \<and>
    cache_abs (removeExpired_loop now keys c) =
      filter (\<lambda>(k, r, e). \<not> (k \<in> set keys \<and> e \<le> now)) (cache_abs c)"
  using assms
proof (induction keys arbitrary: c)
  case (Cons key keys)
  note ok = Cons.prems
  show ?case
  proof (cases "\<exists>x. map_of (entries c) key = Some x \<and> \<not> now < expiresAt x")
    case True
    then obtain x where x: "map_of (entries c) key = Some x" "\<not> now < expiresAt x" by blast
    note rem = remove_refines [OF ok x(1)]
    have "filter (\<lambda>(k, r, e). \<not> (k \<in> set keys \<and> e \<le> now)) (lru_without key (cache_abs c))
        = filter (\<lambda>(k, r, e). \<not> (k \<in> set (key # keys) \<and> e \<le> now)) (cache_abs c)"
      unfolding lru_without_def filter_filter using x in_cache_abs [OF ok, of key]
      by (intro filter_cong) auto
    with Cons.IH [OF rem(1)] x rem(2) show ?thesis by simp
  next
    case False
    then have eq: "removeExpired_loop now (key # keys) c = removeExpired_loop now keys c"
      by (auto split: option.splits)
    have "filter (\<lambda>(k, r, e). \<not> (k \<in> set keys \<and> e \<le> now)) (cache_abs c)
        = filter (\<lambda>(k, r, e). \<not> (k \<in> set (key # keys) \<and> e \<le> now)) (cache_abs c)"
      using False in_cache_abs [OF ok, of key] by (intro filter_cong) fastforce+
    with Cons.IH [OF ok] show ?thesis unfolding eq by simp
  qed
qed (simp add: split_def)

lemma removeExpired_refines:
  assumes "cache_ok c"
  shows "cache_ok (Cache_removeExpired now c)"
    and "cache_abs (Cache_removeExpired now c) = filter (\<lambda>(k, r, e). now < e) (cache_abs c)"
    and "ttl (Cache_removeExpired now c) = ttl c" "maxEntries (Cache_removeExpired now c) = maxEntries c"
proof -
  have "k \<in> set (recency c)" if "(k, r, e) \<in> set (cache_abs c)" for k r e
    using that unfolding cache_abs_keys [symmetric] by force
  then have "filter (\<lambda>(k, r, e). \<not> (k \<in> set (rev (recency c)) \<and> e \<le> now)) (cache_abs c)
      = filter (\<lambda>(k, r, e). now < e) (cache_abs c)"
    by (intro filter_cong) auto
  with removeExpired_loop_refines [OF assms, of now "rev (recency c)"]
  show "cache_ok (Cache_removeExpired now c)"
    and "cache_abs (Cache_removeExpired now c) = filter (\<lambda>(k, r, e). now < e) (cache_abs c)"
    and "ttl (Cache_removeExpired now c) = ttl c" "maxEntries (Cache_removeExpired now c) = maxEntries c"
    by (simp_all add: Cache_removeExpired_def)
qed

lemma push_refines:
  assumes ok: "cache_ok c" and miss: "map_of (entries c) k = None" and y: "entry_key y = k"
  defines "c' \<equiv> c\<lparr>recency := k # recency c, entries := AList.update k y (entries c)\<rparr>"
  shows "cache_ok c'" and "cache_abs c' = (k, response y, expiresAt y) # cache_abs c"
proof -
  have ent: "map_of (entries c') = (map_of (entries c))(k \<mapsto> y)" by (simp add: c'_def update_conv')
  show "cache_ok c'" using ok miss y unfolding cache_ok_def ent by (auto simp: c'_def)
  show "cache_abs c' = (k, response y, expiresAt y) # cache_abs c"
  proof (rule cache_abs_eqI)
    show "recency c' = map fst ((k, response y, expiresAt y) # cache_abs c)"
      by (simp add: c'_def cache_abs_keys)
  next
    fix k' r e assume "(k', r, e) \<in> set ((k, response y, expiresAt y) # cache_abs c)"
    then show "\<exists>x. map_of (entries c') k' = Some x \<and> response x = r \<and> expiresAt x = e"
      unfolding ent using miss by (auto simp: in_cache_abs [OF ok])
  qed
qed

lemma drop_last_refines:
  assumes ok: "cache_ok c" and ne: "recency c \<noteq> []"
  obtains x where "map_of (entries c) (last (recency c)) = Some x" "cache_ok (Cache_remove x c)"
    "cache_abs (Cache_remove x c) = butlast (cache_abs c)"
proof -
  have "last (recency c) \<in> dom (map_of (entries c))" using ok ne by (auto simp: cache_ok_def)
  then obtain x where x: "map_of (entries c) (last (recency c)) = Some x" by blast
  obtain xs z where abs: "cache_abs c = xs @ [z]"
    using ne cache_abs_keys [of c] by (cases "cache_abs c" rule: rev_cases) auto
  have last: "last (recency c) = fst z" and "distinct (map fst (xs @ [z]))"
    using ok by (simp_all add: cache_ok_def flip: cache_abs_keys abs) (simp add: abs)
  then have "\<forall>x \<in> set xs. fst x \<noteq> fst z" by (auto simp: image_iff)
  then have "lru_without (last (recency c)) (cache_abs c) = xs"
    by (simp add: lru_without_def abs last)
  with that [OF x] remove_refines [OF ok x] show ?thesis by (simp add: abs)
qed

lemma length_cache_abs: "length (cache_abs c) = length (recency c)"
  using cache_abs_keys [of c] by (metis length_map)

text \<open>The two parts of storing a new key: making room by dropping expired entries, and evicting the entry
  at the back.\<close>

lemma make_room_refines:
  fixes now :: time
  assumes ok: "cache_ok c" and new: "map_of (entries c) key = None"
  defines "d \<equiv> if maxEntries c \<le> int (length (entries c)) then Cache_removeExpired now c else c"
  shows "cache_ok d" "ttl d = ttl c" "maxEntries d = maxEntries c" "map_of (entries d) key = None"
    "cache_abs d = (if length (cache_abs c) < nat (maxEntries c) then cache_abs c
      else filter (\<lambda>(k, r, e). now < e) (cache_abs c))"
proof -
  show d: "cache_ok d" "ttl d = ttl c" "maxEntries d = maxEntries c"
    and abs: "cache_abs d = (if length (cache_abs c) < nat (maxEntries c) then cache_abs c
      else filter (\<lambda>(k, r, e). now < e) (cache_abs c))"
    using ok removeExpired_refines [OF ok, of now] by (auto simp: d_def length_entries length_cache_abs)
  have "key \<notin> set (map fst (cache_abs c))"
    using new ok unfolding cache_abs_keys by (simp add: cache_ok_def domIff)
  then have "map_of (cache_abs d) key = None" unfolding abs map_of_eq_None_iff by auto
  then show "map_of (entries d) key = None" by (simp add: map_of_cache_abs [OF d(1)])
qed

lemma evict_refines:
  assumes ok: "cache_ok f" and some: "recency f \<noteq> []" and pos: "0 < maxEntries f"
    and small: "length (cache_abs f) \<le> Suc (nat (maxEntries f))"
  defines "g \<equiv> if maxEntries f < int (length (entries f))
    then (case map_of (entries f) (last (recency f)) of None \<Rightarrow> f | Some old \<Rightarrow> Cache_remove old f) else f"
  shows "cache_ok g" "cache_abs g = take (nat (maxEntries f)) (cache_abs f)" "ttl g = ttl f" "maxEntries g = maxEntries f"
proof -
  obtain x where x: "map_of (entries f) (last (recency f)) = Some x" "cache_ok (Cache_remove x f)"
    "cache_abs (Cache_remove x f) = butlast (cache_abs f)" by (rule drop_last_refines [OF ok some])
  have len: "length (entries f) = length (cache_abs f)" using length_entries [OF ok] by (simp add: length_cache_abs)
  show "cache_ok g" "ttl g = ttl f" "maxEntries g = maxEntries f" using ok x by (simp_all add: g_def)
  show "cache_abs g = take (nat (maxEntries f)) (cache_abs f)"
  proof (cases "maxEntries f < int (length (entries f))")
    case True
    then have "length (cache_abs f) = Suc (nat (maxEntries f))" using small pos len by simp
    with True x show ?thesis by (simp add: g_def butlast_conv_take)
  next
    case False
    then show ?thesis using len by (simp add: g_def)
  qed
qed

lemma Set_refines:
  assumes wf: "cache_wf c"
  shows "cache_wf (Cache_Set now key r c)"
    and "cache_abs (Cache_Set now key r c) = lru_set (ttl c) (nat (maxEntries c)) now key r (cache_abs c)"
    and "ttl (Cache_Set now key r c) = ttl c" and "maxEntries (Cache_Set now key r c) = maxEntries c"
proof -
  have ok: "cache_ok c" and room: "int (length (recency c)) \<le> maxEntries c" "0 < maxEntries c" "0 < ttl c"
    using wf by (simp_all add: cache_wf_ok)
  have "cache_wf (Cache_Set now key r c) \<and>
    cache_abs (Cache_Set now key r c) = lru_set (ttl c) (nat (maxEntries c)) now key r (cache_abs c) \<and>
    ttl (Cache_Set now key r c) = ttl c \<and> maxEntries (Cache_Set now key r c) = maxEntries c"
  proof (cases "map_of (entries c) key")
    case (Some x)
    let ?y = "x\<lparr>response := r, expiresAt := now + ttl c\<rparr>"
    have "entry_key ?y = key" using ok Some by (simp add: cache_ok_def)
    note t = touch_refines [OF ok Some _ _ this]
    show ?thesis
      using t [of "Cache_Set now key r c"] Some wf map_of_cache_abs [OF ok, of key]
      by (simp add: Cache_Set_def Let_def lru_set_def cache_wf_ok)
  next
    case None
    define d where "d = (if maxEntries c \<le> int (length (entries c)) then Cache_removeExpired now c else c)"
    define e where "e = \<lparr>entry_key = key, response = r, expiresAt = now + ttl c\<rparr>"
    define f where "f = d\<lparr>recency := key # recency d, entries := AList.update key e (entries d)\<rparr>"
    note d = make_room_refines [OF ok None, of now, folded d_def]
    have f: "cache_ok f" "cache_abs f = (key, r, now + ttl c) # cache_abs d" "ttl f = ttl c" "maxEntries f = maxEntries c"
      using push_refines [OF d(1,4), of e] d by (simp_all add: f_def e_def)
    have "length (cache_abs d) \<le> nat (maxEntries c)"
      using room(1) length_filter_le [of "\<lambda>(k, r, e). now < e" "cache_abs c"] unfolding d(5) by (auto simp: length_cache_abs)
    then have small: "recency f \<noteq> []" "0 < maxEntries f" "length (cache_abs f) \<le> Suc (nat (maxEntries f))"
      using f room(2) by (simp_all add: f_def)
    have set_eq: "Cache_Set now key r c =
        (if maxEntries f < int (length (entries f))
         then (case map_of (entries f) (last (recency f)) of None \<Rightarrow> f | Some old \<Rightarrow> Cache_remove old f) else f)"
      unfolding Cache_Set_def Let_def None option.case
        d_def [symmetric] e_def [symmetric] f_def [symmetric] by (rule refl)
    note g = evict_refines [OF f(1) small, folded set_eq]
    have "lru_set (ttl c) (nat (maxEntries c)) now key r (cache_abs c) = take (nat (maxEntries c)) (cache_abs f)"
      using None map_of_cache_abs [OF ok, of key] by (simp add: lru_set_def f(2) d(5))
    moreover have "length (recency (Cache_Set now key r c)) \<le> nat (maxEntries c)"
      using g(2) f(4) by (simp flip: length_cache_abs)
    ultimately show ?thesis using g f(3,4) room by (simp add: cache_wf_ok)
  qed
  then show "cache_wf (Cache_Set now key r c)"
    and "cache_abs (Cache_Set now key r c) = lru_set (ttl c) (nat (maxEntries c)) now key r (cache_abs c)"
    and "ttl (Cache_Set now key r c) = ttl c" and "maxEntries (Cache_Set now key r c) = maxEntries c"
    by blast+
qed

section \<open>Histories of operations\<close>

datatype 'r cache_op = OpGet time string | OpSet time string 'r

fun op_key :: "'r cache_op \<Rightarrow> string" where
  "op_key (OpGet now key) = key"
| "op_key (OpSet now key r) = key"

fun op_time :: "'r cache_op \<Rightarrow> time" where
  "op_time (OpGet now key) = now"
| "op_time (OpSet now key r) = now"

fun cache_step :: "'r cache_op \<Rightarrow> 'r Cache \<Rightarrow> 'r option \<times> 'r Cache" where
  "cache_step (OpGet now key) c = Cache_Get now key c"
| "cache_step (OpSet now key r) c = (None, Cache_Set now key r c)"

fun lru_step :: "duration \<Rightarrow> nat \<Rightarrow> 'r cache_op \<Rightarrow> 'r lru \<Rightarrow> 'r option \<times> 'r lru" where
  "lru_step lifetime limit (OpGet now key) xs = lru_get now key xs"
| "lru_step lifetime limit (OpSet now key r) xs = (None, lru_set lifetime limit now key r xs)"

text \<open>The results of a history of operations and the final state.\<close>

fun run_ops :: "('op \<Rightarrow> 's \<Rightarrow> 'a \<times> 's) \<Rightarrow> 'op list \<Rightarrow> 's \<Rightarrow> 'a list \<times> 's" where
  "run_ops step [] s = ([], s)"
| "run_ops step (op # ops) s =
    (let (r, s) = step op s; (rs, s) = run_ops step ops s in (r # rs, s))"

lemma Get_fields [simp]: "ttl (snd (Cache_Get now key c)) = ttl c" "maxEntries (snd (Cache_Get now key c)) = maxEntries c"
  by (auto simp: Cache_Get_def split: option.splits)

lemma cache_step_refines:
  assumes "cache_wf c"
  shows "cache_wf (snd (cache_step op c))"
    and "(fst (cache_step op c), cache_abs (snd (cache_step op c)))
      = lru_step (ttl c) (nat (maxEntries c)) op (cache_abs c)"
    and "ttl (snd (cache_step op c)) = ttl c" and "maxEntries (snd (cache_step op c)) = maxEntries c"
  using Get_refines [OF assms] Set_refines [OF assms] by (cases op; simp)+

lemma cache_run_refines:
  assumes "cache_wf c"
  shows "cache_wf (snd (run_ops cache_step ops c)) \<and> maxEntries (snd (run_ops cache_step ops c)) = maxEntries c \<and>
    ttl (snd (run_ops cache_step ops c)) = ttl c \<and>
    (fst (run_ops cache_step ops c), cache_abs (snd (run_ops cache_step ops c)))
      = run_ops (lru_step (ttl c) (nat (maxEntries c))) ops (cache_abs c)"
  using assms
proof (induction ops arbitrary: c)
  case (Cons op ops)
  note s = cache_step_refines [OF Cons.prems, of op]
  show ?case using Cons.IH [OF s(1)] s(2-4) by (simp add: split_beta prod_eq_iff)
qed simp

lemma New_wf: "New lifetime limit = Inr c \<Longrightarrow> cache_wf c \<and> cache_abs c = [] \<and> ttl c = lifetime \<and> maxEntries c = limit"
  by (auto simp: New_def newWithClock_def cache_wf_def cache_abs_def split: if_splits)

section \<open>What a client of a response store relies on\<close>

fun last_set :: "string \<Rightarrow> 'r cache_op list \<Rightarrow> (time \<times> 'r) option" where
  "last_set key [] = None"
| "last_set key (op # ops) =
    (case last_set key ops of
       Some s \<Rightarrow> Some s
     | None \<Rightarrow> (case op of OpSet now k r \<Rightarrow> if k = key then Some (now, r) else None | _ \<Rightarrow> None))"

text \<open>
  The middleware that serves cached responses relies on this contract: what was just stored is found
  until its lifetime has passed and not after, and no other operation makes a lookup succeed. It
  follows that a hit always returns the latest stored response of its key, within its lifetime.
\<close>

locale response_store =
  fixes get :: "time \<Rightarrow> string \<Rightarrow> 's \<Rightarrow> 'r option \<times> 's"
    and put :: "time \<Rightarrow> string \<Rightarrow> 'r \<Rightarrow> 's \<Rightarrow> 's"
    and wf :: "'s \<Rightarrow> bool" and life :: "'s \<Rightarrow> duration"
  assumes get_wf: "wf s \<Longrightarrow> wf (snd (get now k s))" and put_wf: "wf s \<Longrightarrow> wf (put now k r s)"
    and get_life: "wf s \<Longrightarrow> life (snd (get now k s)) = life s"
    and put_life: "wf s \<Longrightarrow> life (put now k r s) = life s"
    and put_same: "wf s \<Longrightarrow> fst (get now' k (put now k r s)) = (if now' < now + life s then Some r else None)"
    and put_other: "wf s \<Longrightarrow> k' \<noteq> k \<Longrightarrow> fst (get now' k' (put now k r s)) = Some x \<Longrightarrow> fst (get now' k' s) = Some x"
    and get_keeps: "wf s \<Longrightarrow> fst (get now' k' (snd (get now k s))) = Some x \<Longrightarrow> fst (get now' k' s) = Some x"
begin

fun store_step :: "'r cache_op \<Rightarrow> 's \<Rightarrow> 'r option \<times> 's" where
  "store_step (OpGet now key) s = get now key s"
| "store_step (OpSet now key r) s = (None, put now key r s)"

lemma store_step_wf: "wf s \<Longrightarrow> wf (snd (store_step op s)) \<and> life (snd (store_step op s)) = life s"
  by (cases op) (simp_all add: get_wf put_wf get_life put_life)

lemma hit_is_latest:
  assumes "wf s" "fst (get now key (snd (run_ops store_step ops s))) = Some x"
  shows "case last_set key ops of
      Some (t, r) \<Rightarrow> x = r \<and> now < t + life s
    | None \<Rightarrow> fst (get now key s) = Some x"
  using assms
proof (induction ops arbitrary: s)
  case (Cons op ops)
  let ?s = "snd (store_step op s)"
  have wf: "wf ?s" "life ?s = life s" using store_step_wf [OF Cons.prems(1)] by simp_all
  have "fst (get now key (snd (run_ops store_step ops ?s))) = Some x"
    using Cons.prems(2) by (simp add: split_beta)
  from Cons.IH [OF wf(1) this] wf(2) show ?case
    using get_keeps [OF Cons.prems(1)] put_same [OF Cons.prems(1)] put_other [OF Cons.prems(1) not_sym]
    by (cases op) (auto split: option.splits if_splits)
qed simp

end

definition lru_lookup :: "time \<Rightarrow> string \<Rightarrow> 'r lru \<Rightarrow> 'r option" where
  "lru_lookup now key xs =
    (case map_of xs key of None \<Rightarrow> None | Some (r, e) \<Rightarrow> if now < e then Some r else None)"

lemma fst_lru_get: "fst (lru_get now key xs) = lru_lookup now key xs"
  by (simp add: lru_get_def lru_lookup_def split: option.splits)

lemma fst_Cache_Get: "cache_wf c \<Longrightarrow> fst (Cache_Get now key c) = lru_lookup now key (cache_abs c)"
  using Get_refines(2) [of c now key] by (metis fst_conv fst_lru_get)

lemma distinct_cache_abs: "cache_wf c \<Longrightarrow> distinct (map fst (cache_abs c))"
  by (simp add: cache_abs_keys cache_wf_def)

lemma lru_lookup_Some:
  "distinct (map fst xs) \<Longrightarrow> lru_lookup now key xs = Some r \<longleftrightarrow> (\<exists>e. (key, r, e) \<in> set xs \<and> now < e)"
proof -
  assume d: "distinct (map fst xs)"
  have "lru_lookup now key xs = Some r \<longleftrightarrow> (\<exists>e. map_of xs key = Some (r, e) \<and> now < e)"
    by (auto simp: lru_lookup_def split: option.splits if_splits)
  then show ?thesis by (simp add: map_of_eq_Some_iff [OF d])
qed

lemma lru_lookup_subset:
  "distinct (map fst xs) \<Longrightarrow> distinct (map fst ys) \<Longrightarrow> \<forall>z \<in> set ys. fst z = key \<longrightarrow> z \<in> set xs
    \<Longrightarrow> lru_lookup now key ys = Some r \<Longrightarrow> lru_lookup now key xs = Some r"
  by (auto simp: lru_lookup_Some)

lemma set_lru_get: "set (snd (lru_get now key xs)) \<subseteq> set xs"
  by (auto simp: lru_get_def lru_without_def dest: map_of_SomeD split: option.splits)

lemma set_lru_set: "z \<in> set (lru_set lifetime limit now key r xs) \<Longrightarrow> z = (key, r, now + lifetime) \<or> z \<in> set xs"
  by (auto simp: lru_set_def lru_without_def Let_def dest: in_set_takeD split: if_splits)

lemma lru_set_front: "0 < limit \<Longrightarrow> \<exists>ys. lru_set lifetime limit now key r xs = (key, r, now + lifetime) # ys"
  by (cases limit) (simp_all add: lru_set_def Let_def)

lemma lru_lookup_set_same:
  "0 < limit \<Longrightarrow> lru_lookup now' key (lru_set lifetime limit now key r xs)
    = (if now' < now + lifetime then Some r else None)"
  by (cases limit) (simp_all add: lru_lookup_def lru_set_def Let_def)

interpretation cache_store: response_store Cache_Get Cache_Set cache_wf ttl
proof unfold_locales
  fix s :: "'a Cache" and now now' :: time and k k' r x
  assume wf: "cache_wf s"
  note get = Get_refines [OF wf, of now k] and put = Set_refines [OF wf, of now k r]
  show "cache_wf (snd (Cache_Get now k s))" "ttl (snd (Cache_Get now k s)) = ttl s"
    "cache_wf (Cache_Set now k r s)" "ttl (Cache_Set now k r s) = ttl s"
    using get put by simp_all
  show "fst (Cache_Get now' k (Cache_Set now k r s)) = (if now' < now + ttl s then Some r else None)"
    using wf lru_lookup_set_same [of "nat (maxEntries s)" now' k "ttl s" now r "cache_abs s"]
    by (simp only: fst_Cache_Get [OF put(1)] put(2)) (simp add: cache_wf_def)
  show "fst (Cache_Get now' k' s) = Some x"
    if "fst (Cache_Get now' k' (Cache_Set now k r s)) = Some x" "k' \<noteq> k"
  proof -
    have "\<forall>z \<in> set (cache_abs (Cache_Set now k r s)). fst z = k' \<longrightarrow> z \<in> set (cache_abs s)"
      unfolding put(2) using that(2) set_lru_set by fastforce
    from lru_lookup_subset [OF distinct_cache_abs [OF wf] distinct_cache_abs [OF put(1)] this]
    show ?thesis using that(1) by (simp only: fst_Cache_Get [OF wf] fst_Cache_Get [OF put(1)])
  qed
  show "fst (Cache_Get now' k' s) = Some x" if "fst (Cache_Get now' k' (snd (Cache_Get now k s))) = Some x"
  proof -
    have abs: "cache_abs (snd (Cache_Get now k s)) = snd (lru_get now k (cache_abs s))"
      using get(2) by (metis snd_conv)
    show ?thesis
      using that set_lru_get [of now k "cache_abs s"] distinct_cache_abs [OF get(1)]
      unfolding fst_Cache_Get [OF wf] fst_Cache_Get [OF get(1)] abs
      by (elim lru_lookup_subset [OF distinct_cache_abs [OF wf], rotated 2]) auto
  qed
qed

lemma store_step_cache_step: "cache_store.store_step = cache_step"
proof (intro ext)
  fix op and c :: "'a Cache"
  show "cache_store.store_step op c = cache_step op c" by (cases op) simp_all
qed

section \<open>Least-recently-used eviction\<close>

text \<open>Entry \<open>z\<close> is in the list and every entry in front of it has a key of \<open>T\<close>.\<close>

definition lru_at :: "(string \<times> 'r \<times> time) \<Rightarrow> string set \<Rightarrow> 'r lru \<Rightarrow> bool" where
  "lru_at z T xs =
    (distinct (map fst xs) \<and> (\<exists>pre post. xs = pre @ z # post \<and> fst ` set pre \<subseteq> T))"

lemma lru_at_filter:
  assumes "lru_at z T xs" "P z"
  shows "lru_at z T (filter P xs)"
proof -
  obtain pre post where xs: "xs = pre @ z # post" "fst ` set pre \<subseteq> T" "distinct (map fst xs)"
    using assms(1) by (auto simp: lru_at_def)
  have "filter P xs = filter P pre @ z # filter P post" "fst ` set (filter P pre) \<subseteq> T"
    using xs assms(2) by auto
  with xs(3) show ?thesis unfolding lru_at_def using distinct_map_filter by blast
qed

lemma lru_at_Cons: "lru_at z T xs \<Longrightarrow> fst y \<in> T \<Longrightarrow> fst y \<notin> fst ` set xs \<Longrightarrow> lru_at z T (y # xs)"
proof -
  assume at: "lru_at z T xs" and y: "fst y \<in> T" "fst y \<notin> fst ` set xs"
  then obtain pre post where xs: "xs = pre @ z # post" "fst ` set pre \<subseteq> T" "distinct (map fst xs)"
    by (auto simp: lru_at_def)
  then have "y # xs = (y # pre) @ z # post" "fst ` set (y # pre) \<subseteq> T" using y by auto
  moreover have "distinct (map fst (y # xs))" using xs(3) y(2) by simp
  ultimately show ?thesis unfolding lru_at_def by blast
qed

lemma lru_at_front: "distinct (map fst (z # xs)) \<Longrightarrow> lru_at z T (z # xs)"
  by (auto simp: lru_at_def intro: exI [of _ "[]"])

lemma lru_at_take:
  assumes at: "lru_at z T xs" and T: "finite T" "card T < limit"
  shows "lru_at z T (take limit xs)"
proof -
  obtain pre post where xs: "xs = pre @ z # post" "fst ` set pre \<subseteq> T" "distinct (map fst xs)"
    using at by (auto simp: lru_at_def)
  have "length pre = card (fst ` set pre)" using xs(1,3) by (metis distinct_append distinct_card length_map map_append set_map)
  also have "\<dots> < limit" using card_mono [OF T(1) xs(2)] T(2) by simp
  finally have "take limit xs = pre @ z # take (limit - Suc (length pre)) post" using xs(1) by (simp add: take_Cons')
  moreover have "distinct (map fst (take limit xs))" using xs(3) by (metis distinct_take take_map)
  ultimately show ?thesis using xs(2) by (auto simp: lru_at_def)
qed

definition op_keeps :: "string \<Rightarrow> time \<Rightarrow> 'r cache_op \<Rightarrow> bool" where
  "op_keeps key e op = (op_time op < e \<and> (case op of OpSet _ k _ \<Rightarrow> k \<noteq> key | OpGet _ _ \<Rightarrow> True))"

lemma lru_at_without: "lru_at (key, r, e) T xs \<Longrightarrow> k \<noteq> key \<Longrightarrow> lru_at (key, r, e) T (lru_without k xs)"
  unfolding lru_without_def by (rule lru_at_filter) simp_all

lemma lru_at_step:
  assumes at: "lru_at (key, r, e) T xs" and T: "finite T" "card T < limit"
    and op: "op_key op \<in> insert key T" "op_keeps key e op"
  shows "lru_at (key, r, e) T (snd (lru_step lifetime limit op xs))"
proof -
  have d: "distinct (map fst xs)" and mem: "(key, r, e) \<in> set xs" using at by (auto simp: lru_at_def)
  then have find: "map_of xs key = Some (r, e)" by (simp add: map_of_eq_Some_iff)
  have notin: "k \<notin> fst ` set (lru_without k ys)" for k and ys :: "'a lru" by (auto simp: lru_without_def)
  have dw: "distinct (map fst (lru_without k xs))" for k unfolding lru_without_def by (rule distinct_map_filter [OF d])
  show ?thesis
  proof (cases op)
    case (OpGet now k)
    show ?thesis
    proof (cases "k = key")
      case True
      then have "snd (lru_step lifetime limit op xs) = (key, r, e) # lru_without key xs"
        using OpGet op(2) find by (simp add: op_keeps_def lru_get_def)
      moreover have "distinct (map fst ((key, r, e) # lru_without key xs))" using dw notin by simp
      ultimately show ?thesis by (simp add: lru_at_front)
    next
      case False
      then have k: "k \<in> T" using OpGet op(1) by simp
      have "lru_at (key, r, e) T ((k, r', e') # lru_without k xs)" for r' e'
        using lru_at_Cons [OF lru_at_without [OF at False], of "(k, r', e')"] k notin by simp
      then show ?thesis using OpGet at lru_at_without [OF at False] by (auto simp: lru_get_def split: option.splits)
    qed
  next
    case (OpSet now k s)
    then have k: "k \<noteq> key" "k \<in> T" and now: "now < e" using op by (auto simp: op_keeps_def)
    have old: "lru_at (key, r, e) T ((k, y) # lru_without k xs)" for y
      using lru_at_Cons [OF lru_at_without [OF at k(1)], of "(k, y)"] k notin by simp
    have new: "lru_at (key, r, e) T (take limit ((k, y) # live))"
      if "map_of xs k = None" "live = xs \<or> live = filter (\<lambda>(k, r, e). now < e) xs" for y live
    proof -
      have "lru_at (key, r, e) T live" using that(2) at now lru_at_filter [OF at, of "\<lambda>(k, r, e). now < e"] by auto
      moreover have "k \<notin> fst ` set live" using that by (auto simp: map_of_eq_None_iff)
      ultimately show ?thesis using lru_at_Cons [of "(key, r, e)" T live "(k, y)"] k(2) lru_at_take [OF _ T] by simp
    qed
    show ?thesis
    proof (cases "map_of xs k")
      case None
      have eq: "snd (lru_step lifetime limit op xs) = take limit ((k, s, now + lifetime) #
          (if length xs < limit then xs else filter (\<lambda>(k, r, e). now < e) xs))"
        using OpSet None by (simp only: lru_step.simps snd_conv lru_set_def Let_def) simp
      show ?thesis unfolding eq by (rule new [OF None]) simp
    qed (use OpSet old in \<open>simp add: lru_set_def\<close>)
  qed
qed

lemma lru_at_run:
  assumes "lru_at (key, r, e) T xs" "finite T" "card T < limit"
    and "\<forall>op \<in> set ops. op_key op \<in> insert key T \<and> op_keeps key e op"
  shows "lru_at (key, r, e) T (snd (run_ops (lru_step lifetime limit) ops xs))"
  using assms(1,4)
proof (induction ops arbitrary: xs)
  case (Cons op ops)
  then have "lru_at (key, r, e) T (snd (lru_step lifetime limit op xs))"
    using assms(2,3) by (intro lru_at_step) simp_all
  with Cons show ?case by (simp add: split_beta)
qed simp

section \<open>Responses as references: nothing is shared with callers\<close>

text \<open>
  Headers and bodies are objects in a heap and a response refers to them, as in the code.
  \<^verbatim>\<open>Header.Clone\<close> copies the map and its values and \<^verbatim>\<open>append([]byte(nil), ...)\<close> the bytes; here
  both allocate at the same fresh address, one in each part of the heap.
\<close>

record 'h heap =
  hdr_at :: "nat \<Rightarrow> 'h"
  body_at :: "nat \<Rightarrow> bytes"
  fresh :: nat

record Response =
  StatusCode :: int
  Header :: nat
  Body :: nat

definition cloneResponse :: "Response \<Rightarrow> 'h heap \<Rightarrow> Response \<times> 'h heap" where
  "cloneResponse r h =
    (\<lparr>StatusCode = StatusCode r, Header = fresh h, Body = fresh h\<rparr>,
     h\<lparr>hdr_at := (hdr_at h)(fresh h := hdr_at h (Header r)),
       body_at := (body_at h)(fresh h := body_at h (Body r)),
       fresh := Suc (fresh h)\<rparr>)"

definition Cache_Set_ref :: "time \<Rightarrow> string \<Rightarrow> Response \<Rightarrow> 'h heap \<Rightarrow> Response Cache \<Rightarrow> 'h heap \<times> Response Cache" where
  "Cache_Set_ref now key r h c =
    (let (stored, h) = cloneResponse r h in (h, Cache_Set now key stored c))"

definition Cache_Get_ref ::
  "time \<Rightarrow> string \<Rightarrow> 'h heap \<Rightarrow> Response Cache \<Rightarrow> Response option \<times> 'h heap \<times> Response Cache" where
  "Cache_Get_ref now key h c =
    (case Cache_Get now key c of
       (None, c) \<Rightarrow> (None, h, c)
     | (Some r, c) \<Rightarrow> let (copy, h) = cloneResponse r h in (Some copy, h, c))"

text \<open>What a response says, read from the heap.\<close>

type_synonym 'h response_value = "int \<times> 'h \<times> bytes"

definition deref :: "'h heap \<Rightarrow> Response \<Rightarrow> 'h response_value" where
  "deref h r = (StatusCode r, hdr_at h (Header r), body_at h (Body r))"

text \<open>The cache and its callers: a caller writes any object it can reach, that is, one it made or
  was given by the cache.\<close>

record 'h cache_world =
  wheap :: "'h heap"
  wcache :: "Response Cache"
  owned :: "nat set"

datatype 'h world_event =
    CallerAlloc 'h bytes
  | CallerWrite nat 'h bytes
  | CallerSet time string int nat nat
  | CallerGet time string

fun world_step :: "'h world_event \<Rightarrow> 'h cache_world \<Rightarrow> 'h response_value option \<times> 'h cache_world" where
  "world_step (CallerAlloc hv bs) w =
    (let h = wheap w; a = fresh h
     in (None, w\<lparr>wheap := h\<lparr>hdr_at := (hdr_at h)(a := hv), body_at := (body_at h)(a := bs), fresh := Suc a\<rparr>,
                 owned := insert a (owned w)\<rparr>))"
| "world_step (CallerWrite a hv bs) w =
    (let h = wheap w
     in (None, if a \<in> owned w
               then w\<lparr>wheap := h\<lparr>hdr_at := (hdr_at h)(a := hv), body_at := (body_at h)(a := bs)\<rparr>\<rparr>
               else w))"
| "world_step (CallerSet now key status ha ba) w =
    (if ha \<in> owned w \<and> ba \<in> owned w
     then let (h, c) = Cache_Set_ref now key \<lparr>StatusCode = status, Header = ha, Body = ba\<rparr> (wheap w) (wcache w)
          in (None, w\<lparr>wheap := h, wcache := c\<rparr>)
     else (None, w))"
| "world_step (CallerGet now key) w =
    (let (r, h, c) = Cache_Get_ref now key (wheap w) (wcache w); w = w\<lparr>wheap := h, wcache := c\<rparr>
     in case r of
          None \<Rightarrow> (None, w)
        | Some r \<Rightarrow> (Some (deref h r), w\<lparr>owned := {Header r, Body r} \<union> owned w\<rparr>))"

subsection \<open>The cache does not look at responses\<close>

definition map_entry_response :: "('r \<Rightarrow> 's) \<Rightarrow> 'r entry \<Rightarrow> 's entry" where
  "map_entry_response f e = \<lparr>entry_key = entry_key e, response = f (response e), expiresAt = expiresAt e\<rparr>"

definition map_cache :: "('r \<Rightarrow> 's) \<Rightarrow> 'r Cache \<Rightarrow> 's Cache" where
  "map_cache f c =
    \<lparr>ttl = ttl c, maxEntries = maxEntries c,
     entries = map (\<lambda>(k, e). (k, map_entry_response f e)) (entries c), recency = recency c\<rparr>"

lemma delete_map_value: "AList.delete k (map (\<lambda>(k, v). (k, f v)) m) = map (\<lambda>(k, v). (k, f v)) (AList.delete k m)"
  by (induction m) auto

lemma update_map_value: "AList.update k (f v) (map (\<lambda>(k, v). (k, f v)) m) = map (\<lambda>(k, v). (k, f v)) (AList.update k v m)"
  by (induction m) auto

lemma map_cache_fields [simp]:
  "ttl (map_cache f c) = ttl c" "maxEntries (map_cache f c) = maxEntries c" "recency (map_cache f c) = recency c"
  "map_of (entries (map_cache f c)) k = map_option (map_entry_response f) (map_of (entries c) k)"
  "length (entries (map_cache f c)) = length (entries c)"
  by (simp_all add: map_cache_def map_of_map)

lemma map_entry_fields [simp]:
  "entry_key (map_entry_response f e) = entry_key e" "expiresAt (map_entry_response f e) = expiresAt e"
  "response (map_entry_response f e) = f (response e)"
  by (simp_all add: map_entry_response_def)

lemma map_cache_remove: "Cache_remove (map_entry_response f e) (map_cache f c) = map_cache f (Cache_remove e c)"
  by (simp add: Cache_remove_def map_cache_def delete_map_value)

lemma map_cache_Get:
  "Cache_Get now key (map_cache f c) = map_prod (map_option f) (map_cache f) (Cache_Get now key c)"
  by (auto simp: Cache_Get_def map_cache_remove split: option.splits) (simp add: map_cache_def)

lemma map_cache_removeExpired_loop:
  "removeExpired_loop now keys (map_cache f c) = map_cache f (removeExpired_loop now keys c)"
  by (induction keys arbitrary: c) (simp_all add: map_cache_remove option.map_sel split: option.splits)

lemma map_cache_Set: "Cache_Set now key (f r) (map_cache f c) = map_cache f (Cache_Set now key r c)"
proof (cases "map_of (entries c) key")
  case (Some x)
  have y: "(map_entry_response f x)\<lparr>response := f r, expiresAt := e\<rparr>
      = map_entry_response f (x\<lparr>response := r, expiresAt := e\<rparr>)" for e
    by (simp add: map_entry_response_def)
  from Some show ?thesis
    by (simp add: Cache_Set_def Let_def y)
      (simp add: map_cache_def update_map_value [symmetric])
next
  case None
  have push: "(map_cache f d)\<lparr>recency := ks,
      entries := AList.update key \<lparr>entry_key = key, response = f r, expiresAt = e\<rparr> (entries (map_cache f d))\<rparr>
    = map_cache f (d\<lparr>recency := ks, entries := AList.update key \<lparr>entry_key = key, response = r, expiresAt = e\<rparr> (entries d)\<rparr>)" for d ks e
    using update_map_value [of key "map_entry_response f" "\<lparr>entry_key = key, response = r, expiresAt = e\<rparr>" "entries d"]
    by (simp add: map_cache_def map_entry_response_def)
  have sel: "(if b then Cache_removeExpired now (map_cache f c) else map_cache f c)
      = map_cache f (if b then Cache_removeExpired now c else c)" for b
    by (simp add: Cache_removeExpired_def map_cache_removeExpired_loop)
  show ?thesis
    unfolding Cache_Set_def Let_def None map_cache_fields option.case option.map sel push
    by (simp add: map_cache_remove split: option.splits)
qed

subsection \<open>Ownership\<close>

definition stored_responses :: "'r Cache \<Rightarrow> 'r set" where
  "stored_responses c = response ` snd ` set (entries c)"

lemma set_alist_delete: "set (AList.delete k m) \<subseteq> set m"
  by (induction m) auto

lemma stored_remove: "stored_responses (Cache_remove e c) \<subseteq> stored_responses c"
  using set_alist_delete by (fastforce simp: stored_responses_def Cache_remove_def)

lemma stored_Get: "stored_responses (snd (Cache_Get now key c)) \<subseteq> stored_responses c"
  by (cases "map_of (entries c) key")
    (auto simp: Cache_Get_def dest: subsetD [OF stored_remove], simp add: stored_responses_def)

lemma stored_Get_result: "fst (Cache_Get now key c) = Some r \<Longrightarrow> r \<in> stored_responses c"
  by (force simp: Cache_Get_def stored_responses_def dest: map_of_SomeD split: option.splits if_splits)

lemma stored_removeExpired_loop: "stored_responses (removeExpired_loop now keys c) \<subseteq> stored_responses c"
proof (induction keys arbitrary: c)
  case (Cons k keys)
  let ?d = "case map_of (entries c) k of None \<Rightarrow> c
    | Some cached \<Rightarrow> if \<not> now < expiresAt cached then Cache_remove cached c else c"
  have "stored_responses ?d \<subseteq> stored_responses c" by (auto dest: subsetD [OF stored_remove] split: option.splits)
  with Cons.IH [of ?d] show ?case by simp
qed simp

lemma stored_update:
  "entries c' = AList.update k e (entries c) \<Longrightarrow> stored_responses c' \<subseteq> insert (response e) (stored_responses c)"
  by (auto simp: stored_responses_def dest!: set_alist_update)

lemma stored_Set: "stored_responses (Cache_Set now key r c) \<subseteq> insert r (stored_responses c)"
proof (cases "map_of (entries c) key")
  case (Some x)
  then show ?thesis
    using stored_update [of "Cache_Set now key r c" key "x\<lparr>response := r, expiresAt := now + ttl c\<rparr>" c]
    by (simp add: Cache_Set_def Let_def)
next
  case None
  define d where "d = (if maxEntries c \<le> int (length (entries c)) then Cache_removeExpired now c else c)"
  define e where "e = \<lparr>entry_key = key, response = r, expiresAt = now + ttl c\<rparr>"
  define f where "f = d\<lparr>recency := key # recency d, entries := AList.update key e (entries d)\<rparr>"
  have d: "stored_responses d \<subseteq> stored_responses c"
    using stored_removeExpired_loop [of now "rev (recency c)" c] by (simp add: d_def Cache_removeExpired_def)
  have f: "stored_responses f \<subseteq> insert r (stored_responses d)"
    using stored_update [of f key e d] by (simp add: f_def e_def)
  have "Cache_Set now key r c =
      (if maxEntries f < int (length (entries f))
       then (case map_of (entries f) (last (recency f)) of None \<Rightarrow> f | Some old \<Rightarrow> Cache_remove old f) else f)"
    unfolding Cache_Set_def Let_def None option.case
      d_def [symmetric] e_def [symmetric] f_def [symmetric] by (rule refl)
  then have "stored_responses (Cache_Set now key r c) \<subseteq> stored_responses f"
    by (auto dest: subsetD [OF stored_remove] split: option.splits)
  with d f show ?thesis by blast
qed

definition world_inv :: "'h cache_world \<Rightarrow> bool" where
  "world_inv w =
    ((\<forall>a \<in> owned w. a < fresh (wheap w)) \<and>
     (\<forall>r \<in> stored_responses (wcache w).
        Header r < fresh (wheap w) \<and> Body r < fresh (wheap w) \<and> Header r \<notin> owned w \<and> Body r \<notin> owned w))"

text \<open>The cache as its callers see it: every stored response read out.\<close>

definition world_abs :: "'h cache_world \<Rightarrow> 'h response_value Cache" where
  "world_abs w = map_cache (deref (wheap w)) (wcache w)"

lemma map_cache_cong: "\<forall>r \<in> stored_responses c. f r = g r \<Longrightarrow> map_cache f c = map_cache g c"
  by (auto simp: map_cache_def map_entry_response_def stored_responses_def)

fun value_step :: "'h cache_world \<Rightarrow> 'h world_event \<Rightarrow> 'h response_value Cache \<Rightarrow> 'h response_value option \<times> 'h response_value Cache" where
  "value_step w (CallerSet now key status ha ba) c =
    (None, if ha \<in> owned w \<and> ba \<in> owned w
           then Cache_Set now key (status, hdr_at (wheap w) ha, body_at (wheap w) ba) c else c)"
| "value_step w (CallerGet now key) c = Cache_Get now key c"
| "value_step w _ c = (None, c)"

lemma clone_facts:
  assumes "cloneResponse r h = (st, h')"
  shows "deref h' st = deref h r" "Header st = fresh h" "Body st = fresh h" "fresh h' = Suc (fresh h)"
    and "Header x < fresh h \<Longrightarrow> Body x < fresh h \<Longrightarrow> deref h' x = deref h x"
  using assms by (auto simp: cloneResponse_def deref_def)

lemma world_set_sound:
  assumes inv: "world_inv w" and own: "ha \<in> owned w" "ba \<in> owned w" and ev: "ev = CallerSet now key status ha ba"
  shows "world_inv (snd (world_step ev w)) \<and>
    (fst (world_step ev w), world_abs (snd (world_step ev w))) = value_step w ev (world_abs w)"
proof -
  let ?h = "wheap w" and ?c = "wcache w" and ?r = "\<lparr>StatusCode = status, Header = ha, Body = ba\<rparr>"
  obtain st h' where clone: "cloneResponse ?r ?h = (st, h')" by fastforce
  note st = clone_facts [OF clone]
  have same: "\<forall>r \<in> stored_responses ?c. deref h' r = deref ?h r"
    using inv st(5) by (auto simp: world_inv_def)
  have step: "world_step ev w = (None, w\<lparr>wheap := h', wcache := Cache_Set now key st ?c\<rparr>)"
    using ev own clone by (simp add: Cache_Set_ref_def)
  have "map_cache (deref h') (Cache_Set now key st ?c)
      = Cache_Set now key (deref ?h ?r) (map_cache (deref ?h) ?c)"
    unfolding map_cache_Set [symmetric] st(1) using map_cache_cong [OF same] by simp
  then have abs: "world_abs (snd (world_step ev w)) = snd (value_step w ev (world_abs w))"
    unfolding step using ev own by (simp add: world_abs_def deref_def)
  have "world_inv (snd (world_step ev w))"
    using inv st(2-4) stored_Set [of now key st ?c] own unfolding step world_inv_def by (fastforce simp: less_Suc_eq)
  with abs step ev show ?thesis by simp
qed

lemma world_get_sound:
  assumes inv: "world_inv w" and ev: "ev = CallerGet now key"
  shows "world_inv (snd (world_step ev w)) \<and>
    (fst (world_step ev w), world_abs (snd (world_step ev w))) = value_step w ev (world_abs w)"
proof -
  let ?h = "wheap w" and ?c = "wcache w"
  obtain r c' where get: "Cache_Get now key ?c = (r, c')" by fastforce
  have sub: "stored_responses c' \<subseteq> stored_responses ?c" using stored_Get [of now key ?c] get by simp
  have vget: "Cache_Get now key (world_abs w) = (map_option (deref ?h) r, map_cache (deref ?h) c')"
    by (simp add: world_abs_def map_cache_Get get)
  show ?thesis
  proof (cases r)
    case None
    then show ?thesis using inv sub vget get ev
      by (auto simp: Cache_Get_ref_def world_inv_def world_abs_def)
  next
    case (Some s)
    obtain st h' where clone: "cloneResponse s ?h = (st, h')" by fastforce
    note st = clone_facts [OF clone]
    have same: "\<forall>r \<in> stored_responses c'. deref h' r = deref ?h r"
      using inv st(5) sub by (auto simp: world_inv_def)
    have step: "world_step ev w = (Some (deref ?h s),
        w\<lparr>wheap := h', wcache := c', owned := {Header st, Body st} \<union> owned w\<rparr>)"
      using ev Some clone get st(1-4) by (simp add: Cache_Get_ref_def)
    have "world_inv (snd (world_step ev w))"
      using inv st(2-4) sub unfolding step world_inv_def by (fastforce simp: less_Suc_eq)
    then show ?thesis using ev vget Some map_cache_cong [OF same] unfolding step by (simp add: world_abs_def)
  qed
qed

lemma world_step_sound:
  assumes inv: "world_inv w"
  shows "world_inv (snd (world_step ev w)) \<and>
    (fst (world_step ev w), world_abs (snd (world_step ev w))) = value_step w ev (world_abs w)"
proof (cases ev)
  case (CallerSet now key status ha ba)
  then show ?thesis using inv world_set_sound [OF inv _ _ CallerSet] by (cases "ha \<in> owned w \<and> ba \<in> owned w") auto
next
  case (CallerGet now key)
  show ?thesis using inv CallerGet by (rule world_get_sound)
qed (use inv in \<open>auto simp: Let_def world_inv_def world_abs_def deref_def intro!: map_cache_cong\<close>)

lemma world_run_inv: "world_inv w \<Longrightarrow> world_inv (snd (run_ops world_step evs w))"
  by (induction evs arbitrary: w) (simp_all add: split_beta world_step_sound)

definition world_start :: "'h heap \<Rightarrow> Response Cache \<Rightarrow> 'h cache_world" where
  "world_start h c = \<lparr>wheap = h, wcache = c, owned = {}\<rparr>"

section \<open>Properties\<close>

text \<open>C10 (refinement). The map with its recency list implements an LRU list with expiry: for every
  history of lookups and stores on a new cache, every lookup returns what the abstract list returns
  and the cache's contents, in recency order, are the abstract list.\<close>

theorem cache_refines_lru:
  assumes "New lifetime limit = Inr c"
  shows "(fst (run_ops cache_step ops c), cache_abs (snd (run_ops cache_step ops c)))
    = run_ops (lru_step lifetime (nat limit)) ops []"
  using cache_run_refines [of c ops] New_wf [OF assms] by simp

text \<open>The cache never holds more than \<open>maxEntries\<close> entries, and the map and the
  recency list always hold the same keys, each once.\<close>

theorem cache_bounded:
  assumes "New lifetime limit = Inr c" "d = snd (run_ops cache_step ops c)"
  shows "int (length (entries d)) \<le> limit \<and> distinct (recency d) \<and> distinct (map fst (entries d))
    \<and> set (recency d) = set (map fst (entries d))"
proof -
  have "cache_wf d" "maxEntries d = limit" using cache_run_refines [of c ops] New_wf [OF assms(1)] assms(2) by simp_all
  then show ?thesis
    using length_entries [of d] set_keys_dom [of "entries d"] by (simp add: cache_wf_def cache_wf_ok gomap_wf_def cache_ok_def)
qed

text \<open>C33 (safety). A hit is never stale: whatever happened before, a lookup that succeeds returns the
  response stored last under that key, and before its time to live has passed.\<close>

theorem cache_hit_is_latest:
  assumes "New lifetime limit = Inr c"
    and "fst (Cache_Get now key (snd (run_ops cache_step ops c))) = Some r"
  shows "\<exists>t. last_set key ops = Some (t, r) \<and> now < t + lifetime"
proof -
  have c: "cache_wf c" "ttl c = lifetime" "cache_abs c = []" using New_wf [OF assms(1)] by simp_all
  have "fst (Cache_Get now key c) \<noteq> Some r" using c by (simp add: fst_Cache_Get lru_lookup_def)
  with cache_store.hit_is_latest [OF c(1), unfolded store_step_cache_step, OF assms(2)] c(2)
  show ?thesis by (auto split: option.splits)
qed

text \<open>Eviction is least recently used: a stored response is returned by every lookup
  within its time to live as long as fewer than \<open>maxEntries\<close> other keys have been used since, however
  often, and it has not been replaced.\<close>

theorem cache_keeps_recent:
  assumes "New lifetime limit = Inr c0" "c = Cache_Set t key r (snd (run_ops cache_step before c0))"
    and "\<forall>op \<in> set ops. op_keeps key (t + lifetime) op"
    and "int (card (op_key ` set ops - {key})) < limit" "now < t + lifetime"
  shows "fst (Cache_Get now key (snd (run_ops cache_step ops c))) = Some r"
proof -
  let ?T = "op_key ` set ops - {key}" and ?c1 = "snd (run_ops cache_step before c0)"
  have c1: "cache_wf ?c1" "ttl ?c1 = lifetime" "maxEntries ?c1 = limit"
    using cache_run_refines [of c0 before] New_wf [OF assms(1)] by simp_all
  note set = Set_refines [OF c1(1), of t key r, folded assms(2), unfolded c1(2,3)]
  have limit: "0 < nat limit" using c1(1,3) by (simp add: cache_wf_def)
  obtain ys where "cache_abs c = (key, r, t + lifetime) # ys"
    using lru_set_front [OF limit, of lifetime t key r "cache_abs ?c1"] unfolding set(2) by blast
  then have "lru_at (key, r, t + lifetime) ?T (cache_abs c)"
    using lru_at_front distinct_cache_abs [OF set(1)] by metis
  then have "lru_at (key, r, t + lifetime) ?T (snd (run_ops (lru_step lifetime (nat limit)) ops (cache_abs c)))"
    using assms(3,4) by (intro lru_at_run) auto
  moreover note run = cache_run_refines [OF set(1), of ops, unfolded set(3,4)]
  ultimately have "lru_at (key, r, t + lifetime) ?T (cache_abs (snd (run_ops cache_step ops c)))"
    by (metis snd_conv)
  then show ?thesis using run assms(5) by (auto simp: fst_Cache_Get lru_lookup_Some lru_at_def)
qed

text \<open>C32 (safety). Cached responses are not shared: with headers and bodies as heap objects that
  callers may overwrite at any time, the objects they passed to \<^verbatim>\<open>Set\<close> and those they got from
  \<^verbatim>\<open>Get\<close> included, every step has the effect of the cache of immutable values; in particular a
  write by a caller changes nothing the cache returns later.\<close>

theorem cached_responses_not_aliased:
  assumes "New lifetime limit = Inr c" "w = snd (run_ops world_step evs (world_start h c))"
  shows "(fst (world_step ev w), world_abs (snd (world_step ev w))) = value_step w ev (world_abs w)"
proof -
  have "entries c = []" using assms(1) by (auto simp: New_def newWithClock_def split: if_splits)
  then have "world_inv (world_start h c)" by (simp add: world_inv_def world_start_def stored_responses_def)
  then show ?thesis unfolding assms(2) using world_run_inv world_step_sound by blast
qed

section \<open>Concrete runs\<close>

definition sample_cache :: "string Cache" where
  "sample_cache = \<lparr>ttl = 10, maxEntries = 2, entries = [], recency = []\<rparr>"

lemma sample_cache_new: "New 10 2 = Inr sample_cache"
  by (simp add: New_def newWithClock_def sample_cache_def)

definition sample_ops :: "string cache_op list" where
  "sample_ops = [OpSet 0 ''a'' ''A'', OpSet 1 ''b'' ''B'', OpGet 2 ''a'', OpSet 3 ''c'' ''C'', OpGet 4 ''b'', OpGet 4 ''a'']"

theorem cache_refines_lru_witness:
  "fst (run_ops cache_step sample_ops sample_cache) = [None, None, Some ''A'', None, None, Some ''A'']"
proof -
  have "fst (run_ops (lru_step 10 (nat 2)) sample_ops []) = [None, None, Some ''A'', None, None, Some ''A'']"
    by code_simp
  with cache_refines_lru [OF sample_cache_new, of sample_ops] show ?thesis by (metis fst_conv)
qed

theorem cache_bounded_witness:
  "int (length (entries (snd (run_ops cache_step sample_ops sample_cache)))) \<le> 2"
  using cache_bounded [OF sample_cache_new refl] by blast

theorem cache_hit_is_latest_witness:
  "\<exists>t. last_set ''a'' sample_ops = Some (t, ''A'') \<and> 5 < t + 10"
proof -
  have "fst (Cache_Get 5 ''a'' (snd (run_ops cache_step sample_ops sample_cache))) = Some ''A''" by code_simp
  then show ?thesis by (rule cache_hit_is_latest [OF sample_cache_new])
qed

theorem cache_keeps_recent_witness:
  "fst (Cache_Get 9 ''a'' (snd (run_ops cache_step [OpGet 1 ''z'', OpSet 2 ''z'' ''Z'', OpGet 3 ''z'']
      (Cache_Set 0 ''a'' ''A'' (snd (run_ops cache_step [] sample_cache)))))) = Some ''A''"
proof -
  have "op_key ` set [OpGet 1 ''z'', OpSet 2 ''z'' ''Z'', OpGet 3 ''z''] - {''a''} = {''z''}" by auto
  then show ?thesis
    by (intro cache_keeps_recent [OF sample_cache_new refl]) (simp_all add: op_keeps_def)
qed

definition sample_heap :: "string heap" where
  "sample_heap = \<lparr>hdr_at = (\<lambda>_. ''''), body_at = (\<lambda>_. ''''), fresh = 0\<rparr>"

definition sample_world :: "string cache_world" where
  "sample_world = snd (run_ops world_step
    [CallerAlloc ''h'' ''body'', CallerSet 0 ''k'' 200 0 0]
    (world_start sample_heap \<lparr>ttl = 10, maxEntries = 2, entries = [], recency = []\<rparr>))"

theorem cached_responses_not_aliased_witness:
  "world_abs (snd (world_step (CallerWrite 0 ''x'' ''changed'') sample_world)) = world_abs sample_world
    \<and> fst (world_step (CallerGet 5 ''k'') sample_world) = Some (200, ''h'', ''body'')"
proof -
  have new: "New 10 2 = Inr \<lparr>ttl = 10, maxEntries = 2, entries = [], recency = []\<rparr>"
    by (simp add: New_def newWithClock_def)
  have "fst (world_step (CallerGet 5 ''k'') sample_world) = Some (200, ''h'', ''body'')"
    by (simp add: sample_world_def world_start_def sample_heap_def Cache_Set_ref_def Cache_Get_ref_def
        cloneResponse_def deref_def Cache_Set_def Cache_Get_def Let_def)
  with cached_responses_not_aliased [OF new sample_world_def, of "CallerWrite 0 ''x'' ''changed''"]
  show ?thesis by simp
qed

end
