(* ===== verification/Url.thy ===== *)
theory Url
  imports Go_Strings
begin

text \<open>
  The part of \<^verbatim>\<open>net/url\<close> the gateway uses on URLs that are already parsed: the fields of \<^verbatim>\<open>url.URL\<close>,
  the escaping of paths and the methods \<^verbatim>\<open>EscapedPath\<close> and \<^verbatim>\<open>RequestURI\<close>. Parsing is a parameter
  wherever it is used.
\<close>

record URL =
  Scheme :: string
  Opaque :: string
  hasUser :: bool
  Host :: string
  Path :: string
  RawPath :: string
  ForceQuery :: bool
  RawQuery :: string
  Fragment :: string

section \<open>Path escaping\<close>

definition shouldEscape :: "char \<Rightarrow> bool" where
  "shouldEscape c =
    (let n = of_char c :: nat
     in \<not> (97 \<le> n \<and> n \<le> 122 \<or> 65 \<le> n \<and> n \<le> 90 \<or> 48 \<le> n \<and> n \<le> 57 \<or>
          c \<in> set ''-_.~$&+,/:;=@''))"

definition hex_digit :: "nat \<Rightarrow> char" where
  "hex_digit n = char_of (if n < 10 then 48 + n else 55 + n)"

definition unhex :: "char \<Rightarrow> nat option" where
  "unhex c =
    (let n = of_char c :: nat
     in if 48 \<le> n \<and> n \<le> 57 then Some (n - 48)
        else if 97 \<le> n \<and> n \<le> 102 then Some (n - 87)
        else if 65 \<le> n \<and> n \<le> 70 then Some (n - 55)
        else None)"

definition escape_char :: "char \<Rightarrow> string" where
  "escape_char c =
    (if shouldEscape c
     then let n = of_char c :: nat in [CHR ''%'', hex_digit (n div 16), hex_digit (n mod 16)]
     else [c])"

definition escape :: "string \<Rightarrow> string" where
  "escape s = concat (map escape_char s)"

fun unescape :: "string \<Rightarrow> string option" where
  "unescape [] = Some []"
| "unescape (c # s) =
    (if c = CHR ''%'' then
       (case s of
          a # b # s' \<Rightarrow>
            (case (unhex a, unhex b) of
               (Some x, Some y) \<Rightarrow> map_option ((#) (char_of (16 * x + y))) (unescape s')
             | _ \<Rightarrow> None)
        | _ \<Rightarrow> None)
     else map_option ((#) c) (unescape s))"

definition validEncoded :: "string \<Rightarrow> bool" where
  "validEncoded s =
    list_all (\<lambda>c. c \<in> set ''!$&()*+,;=:@[]%'' \<or> c = CHR 0x27 \<or> \<not> shouldEscape c) s"

definition EscapedPath :: "URL \<Rightarrow> string" where
  "EscapedPath u =
    (if RawPath u \<noteq> [] \<and> validEncoded (RawPath u) \<and> unescape (RawPath u) = Some (Path u) then RawPath u
     else if Path u = ''*'' then ''*''
     else escape (Path u))"

definition RequestURI :: "URL \<Rightarrow> string" where
  "RequestURI u =
    (let result =
       (if Opaque u = [] then (if EscapedPath u = [] then ''/'' else EscapedPath u)
        else if prefix ''//'' (Opaque u) then Scheme u @ '':'' @ Opaque u
        else Opaque u)
     in if ForceQuery u \<or> RawQuery u \<noteq> [] then result @ ''?'' @ RawQuery u else result)"

lemma of_char_hex_digit: "n < 16 \<Longrightarrow> of_char (hex_digit n) = (if n < 10 then 48 + n else 55 + n)"
  by (simp add: hex_digit_def)

lemma unhex_hex_digit: "n < 16 \<Longrightarrow> unhex (hex_digit n) = Some n"
  by (simp add: unhex_def of_char_hex_digit Let_def)

lemma percent_escaped: "shouldEscape CHR ''%''"
  by code_simp

lemma unescape_escape: "unescape (escape s) = Some s"
proof (induction s)
  case (Cons c s)
  have "of_char c < (16 * 16 :: nat)" by simp
  then have nibbles: "of_char c div 16 < (16 :: nat)" "of_char c mod 16 < (16 :: nat)"
    by (rule less_mult_imp_div_less) simp
  show ?case
  proof (cases "shouldEscape c")
    case True
    then have "escape (c # s) = [CHR ''%'', hex_digit (of_char c div 16), hex_digit (of_char c mod 16)] @ escape s"
      by (simp add: escape_def escape_char_def Let_def)
    then show ?thesis using Cons nibbles by (simp add: unhex_hex_digit)
  next
    case False
    then have "c \<noteq> CHR ''%''" using percent_escaped by blast
    then show ?thesis using Cons False by (simp add: escape_def escape_char_def)
  qed
qed (simp add: escape_def)

lemma escape_inj: "escape s = escape t \<Longrightarrow> s = t"
  using unescape_escape by (metis option.inject)

text \<open>The escaped path determines the path.\<close>

lemma unescape_EscapedPath: "unescape (EscapedPath u) = Some (Path u)"
  by (auto simp: EscapedPath_def unescape_escape)

end
