(* ===== verification/Http.thy ===== *)
theory Http
  imports Url
begin

text \<open>
  The part of \<^verbatim>\<open>net/http\<close> the gateway's handlers use: header maps with canonical keys, the request
  fields that are read, and response writers.

  A writer is the server's own response, or a wrapper of the gateway around another writer; calls on
  a wrapper reach the inner writer as the code forwards them, and all of them share the header map of
  the innermost one. The server's writer takes the first final status, ignores later ones and passes
  informational ones on. It panics on a status below 100 or above 999. Writing a body can fail or fall short at any time: \<open>write_faults\<close> says for
  each write how many bytes it still takes, in the order of the writes, with no entry meaning that it
  succeeds. A handler can take the connection over to speak another protocol, after which the writer takes nothing.
\<close>

section \<open>Headers\<close>

type_synonym Header = "(string, string list) gomap"

definition is_token_char :: "char \<Rightarrow> bool" where
  "is_token_char c =
    (let n = of_char c :: nat
     in 97 \<le> n \<and> n \<le> 122 \<or> 65 \<le> n \<and> n \<le> 90 \<or> 48 \<le> n \<and> n \<le> 57 \<or>
        n \<in> {33, 35, 36, 37, 38, 39, 42, 43, 45, 46, 94, 95, 96, 124, 126})"

fun canonical_bytes :: "bool \<Rightarrow> string \<Rightarrow> string" where
  "canonical_bytes upper [] = []"
| "canonical_bytes upper (c # s) =
    (if upper then ascii_upper c else ascii_lower c) # canonical_bytes (c = CHR ''-'') s"

definition CanonicalHeaderKey :: "string \<Rightarrow> string" where
  "CanonicalHeaderKey s = (if list_all is_token_char s then canonical_bytes True s else s)"

definition Header_Values :: "Header \<Rightarrow> string \<Rightarrow> string list" where
  "Header_Values h key = (case map_of h (CanonicalHeaderKey key) of None \<Rightarrow> [] | Some vs \<Rightarrow> vs)"

definition Header_Get :: "Header \<Rightarrow> string \<Rightarrow> string" where
  "Header_Get h key = (case Header_Values h key of [] \<Rightarrow> '''' | v # _ \<Rightarrow> v)"

definition Header_Set :: "string \<Rightarrow> string \<Rightarrow> Header \<Rightarrow> Header" where
  "Header_Set key v h = AList.update (CanonicalHeaderKey key) [v] h"

definition Header_Add :: "string \<Rightarrow> string \<Rightarrow> Header \<Rightarrow> Header" where
  "Header_Add key v h = AList.update (CanonicalHeaderKey key) (Header_Values h key @ [v]) h"

definition Header_Del :: "string \<Rightarrow> Header \<Rightarrow> Header" where
  "Header_Del key h = AList.delete (CanonicalHeaderKey key) h"

text \<open>The canonical form of the header names in the sources.\<close>

lemma canonical_names [simp]:
  "CanonicalHeaderKey ''Access-Control-Allow-Credentials'' = ''Access-Control-Allow-Credentials''"
  "CanonicalHeaderKey ''Access-Control-Allow-Headers'' = ''Access-Control-Allow-Headers''"
  "CanonicalHeaderKey ''Access-Control-Allow-Methods'' = ''Access-Control-Allow-Methods''"
  "CanonicalHeaderKey ''Access-Control-Allow-Origin'' = ''Access-Control-Allow-Origin''"
  "CanonicalHeaderKey ''Access-Control-Expose-Headers'' = ''Access-Control-Expose-Headers''"
  "CanonicalHeaderKey ''Access-Control-Max-Age'' = ''Access-Control-Max-Age''"
  "CanonicalHeaderKey ''Access-Control-Request-Headers'' = ''Access-Control-Request-Headers''"
  "CanonicalHeaderKey ''Access-Control-Request-Method'' = ''Access-Control-Request-Method''"
  "CanonicalHeaderKey ''Vary'' = ''Vary''"
  "CanonicalHeaderKey ''Origin'' = ''Origin''"
  "CanonicalHeaderKey ''Content-Type'' = ''Content-Type''"
  "CanonicalHeaderKey ''Content-Length'' = ''Content-Length''"
  "CanonicalHeaderKey ''X-Content-Type-Options'' = ''X-Content-Type-Options''"
  "CanonicalHeaderKey ''Retry-After'' = ''Retry-After''"
  "CanonicalHeaderKey ''X-Cache'' = ''X-Cache''"
  "CanonicalHeaderKey ''X-Gateway'' = ''X-Gateway''"
  "CanonicalHeaderKey ''Allow'' = ''Allow''"
  "CanonicalHeaderKey ''Cache-Control'' = ''Cache-Control''"
  "CanonicalHeaderKey ''Connection'' = ''Connection''"
  "CanonicalHeaderKey ''Forwarded'' = ''Forwarded''"
  "CanonicalHeaderKey ''X-Forwarded-For'' = ''X-Forwarded-For''"
  "CanonicalHeaderKey ''X-Forwarded-Host'' = ''X-Forwarded-Host''"
  "CanonicalHeaderKey ''X-Forwarded-Proto'' = ''X-Forwarded-Proto''"
  "CanonicalHeaderKey ''Upgrade'' = ''Upgrade''"
  "CanonicalHeaderKey ''Te'' = ''Te''"
  "CanonicalHeaderKey ''User-Agent'' = ''User-Agent''"
  "CanonicalHeaderKey ''Trailer'' = ''Trailer''"
  "CanonicalHeaderKey ''X-Request-ID'' = ''X-Request-Id''"
  "CanonicalHeaderKey ''X-API-Key'' = ''X-Api-Key''"
  "CanonicalHeaderKey ''WWW-Authenticate'' = ''Www-Authenticate''"
  by code_simp+

lemma Header_Values_Set [simp]:
  "Header_Values (Header_Set k v h) k' =
    (if CanonicalHeaderKey k' = CanonicalHeaderKey k then [v] else Header_Values h k')"
  by (simp add: Header_Values_def Header_Set_def update_conv')

lemma Header_Values_Del [simp]:
  "Header_Values (Header_Del k h) k' =
    (if CanonicalHeaderKey k' = CanonicalHeaderKey k then [] else Header_Values h k')"
  by (simp add: Header_Values_def Header_Del_def delete_conv')

lemma Header_Values_Add [simp]:
  "Header_Values (Header_Add k v h) k' =
    (if CanonicalHeaderKey k' = CanonicalHeaderKey k then Header_Values h k @ [v] else Header_Values h k')"
  by (simp add: Header_Values_def Header_Add_def update_conv')

lemma Header_Get_Set [simp]:
  "Header_Get (Header_Set k v h) k' =
    (if CanonicalHeaderKey k' = CanonicalHeaderKey k then v else Header_Get h k')"
  by (simp add: Header_Get_def)

lemma Header_Get_Del [simp]:
  "Header_Get (Header_Del k h) k' =
    (if CanonicalHeaderKey k' = CanonicalHeaderKey k then '''' else Header_Get h k')"
  by (simp add: Header_Get_def)

lemma gomap_wf_header [simp, intro]:
  "gomap_wf h \<Longrightarrow> gomap_wf (Header_Set k v h)" "gomap_wf h \<Longrightarrow> gomap_wf (Header_Add k v h)"
  "gomap_wf h \<Longrightarrow> gomap_wf (Header_Del k h)"
  by (simp_all add: Header_Set_def Header_Add_def Header_Del_def)

section \<open>Requests\<close>

text \<open>\<open>hasBody\<close>: the body is neither nil nor \<^verbatim>\<open>http.NoBody\<close>; \<open>overTLS\<close>: \<^verbatim>\<open>request.TLS\<close> is not nil;
  \<open>ctxMetadata\<close>: the pointer to the gateway's metadata in the request's context, if there is one.\<close>

record Request =
  Method :: string
  requestURL :: URL
  RequestHeader :: Header
  hasBody :: bool
  RequestHost :: string
  overTLS :: bool
  RemoteAddr :: string
  ctxMetadata :: "nat option"

section \<open>Response writers\<close>

text \<open>The server's writer: the header map, the status and the headers as they were sent, informational
  statuses, the body bytes it took, and what happens to the coming writes: \<open>Some n\<close> is a write that takes at most
  \<open>n\<close> bytes and fails, as it does when the client is gone or when the status allows no body. For a
  \<^verbatim>\<open>HEAD\<close> request the server takes the body and does not transmit it. A header that is changed after it was sent
  has no effect on the response. \<open>refused\<close> are the statuses on which \<^verbatim>\<open>WriteHeader\<close> has panicked: a call has
  panicked when it has added to them, and its caller goes no further. \<open>hijacked\<close>: the connection was taken over.\<close>

record base_writer =
  base_header :: Header
  base_status :: "int option"
  sent_header :: Header
  informational :: "int list"
  base_body :: bytes
  write_faults :: "nat option list"
  refused :: "int list"
  hijacked :: bool

definition is_informational :: "int \<Rightarrow> bool" where
  "is_informational status = (100 \<le> status \<and> status < 200 \<and> status \<noteq> 101)"

definition valid_status :: "int \<Rightarrow> bool" where
  "valid_status status = (100 \<le> status \<and> status \<le> 999)"

definition base_WriteHeader :: "int \<Rightarrow> base_writer \<Rightarrow> base_writer" where
  "base_WriteHeader status b =
    (if base_status b \<noteq> None then b
     else if \<not> valid_status status then b\<lparr>refused := refused b @ [status]\<rparr>
     else if is_informational status then b\<lparr>informational := informational b @ [status]\<rparr>
     else b\<lparr>base_status := Some status, sent_header := base_header b\<rparr>)"

text \<open>The number of bytes taken and whether there was an error.\<close>

definition base_Write :: "bytes \<Rightarrow> base_writer \<Rightarrow> nat \<times> bool \<times> base_writer" where
  "base_Write data b =
    (let b = (if base_status b = None then base_WriteHeader 200 b else b)
     in if hijacked b then (0, True, b)
        else case write_faults b of
          Some n # faults \<Rightarrow>
            let k = min n (length data)
            in (k, True, b\<lparr>base_body := base_body b @ take k data, write_faults := faults\<rparr>)
        | None # faults \<Rightarrow> (length data, False, b\<lparr>base_body := base_body b @ data, write_faults := faults\<rparr>)
        | [] \<Rightarrow> (length data, False, b\<lparr>base_body := base_body b @ data\<rparr>))"

text \<open>Taking the connection over to answer with 101, which \<^verbatim>\<open>httputil.ReverseProxy\<close> does for an upgrade, with the
  headers the map then has. It does so only on a response that has not been started.\<close>

definition base_SwitchProtocols :: "base_writer \<Rightarrow> base_writer" where
  "base_SwitchProtocols b =
    (if base_status b \<noteq> None then b
     else b\<lparr>base_status := Some 101, sent_header := base_header b, hijacked := True\<rparr>)"

lemma valid_status_codes [simp]: "valid_status (numeral k) \<longleftrightarrow> (100 :: int) \<le> numeral k \<and> (numeral k :: int) \<le> 999"
  by (simp add: valid_status_def)

lemma base_WriteHeader_once: "base_status b = Some s \<Longrightarrow> base_WriteHeader status b = b"
  by (simp add: base_WriteHeader_def)

end
