(* ===== verification/Routing.thy ===== *)
theory Routing
  imports Http Rate_Limiter Response_Cache
begin

text \<open>
  Routes and the rewriting of requests, the functions of \<^verbatim>\<open>src/internal/proxy/gateway.go\<close> that need no
  backend: route matching, joining of paths, the outgoing URL, client keys and the \<^verbatim>\<open>Retry-After\<close>
  value.
\<close>

section \<open>Model\<close>

text \<open>A route owns its limiter and its cache; its pool is shared and named by its key in
  \<^verbatim>\<open>Gateway.pools\<close>. \<open>protected\<close> is \<^verbatim>\<open>cfg.Routes[index].Protected\<close>, which the constructor turns into the
  first middleware of the route's handler.\<close>

record route =
  pathPrefix :: string
  route_pool :: string
  limiter :: "ClientLimiter option"
  responseCache :: "Header response_value Cache option"
  retryAfterHeader :: string
  protected :: bool

definition withDefault :: "duration \<Rightarrow> duration \<Rightarrow> duration" where
  "withDefault value fallback = (if value \<le> 0 then fallback else value)"

definition prefixMatches :: "string \<Rightarrow> string \<Rightarrow> bool" where
  "prefixMatches pre path =
    (pre = ''/'' \<or> path = pre \<or> HasPrefix path (TrimRight pre CHR ''/'' @ ''/''))"

fun matchRoute_loop :: "route list \<Rightarrow> nat list \<Rightarrow> string \<Rightarrow> nat option \<Rightarrow> nat option" where
  "matchRoute_loop rs [] path matched = matched"
| "matchRoute_loop rs (i # is) path matched =
    matchRoute_loop rs is path
      (if \<not> prefixMatches (pathPrefix (rs ! i)) path then matched
       else
         (case matched of
            None \<Rightarrow> Some i
          | Some m \<Rightarrow>
              if length (pathPrefix (rs ! m)) < length (pathPrefix (rs ! i)) then Some i else matched))"

definition matchRoute :: "route list \<Rightarrow> string \<Rightarrow> nat option" where
  "matchRoute rs path = matchRoute_loop rs [0..<length rs] path None"

definition joinPath :: "string \<Rightarrow> string \<Rightarrow> string" where
  "joinPath base path =
    (if base = '''' \<or> base = ''/'' then path
     else if path = '''' \<or> path = ''/'' then base
     else TrimRight base CHR ''/'' @ ''/'' @ TrimLeft path CHR ''/'')"

text \<open>The assignments in the order of the code: \<^verbatim>\<open>EscapedPath\<close> of the request is read after its
  \<^verbatim>\<open>Path\<close> has been replaced.\<close>

definition rewriteRequestURL :: "URL \<Rightarrow> URL \<Rightarrow> URL" where
  "rewriteRequestURL u target =
    (let u = u\<lparr>Scheme := Scheme target\<rparr>;
         u = u\<lparr>Host := Host target\<rparr>;
         u = u\<lparr>Path := joinPath (Path target) (Path u)\<rparr>;
         u = u\<lparr>RawPath := joinPath (EscapedPath target) (EscapedPath u)\<rparr>;
         u = (if RawPath u = Path u then u\<lparr>RawPath := ''''\<rparr> else u)
     in if RawQuery target = '''' then u
        else if RawQuery u = '''' then u\<lparr>RawQuery := RawQuery target\<rparr>
        else u\<lparr>RawQuery := RawQuery target @ ''&'' @ RawQuery u\<rparr>)"

definition backendLogValue :: "URL \<Rightarrow> string" where
  "backendLogValue target = Scheme target @ ''://'' @ Host target @ EscapedPath target"

text \<open>\<^verbatim>\<open>netip.ParseAddrPort\<close> and \<^verbatim>\<open>netip.ParseAddr\<close>, with the unmapped address printed, are the
  arguments.\<close>

definition clientKeyFromRemoteAddr ::
  "(string \<Rightarrow> string option) \<Rightarrow> (string \<Rightarrow> string option) \<Rightarrow> string \<Rightarrow> string" where
  "clientKeyFromRemoteAddr parseAddrPort parseAddr remoteAddr =
    (case parseAddrPort remoteAddr of
       Some a \<Rightarrow> a
     | None \<Rightarrow> (case parseAddr remoteAddr of Some a \<Rightarrow> a | None \<Rightarrow> TrimSpace remoteAddr))"

definition retryAfterValue :: "float64 \<Rightarrow> string" where
  "retryAfterValue requestsPerSecond =
    (let seconds = Ceil (Fin 1 / requestsPerSecond);
         seconds = (if seconds < Fin 1 then Fin 1 else seconds)
     in if float64_of_int maxInt64 \<le> seconds then FormatInt maxInt64
        else FormatInt (int64_of_float seconds))"

section \<open>Route matching\<close>

definition best_route :: "route list \<Rightarrow> string \<Rightarrow> nat \<Rightarrow> nat option \<Rightarrow> bool" where
  "best_route rs path n r =
    (case r of
       None \<Rightarrow> \<forall>j < n. \<not> prefixMatches (pathPrefix (rs ! j)) path
     | Some i \<Rightarrow> i < n \<and> prefixMatches (pathPrefix (rs ! i)) path \<and>
         (\<forall>j < n. prefixMatches (pathPrefix (rs ! j)) path \<longrightarrow>
            length (pathPrefix (rs ! j)) \<le> length (pathPrefix (rs ! i))) \<and>
         (\<forall>j < i. prefixMatches (pathPrefix (rs ! j)) path \<longrightarrow>
            length (pathPrefix (rs ! j)) < length (pathPrefix (rs ! i))))"

lemma matchRoute_loop_append:
  "matchRoute_loop rs (is @ js) path r = matchRoute_loop rs js path (matchRoute_loop rs is path r)"
  by (induction "is" arbitrary: r) simp_all

lemma matchRoute_loop_best: "best_route rs path n (matchRoute_loop rs [0..<n] path None)"
proof (induction n)
  case (Suc n)
  then show ?case
    by (fastforce simp: matchRoute_loop_append best_route_def less_Suc_eq split: option.splits)
qed (simp add: best_route_def)

text \<open>A prefix matches whole path segments.\<close>

lemma prefixMatches_segments:
  assumes "pre \<noteq> []" "last pre \<noteq> CHR ''/''"
  shows "prefixMatches pre path \<longleftrightarrow> path = pre \<or> (\<exists>rest. path = pre @ ''/'' @ rest)"
proof -
  have "TrimRight pre CHR ''/'' = pre" using assms(2) by (simp add: TrimRight_self)
  then show ?thesis using assms by (auto simp: prefixMatches_def prefix_def)
qed

section \<open>Escaped paths\<close>

lemma hex_digit_plain: "n < 16 \<Longrightarrow> \<not> shouldEscape (hex_digit n)"
  by (auto simp: shouldEscape_def of_char_hex_digit Let_def)

lemma validEncoded_escape: "validEncoded (escape s)"
proof (induction s)
  case (Cons c s)
  have "of_char c < (16 * 16 :: nat)" by simp
  then have "of_char c div 16 < (16 :: nat)" "of_char c mod 16 < (16 :: nat)"
    by (rule less_mult_imp_div_less) simp
  then have "validEncoded (escape_char c)"
    by (simp add: validEncoded_def escape_char_def Let_def hex_digit_plain)
  with Cons show ?case by (simp add: escape_def validEncoded_def)
qed (simp add: escape_def validEncoded_def)

lemma validEncoded_EscapedPath: "validEncoded (EscapedPath u)"
proof -
  have "validEncoded ''*''" by code_simp
  then show ?thesis by (simp add: EscapedPath_def validEncoded_escape)
qed

lemma EscapedPath_Nil: "EscapedPath u = [] \<longleftrightarrow> Path u = []"
proof -
  have "escape s = [] \<longleftrightarrow> s = []" for s by (cases s) (simp_all add: escape_def escape_char_def Let_def)
  then have "EscapedPath u = [] \<Longrightarrow> Path u = []" "Path u = [] \<Longrightarrow> RawPath u = [] \<Longrightarrow> EscapedPath u = []"
    using unescape_EscapedPath [of u] by (simp_all add: EscapedPath_def)
  moreover have "unescape s = Some [] \<Longrightarrow> s = []" for s by (cases s) (auto split: list.splits option.splits if_splits)
  ultimately show ?thesis using unescape_EscapedPath [of u] by metis
qed

lemma plain_target:
  assumes "RawPath target = ''''" "Path target = '''' \<or> Path target = ''/''"
  shows "joinPath (Path target) p = p" "joinPath (EscapedPath target) q = q"
proof -
  have "escape ''/'' = ''/''" by code_simp
  then show "joinPath (Path target) p = p" "joinPath (EscapedPath target) q = q"
    using assms by (auto simp: joinPath_def EscapedPath_def escape_def)
qed

lemma EscapedPath_cong: "RawPath u = RawPath v \<Longrightarrow> Path u = Path v \<Longrightarrow> EscapedPath u = EscapedPath v"
  by (simp add: EscapedPath_def)

lemma rewrite_plain_target:
  assumes "RawPath target = ''''" "Path target = '''' \<or> Path target = ''/''"
  defines "r \<equiv> \<lambda>u. rewriteRequestURL u target"
  shows "Path (r u) = Path u" and "EscapedPath u \<noteq> Path u \<Longrightarrow> EscapedPath (r u) = EscapedPath u"
proof -
  have esc: "EscapedPath (u\<lparr>Scheme := s, Host := h\<rparr>) = EscapedPath u" for s h
    by (rule EscapedPath_cong) simp_all
  have raw: "RawPath (r u) = (if EscapedPath u = Path u then '''' else EscapedPath u)"
    by (simp add: r_def rewriteRequestURL_def Let_def plain_target [OF assms(1,2)] esc)
  show path: "Path (r u) = Path u"
    by (simp add: r_def rewriteRequestURL_def Let_def plain_target [OF assms(1,2)])
  show "EscapedPath u \<noteq> Path u \<Longrightarrow> EscapedPath (r u) = EscapedPath u"
    using EscapedPath_Nil [of u]
    by (cases "EscapedPath u = []")
      (simp_all add: EscapedPath_def [of "r u"] raw path validEncoded_EscapedPath unescape_EscapedPath)
qed

section \<open>Retry-After\<close>

lemma float64_maxInt64: "float64_of_int maxInt64 = Fin (2 ^ 63)"
  by code_simp

lemma retryAfter_cases:
  assumes "0 < r"
  obtains (far) "retryAfterValue (Fin r) = FormatInt maxInt64" "2 ^ 63 \<le> \<lceil>fl_round (1 / r)\<rceil>"
  | (near) n where "retryAfterValue (Fin r) = FormatInt n" "n = max 1 \<lceil>fl_round (1 / r)\<rceil>" "n < 2 ^ 63"
proof -
  let ?q = "fl_round (1 / r)"
  have div: "Fin 1 / Fin r = fl (1 / r)" using assms by (simp add: divide_float64_def)
  consider "fl (1 / r) = PosInf" "2 ^ 1024 \<le> ?q" | "fl (1 / r) = Fin ?q"
    by (rule fl_nonneg_cases [of "1 / r"]) (use assms in simp_all)
  then show thesis
  proof cases
    case 1
    have "of_int (2 ^ 63) \<le> ?q" using order_trans [OF _ 1(2), of "2 ^ 63"] power_increasing [of 63 1024 "2 :: rat"] by simp
    then have "2 ^ 63 \<le> \<lceil>?q\<rceil>" by linarith
    with 1 show thesis
      by (intro far) (simp_all add: retryAfterValue_def div Let_def float64_maxInt64 less_float64_def less_eq_float64_def)
  next
    case 2
    define n where "n = max 1 \<lceil>?q\<rceil>"
    have sec: "(if Ceil (Fin ?q) < Fin 1 then Fin 1 else Ceil (Fin ?q)) = Fin (of_int n)"
      by (simp add: n_def less_float64_def max_def) 
    have "retryAfterValue (Fin r) = (if (2 :: rat) ^ 63 \<le> of_int n then FormatInt maxInt64 else FormatInt n)"
      unfolding retryAfterValue_def div 2 Let_def sec float64_maxInt64
      by (auto simp: less_eq_float64_def n_def)
    then show thesis
    proof (cases "(2 :: rat) ^ 63 \<le> of_int n")
      case False
      then have "n < 2 ^ 63" by simp
      then show thesis using near [of n] False \<open>retryAfterValue (Fin r) = _\<close> n_def by simp
    next
      case True
      then have "2 ^ 63 \<le> n" by (metis of_int_le_iff of_int_numeral of_int_power)
      then have "2 ^ 63 \<le> \<lceil>?q\<rceil>" by (simp add: n_def max_def split: if_splits)
      then show thesis using far True \<open>retryAfterValue (Fin r) = _\<close> by simp
    qed
  qed
qed

section \<open>Properties\<close>

text \<open>C34 (functional). Requests go to the most specific route: the matched route's prefix matches the
  path, no matching prefix is longer, and among equally long ones it is the first configured; there
  is no route exactly when no prefix matches.\<close>

theorem matchRoute_most_specific:
  "case matchRoute rs path of
     None \<Rightarrow> \<forall>j < length rs. \<not> prefixMatches (pathPrefix (rs ! j)) path
   | Some i \<Rightarrow> i < length rs \<and> prefixMatches (pathPrefix (rs ! i)) path
       \<and> (\<forall>j < length rs. prefixMatches (pathPrefix (rs ! j)) path \<longrightarrow>
            length (pathPrefix (rs ! j)) \<le> length (pathPrefix (rs ! i)))
       \<and> (\<forall>j < i. prefixMatches (pathPrefix (rs ! j)) path \<longrightarrow>
            length (pathPrefix (rs ! j)) < length (pathPrefix (rs ! i)))"
  using matchRoute_loop_best [of rs path "length rs"] by (simp add: matchRoute_def best_route_def)

text \<open>A route prefix covers whole path segments: one without a trailing slash
  matches its own path and the paths below it, so \<^verbatim>\<open>/api\<close> never matches \<^verbatim>\<open>/apix\<close>.\<close>

theorem prefix_covers_segments:
  assumes "pre \<noteq> []" "last pre \<noteq> CHR ''/''"
  shows "prefixMatches pre path \<longleftrightarrow> path = pre \<or> (\<exists>rest. path = pre @ ''/'' @ rest)"
  using assms by (rule prefixMatches_segments)

text \<open>Rewriting for an upstream without a base path: the upstream sees the same path
  with the same escapes, at the upstream's scheme and host, and the upstream's own query precedes
  the request's.\<close>

theorem rewrite_keeps_path:
  assumes "RawPath target = ''''" "Path target = '''' \<or> Path target = ''/''"
  shows "Path (rewriteRequestURL u target) = Path u
    \<and> (EscapedPath u \<noteq> Path u \<longrightarrow> EscapedPath (rewriteRequestURL u target) = EscapedPath u)
    \<and> Scheme (rewriteRequestURL u target) = Scheme target
    \<and> Host (rewriteRequestURL u target) = Host target
    \<and> RawQuery (rewriteRequestURL u target) =
      Join (filter (\<lambda>q. q \<noteq> '''') [RawQuery target, RawQuery u]) ''&''"
  using rewrite_plain_target [OF assms, of u] by (simp add: rewriteRequestURL_def Let_def)

text \<open>C39 (bounds). The \<^verbatim>\<open>Retry-After\<close> value is the smallest whole number of seconds, at least one, after which the
  configured rate has earned a token, up to the one rounding of the division: waiting that long earns it, and waiting
  a second less - where that is not zero - does not. Only when the wait would exceed the largest \<^verbatim>\<open>int64\<close>, about 292 billion
  years, the value is capped there, and then it is too short rather than too long.\<close>

theorem retry_after_earns_a_token:
  assumes "0 < r"
  shows "\<exists>n. retryAfterValue (Fin r) = FormatInt n \<and> 1 \<le> n \<and> n \<le> maxInt64
    \<and> (n = 1 \<or> of_int (n - 1) < (1 / r) * (1 + fl_unit) + fl_tiny)
    \<and> (n = maxInt64 \<or> 1 \<le> r * (of_int n + fl_tiny) + fl_unit)"
proof -
  have up: "fl_round (1 / r) \<le> (1 / r) * (1 + fl_unit) + fl_tiny" using fl_round_le [of "1 / r"] assms by simp
  have least: "of_int (n - 1) < (1 / r) * (1 + fl_unit) + fl_tiny" if "n \<le> \<lceil>fl_round (1 / r)\<rceil>" for n
  proof -
    have "of_int (n - 1) < fl_round (1 / r)" using that by linarith
    then show ?thesis using up by (rule less_le_trans)
  qed
  show ?thesis
  proof (cases rule: retryAfter_cases [OF assms, case_names far near])
    case far
    then show ?thesis using least [of maxInt64] by (intro exI [of _ maxInt64]) (simp add: maxInt64_def)
  next
    case (near n)
    have "1 / r - fl_round (1 / r) \<le> fl_unit * (1 / r) + fl_tiny"
      using fl_round_error [of "1 / r"] assms by (simp add: abs_le_iff)
    moreover have "fl_round (1 / r) \<le> of_int n" using near(2) le_of_int_ceiling [of "fl_round (1 / r)"] by linarith
    ultimately have "1 / r \<le> of_int n + fl_tiny + fl_unit * (1 / r)" by linarith
    from mult_left_mono [OF this, of r] have "1 \<le> r * (of_int n + fl_tiny) + fl_unit"
      using assms by (simp add: distrib_left)
    moreover have "n = 1 \<or> n \<le> \<lceil>fl_round (1 / r)\<rceil>" using near(2) by linarith
    ultimately show ?thesis using near least [of n] by (intro exI [of _ n]) (auto simp: maxInt64_def)
  qed
qed

section \<open>Concrete runs\<close>

definition sample_route :: "string \<Rightarrow> route" where
  "sample_route p =
    \<lparr>pathPrefix = p, route_pool = ''main'', limiter = None, responseCache = None,
     retryAfterHeader = '''', protected = False\<rparr>"

theorem matchRoute_most_specific_witness:
  "matchRoute (map sample_route [''/'', ''/api'', ''/api/v1'', ''/apix'']) ''/api/v2'' = Some 1
    \<and> \<not> prefixMatches ''/api/v1'' ''/api/v2''"
proof -
  have m: "matchRoute (map sample_route [''/'', ''/api'', ''/api/v1'', ''/apix'']) ''/api/v2'' = Some 1" by code_simp
  moreover have "prefixMatches ''/api/v1'' ''/api/v2'' \<longrightarrow> length ''/api/v1'' \<le> length ''/api''"
    using matchRoute_most_specific [of "map sample_route [''/'', ''/api'', ''/api/v1'', ''/apix'']" "''/api/v2''"]
    unfolding m option.case by (auto simp: sample_route_def dest: spec [of _ 2])
  ultimately show ?thesis by simp
qed

theorem prefix_covers_segments_witness:
  "prefixMatches ''/api'' ''/api/users'' \<and> \<not> prefixMatches ''/api'' ''/apix''"
  using prefix_covers_segments [of "''/api''" "''/api/users''"] prefix_covers_segments [of "''/api''" "''/apix''"]
  by simp

definition sample_url :: "string \<Rightarrow> string \<Rightarrow> URL" where
  "sample_url p raw =
    \<lparr>Scheme = ''http'', Opaque = '''', hasUser = False, Host = ''h'', Path = p, RawPath = raw,
     ForceQuery = False, RawQuery = '''', Fragment = ''''\<rparr>"

theorem rewrite_keeps_path_witness:
  "EscapedPath (rewriteRequestURL (sample_url ''/a/b'' ''/a%2Fb'') (sample_url ''/'' '''')) = ''/a%2Fb''"
proof -
  have "EscapedPath (sample_url ''/a/b'' ''/a%2Fb'') = ''/a%2Fb''" "Path (sample_url ''/a/b'' ''/a%2Fb'') = ''/a/b''"
    by code_simp+
  with rewrite_keeps_path [of "sample_url ''/'' ''''" "sample_url ''/a/b'' ''/a%2Fb''"]
  show ?thesis by (simp add: sample_url_def)
qed

theorem retry_after_earns_a_token_witness:
  "\<exists>n. retryAfterValue (Fin (2 / 7)) = FormatInt n \<and> n = 4"
proof -
  obtain n where n: "retryAfterValue (Fin (2 / 7)) = FormatInt n" "1 \<le> n"
      "n = 1 \<or> of_int (n - 1) < (1 / (2 / 7)) * (1 + fl_unit) + fl_tiny"
      "n = maxInt64 \<or> 1 \<le> (2 / 7) * (of_int n + fl_tiny) + fl_unit"
    using retry_after_earns_a_token [of "2 / 7"] by auto
  have small: "fl_tiny \<le> 1 / 2 ^ 20" "fl_unit \<le> 1 / 2 ^ 20" by (simp_all add: fl_tiny_def fl_unit_def power_int_minus divide_simps)
  have "of_int (n - 1) < (4 :: rat)" using n(3) small unfolding fl_unit_def by auto
  moreover have "(3 :: rat) < of_int n" using n(4) small unfolding fl_unit_def by (auto simp: maxInt64_def field_simps)
  ultimately have "n = 4" by linarith
  with n(1) show ?thesis by blast
qed

text \<open>For an upstream with a base path the escapes of the request are lost: \<^verbatim>\<open>EscapedPath\<close> is read after
  \<^verbatim>\<open>Path\<close> has been replaced, so the raw path no longer belongs to it, and the new raw path has the
  base twice.\<close>

lemma rewrite_base_path_drops_escapes:
  "RawPath (rewriteRequestURL (sample_url ''/a/b'' ''/a%2Fb'') (sample_url ''/base'' '''')) = ''/base/base/a/b''
    \<and> EscapedPath (rewriteRequestURL (sample_url ''/a/b'' ''/a%2Fb'') (sample_url ''/base'' '''')) = ''/base/a/b''"
  by code_simp

end
