(* ===== verification/Upstream_Pool.thy ===== *)
theory Upstream_Pool
  imports Circuit_Breaker Load_Balancer Http
begin

text \<open>
  A backend pool of the gateway, \<^verbatim>\<open>pool\<close> in \<^verbatim>\<open>src/internal/proxy/gateway.go\<close>: a balancer pool behind a
  circuit breaker, and the life of a request on it. \<^verbatim>\<open>serveRoute\<close> acquires a permit and a backend, the
  reverse proxy reports the outcome on the permit through its hooks, and the backend is released when
  the handler returns; requests overlap freely.

  \<^verbatim>\<open>httputil.ReverseProxy\<close> is represented by what it does with the hooks: a transport error calls
  \<^verbatim>\<open>ErrorHandler\<close>, a response calls \<^verbatim>\<open>ModifyResponse\<close>, and a failing protocol upgrade calls
  \<^verbatim>\<open>ErrorHandler\<close> after \<^verbatim>\<open>ModifyResponse\<close>.
\<close>

section \<open>Model\<close>

record upstream =
  backend_index :: nat
  target :: URL

record pool =
  balancer :: Pool
  circuitBreaker :: Breaker
  upstreams :: "upstream list"
  healthChecker :: HealthChecker

datatype AcquireError = BreakerRejected BreakerError | errNoHealthyBackends

definition pool_acquire :: "time \<Rightarrow> pool \<Rightarrow> (AcquireError + upstream \<times> Permit) \<times> pool" where
  "pool_acquire now p =
    (case Breaker_Acquire now (circuitBreaker p) of
       (Inl e, b) \<Rightarrow> (Inl (BreakerRejected e), p\<lparr>circuitBreaker := b\<rparr>)
     | (Inr permit, b) \<Rightarrow>
         (case Pool_Acquire (balancer p) of
            (None, q) \<Rightarrow>
              (Inl errNoHealthyBackends,
               p\<lparr>circuitBreaker := snd (Permit_Cancel (Some permit) b), balancer := q\<rparr>)
          | (Some i, q) \<Rightarrow>
              (case find (\<lambda>u. backend_index u = i) (upstreams p) of
                 Some u \<Rightarrow> (Inr (u, permit), p\<lparr>circuitBreaker := b, balancer := q\<rparr>)
               | None \<Rightarrow>
                   (Inl errNoHealthyBackends,
                    p\<lparr>circuitBreaker := snd (Permit_Cancel (Some permit) b),
                      balancer := on_backend i Backend_Release q\<rparr>))))"

text \<open>What the client gets when no backend was acquired: \<^verbatim>\<open>errors.Is\<close> picks the message, the status is
  always 503.\<close>

definition serveRoute_rejection :: "AcquireError \<Rightarrow> string \<times> int" where
  "serveRoute_rejection e =
    (case e of
       BreakerRejected ErrOpen \<Rightarrow> (''backend circuit breaker is open'', 503)
     | BreakerRejected ErrHalfOpenProbeLimit \<Rightarrow>
         (''backend circuit breaker is half-open; recovery probe limit reached'', 503)
     | _ \<Rightarrow> (''no healthy backends available'', 503))"

datatype ProxyOutcome = ProxyResponse int | ProxyUpgradeFailed int | ProxyError

definition ModifyResponse_permit ::
  "int \<Rightarrow> time \<Rightarrow> Permit option \<times> Breaker \<Rightarrow> Permit option \<times> Breaker" where
  "ModifyResponse_permit status now pb =
    (if 500 \<le> status \<and> status < 600 then Permit_RecordFailure now (fst pb) (snd pb)
     else Permit_RecordSuccess now (fst pb) (snd pb))"

definition ErrorHandler_permit :: "time \<Rightarrow> Permit option \<times> Breaker \<Rightarrow> Permit option \<times> Breaker" where
  "ErrorHandler_permit now pb = Permit_RecordFailure now (fst pb) (snd pb)"

definition proxy_reports :: "ProxyOutcome \<Rightarrow> time \<Rightarrow> Permit \<Rightarrow> Breaker \<Rightarrow> Permit option \<times> Breaker" where
  "proxy_reports outcome now permit b =
    (case outcome of
       ProxyResponse status \<Rightarrow> ModifyResponse_permit status now (Some permit, b)
     | ProxyUpgradeFailed status \<Rightarrow>
         ErrorHandler_permit now (ModifyResponse_permit status now (Some permit, b))
     | ProxyError \<Rightarrow> ErrorHandler_permit now (Some permit, b))"

text \<open>The end of \<^verbatim>\<open>serveRoute\<close>: the hooks have run, and the deferred \<^verbatim>\<open>Release\<close> runs.\<close>

definition serveRoute_finish :: "ProxyOutcome \<Rightarrow> time \<Rightarrow> upstream \<Rightarrow> Permit \<Rightarrow> pool \<Rightarrow> pool" where
  "serveRoute_finish outcome now u permit p =
    p\<lparr>circuitBreaker := snd (proxy_reports outcome now permit (circuitBreaker p)),
      balancer := on_backend (backend_index u) Backend_Release (balancer p)\<rparr>"

definition hasHealthyBackend :: "Backend list \<Rightarrow> bool" where
  "hasHealthyBackend bs = list_ex Backend_Healthy bs"

definition pool_unavailable :: "pool \<Rightarrow> bool" where
  "pool_unavailable p =
    (Breaker_State (circuitBreaker p) \<noteq> StateClosed \<or> \<not> hasHealthyBackend (Pool_Backends (balancer p)))"

section \<open>Overlapping requests\<close>

record traffic =
  tpool :: pool
  flights :: "(upstream \<times> Permit) list"

datatype traffic_event =
    BeginRequest time
  | FinishRequest nat ProxyOutcome time
  | HealthChange nat bool

fun traffic_exec :: "traffic \<Rightarrow> traffic_event \<Rightarrow> traffic" where
  "traffic_exec t (BeginRequest now) =
    (case pool_acquire now (tpool t) of
       (Inl e, p) \<Rightarrow> t\<lparr>tpool := p\<rparr>
     | (Inr f, p) \<Rightarrow> t\<lparr>tpool := p, flights := flights t @ [f]\<rparr>)"
| "traffic_exec t (FinishRequest k outcome now) =
    (if k < length (flights t)
     then let (u, permit) = flights t ! k
          in t\<lparr>tpool := serveRoute_finish outcome now u permit (tpool t),
               flights := take k (flights t) @ drop (Suc k) (flights t)\<rparr>
     else t)"
| "traffic_exec t (HealthChange i h) =
    (if i < length (backends (balancer (tpool t)))
     then t\<lparr>tpool := (tpool t)\<lparr>balancer := on_backend i (Backend_SetHealthy h) (balancer (tpool t))\<rparr>\<rparr>
     else t)"

definition traffic_start :: "pool \<Rightarrow> traffic" where
  "traffic_start p = \<lparr>tpool = p, flights = []\<rparr>"

text \<open>The pool the constructor builds from one configured pool: upstream \<open>i\<close> belongs to backend \<open>i\<close>.\<close>

definition build_pool :: "Pool \<Rightarrow> Breaker \<Rightarrow> HealthChecker \<Rightarrow> URL list \<Rightarrow> pool" where
  "build_pool bal b hc targets =
    \<lparr>balancer = bal, circuitBreaker = b,
     upstreams = map (\<lambda>(i, u). \<lparr>backend_index = i, target = u\<rparr>) (zip [0..<length (backends bal)] targets),
     healthChecker = hc\<rparr>"

section \<open>The request life cycle drives the breaker and the balancer\<close>

text \<open>
  A run of requests on a pool is a run of the breaker machine and one of the balancer machine: the
  requests in flight hold exactly the unsettled permits, \<open>ks\<close> being their numbers, and exactly the
  acquired backends.
\<close>

definition traffic_sim :: "traffic \<Rightarrow> breaker_sys \<Rightarrow> pool_sys \<Rightarrow> nat list \<Rightarrow> bool" where
  "traffic_sim t bs ps ks =
    (sys_breaker bs = circuitBreaker (tpool t) \<and> sys_pool ps = balancer (tpool t) \<and>
     held ps = map (\<lambda>f. backend_index (fst f)) (flights t) \<and>
     map backend_index (upstreams (tpool t)) = [0..<length (backends (balancer (tpool t)))] \<and>
     distinct ks \<and> (\<forall>k \<in> set ks. k < length (sys_permits bs)) \<and>
     map snd (flights t) = map (\<lambda>k. fst (sys_permits bs ! k)) ks \<and>
     (\<forall>k < length (sys_permits bs). once (fst (sys_permits bs ! k)) \<longleftrightarrow> k \<notin> set ks))"

lemma Acquire_permit: "fst (Breaker_Acquire now b) = Inr p \<Longrightarrow> hasBreaker p \<and> \<not> once p"
  by (auto simp: Breaker_Acquire_def Let_def split: if_splits)

lemma find_upstream:
  assumes "map backend_index us = [0..<n]" "i < n"
  shows "\<exists>u. find (\<lambda>u. backend_index u = i) us = Some u \<and> backend_index u = i"
proof -
  have "i \<in> backend_index ` set us" using assms by (metis atLeastLessThan_iff le0 list.set_map set_upt)
  then have "find (\<lambda>u. backend_index u = i) us \<noteq> None" by (auto simp: find_None_iff)
  then show ?thesis by (auto simp: find_Some_iff)
qed

definition outcome_success :: "ProxyOutcome \<Rightarrow> bool" where
  "outcome_success outcome =
    (case outcome of
       ProxyResponse status \<Rightarrow> \<not> (500 \<le> status \<and> status < 600)
     | ProxyUpgradeFailed status \<Rightarrow> \<not> (500 \<le> status \<and> status < 600)
     | ProxyError \<Rightarrow> False)"

lemma proxy_reports_eq:
  assumes "hasBreaker p" "\<not> once p"
  shows "snd (proxy_reports outcome now p b) = snd (Permit_record (outcome_success outcome) now (Some p) b)"
  using assms
  by (cases outcome) (simp_all add: proxy_reports_def ModifyResponse_permit_def ErrorHandler_permit_def
      outcome_success_def Permit_RecordFailure_def Permit_RecordSuccess_def Permit_record_def)

lemma pool_acquire_fixed:
  "upstreams (snd (pool_acquire now p)) = upstreams p"
  "length (backends (balancer (snd (pool_acquire now p)))) = length (backends (balancer p))"
proof -
  obtain r q where "Pool_Acquire (balancer p) = (r, q)" by fastforce
  then show "upstreams (snd (pool_acquire now p)) = upstreams p"
    "length (backends (balancer (snd (pool_acquire now p)))) = length (backends (balancer p))"
    using Pool_Acquire_fixed(2) [of "balancer p"]
    by (auto simp: pool_acquire_def split: prod.splits sum.splits option.splits)
qed

lemma next_epoch_le: "next_epoch s b \<le> Suc (sys_epoch s)"
  by (simp add: next_epoch_def)

lemma generation_cancel [simp]: "generation (Breaker_cancel g pr b) = generation b"
  by (simp add: Breaker_cancel_def)

lemma traffic_sim_reject:
  assumes sim: "traffic_sim t bs ps ks" and rej: "Breaker_Acquire now (circuitBreaker (tpool t)) = (Inl e, b)"
  defines "bs' \<equiv> breaker_exec bs (EvAcquire now)"
  shows "traffic_sim (traffic_exec t (BeginRequest now)) bs' ps ks" and "sys_epoch bs' \<le> Suc (sys_epoch bs)"
  using sim rej next_epoch_le [of bs b]
  by (simp_all add: traffic_sim_def bs'_def breaker_exec.simps Let_def pool_acquire_def)

lemma traffic_sim_no_backend:
  assumes sim: "traffic_sim t bs ps ks"
    and acq: "Breaker_Acquire now (circuitBreaker (tpool t)) = (Inr p, b)"
    and none: "Pool_Acquire (balancer (tpool t)) = (None, q)"
  defines "bs' \<equiv> breaker_exec (breaker_exec bs (EvAcquire now)) (EvCancel (length (sys_permits bs)))"
  shows "traffic_sim (traffic_exec t (BeginRequest now)) bs' (pool_exec ps PoolAcquire) ks"
    and "sys_epoch bs' \<le> Suc (sys_epoch bs)" and "acquired (pool_exec ps PoolAcquire) = acquired ps"
proof -
  have p: "hasBreaker p" "\<not> once p" using Acquire_permit [of now "circuitBreaker (tpool t)" p] acq by simp_all
  have len: "length (backends q) = length (backends (balancer (tpool t)))"
    using Pool_Acquire_fixed(2) [of "balancer (tpool t)"] none by simp
  have ks: "length (sys_permits bs) \<notin> set ks" using sim by (auto simp: traffic_sim_def)
  have nth: "(sys_permits bs @ [x]) ! k = sys_permits bs ! k" if "k \<in> set ks" for k x
    using sim that by (auto simp: traffic_sim_def nth_append)
  have bs': "sys_breaker bs' = Breaker_cancel (permitGeneration p) (probe p) b"
    "sys_permits bs' = sys_permits bs @ [(p\<lparr>once := True\<rparr>, next_epoch bs b)]" "sys_epoch bs' = next_epoch bs b"
    using acq sim p unfolding bs'_def
    by (simp_all add: breaker_exec.simps Let_def settle_def Permit_Cancel_def traffic_sim_def next_epoch_def)
  show "sys_epoch bs' \<le> Suc (sys_epoch bs)" using bs'(3) next_epoch_le by simp
  show "acquired (pool_exec ps PoolAcquire) = acquired ps" using sim none by (simp add: traffic_sim_def)
  show "traffic_sim (traffic_exec t (BeginRequest now)) bs' (pool_exec ps PoolAcquire) ks"
    using sim acq none p len ks nth
    by (auto simp: traffic_sim_def bs' pool_acquire_def Permit_Cancel_def less_Suc_eq nth_append)
qed

lemma traffic_sim_admit:
  assumes sim: "traffic_sim t bs ps ks"
    and acq: "Breaker_Acquire now (circuitBreaker (tpool t)) = (Inr p, b)"
    and some: "Pool_Acquire (balancer (tpool t)) = (Some i, q)" and i: "i < length (backends (balancer (tpool t)))"
  defines "bs' \<equiv> breaker_exec bs (EvAcquire now)"
  shows "traffic_sim (traffic_exec t (BeginRequest now)) bs' (pool_exec ps PoolAcquire) (ks @ [length (sys_permits bs)])"
    and "sys_epoch bs' \<le> Suc (sys_epoch bs)" and "acquired (pool_exec ps PoolAcquire) = Suc (acquired ps)"
proof -
  have p: "hasBreaker p" "\<not> once p" using Acquire_permit [of now "circuitBreaker (tpool t)" p] acq by simp_all
  have len: "length (backends q) = length (backends (balancer (tpool t)))"
    using Pool_Acquire_fixed(2) [of "balancer (tpool t)"] some by simp
  obtain u where u: "find (\<lambda>u. backend_index u = i) (upstreams (tpool t)) = Some u" "backend_index u = i"
    using find_upstream [OF _ i] sim by (auto simp: traffic_sim_def)
  have ks: "length (sys_permits bs) \<notin> set ks" using sim by (auto simp: traffic_sim_def)
  have nth: "(sys_permits bs @ [x]) ! k = sys_permits bs ! k" if "k \<in> set ks" for k x
    using sim that by (auto simp: traffic_sim_def nth_append)
  have bs': "sys_breaker bs' = b" "sys_permits bs' = sys_permits bs @ [(p, next_epoch bs b)]" "sys_epoch bs' = next_epoch bs b"
    using acq sim unfolding bs'_def by (simp_all add: breaker_exec.simps Let_def traffic_sim_def)
  show "sys_epoch bs' \<le> Suc (sys_epoch bs)" using bs'(3) next_epoch_le by simp
  show "acquired (pool_exec ps PoolAcquire) = Suc (acquired ps)" using sim some by (simp add: traffic_sim_def)
  show "traffic_sim (traffic_exec t (BeginRequest now)) bs' (pool_exec ps PoolAcquire) (ks @ [length (sys_permits bs)])"
    using sim acq some u p len ks nth
    by (auto simp: traffic_sim_def bs' pool_acquire_def less_Suc_eq nth_append)
qed

lemma take_drop_set:
  assumes "distinct ks" "k < length ks"
  shows "set (take k ks @ drop (Suc k) ks) = set ks - {ks ! k}" and "distinct (take k ks @ drop (Suc k) ks)"
proof -
  have eq: "ks = take k ks @ ks ! k # drop (Suc k) ks" using assms(2) by (rule id_take_nth_drop)
  have "distinct (take k ks @ ks ! k # drop (Suc k) ks)" using assms(1) eq by simp
  moreover have "set ks = set (take k ks @ ks ! k # drop (Suc k) ks)" using eq by simp
  ultimately show "set (take k ks @ drop (Suc k) ks) = set ks - {ks ! k}" "distinct (take k ks @ drop (Suc k) ks)"
    by auto
qed

lemma permits_without:
  assumes "map snd fs = map (\<lambda>k. fst (ps ! k)) ks" "\<And>j. j \<in> set (take k ks @ drop (Suc k) ks) \<Longrightarrow> fst (ps' ! j) = fst (ps ! j)"
  shows "map snd (take k fs @ drop (Suc k) fs) = map (\<lambda>k. fst (ps' ! k)) (take k ks @ drop (Suc k) ks)"
proof -
  have "map snd (take k fs @ drop (Suc k) fs) = take k (map snd fs) @ drop (Suc k) (map snd fs)" by (simp add: take_map drop_map)
  also have "\<dots> = map (\<lambda>k. fst (ps ! k)) (take k ks @ drop (Suc k) ks)" by (simp add: assms(1) take_map drop_map)
  finally show ?thesis using assms(2) by (metis (mono_tags, lifting) map_eq_conv)
qed

lemma traffic_sim_finish:
  fixes outcome :: ProxyOutcome and now :: time
  assumes sim: "traffic_sim t bs ps ks" and inv: "sys_inv bs" and k: "k < length (flights t)"
  defines "bs' \<equiv> breaker_exec bs (EvRecord (ks ! k) (outcome_success outcome) now)"
  shows "traffic_sim (traffic_exec t (FinishRequest k outcome now)) bs' (pool_exec ps (PoolRelease k))
      (take k ks @ drop (Suc k) ks)"
    and "sys_epoch bs' \<le> Suc (sys_epoch bs)" and "acquired (pool_exec ps (PoolRelease k)) = acquired ps"
proof -
  obtain u p where f: "flights t ! k = (u, p)" by fastforce
  have flen: "length ks = length (flights t)"
    using sim unfolding traffic_sim_def by (metis length_map)
  have kk: "ks ! k \<in> set ks" "ks ! k < length (sys_permits bs)" using sim k flen by (auto simp: traffic_sim_def)
  have "map snd (flights t) ! k = map (\<lambda>k. fst (sys_permits bs ! k)) ks ! k" using sim by (simp add: traffic_sim_def)
  then have p: "fst (sys_permits bs ! (ks ! k)) = p" using k flen f by simp
  have unsettled: "\<not> once p" using sim kk p by (auto simp: traffic_sim_def)
  have has: "hasBreaker p"
    using inv nth_mem [OF kk(2)] p by (auto simp: sys_inv_def permits_wf_def)
  define b' where "b' = snd (Permit_record (outcome_success outcome) now (Some p) (sys_breaker bs))"
  have rep: "Permit_record (outcome_success outcome) now (Some p) (sys_breaker bs) = (Some (p\<lparr>once := True\<rparr>), b')"
    using unsettled has by (simp add: Permit_record_def b'_def)
  have bs': "sys_breaker bs' = b'" "sys_permits bs' = (sys_permits bs)[ks ! k := (p\<lparr>once := True\<rparr>, snd (sys_permits bs ! (ks ! k)))]"
    "sys_epoch bs' = next_epoch bs b'"
    using kk(2) p rep unfolding bs'_def by (simp_all add: breaker_exec.simps settle_def)
  have cb: "snd (proxy_reports outcome now p (circuitBreaker (tpool t))) = b'"
    using proxy_reports_eq [OF has unsettled] sim by (simp add: b'_def traffic_sim_def)
  have dks: "distinct ks" using sim by (simp add: traffic_sim_def)
  note ks' = take_drop_set [OF dks, of k, unfolded flen, OF k]
  have hk: "k < length (held ps)" "held ps ! k = backend_index u" using sim k f by (simp_all add: traffic_sim_def)
  show "sys_epoch bs' \<le> Suc (sys_epoch bs)" using bs'(3) next_epoch_le by simp
  show "acquired (pool_exec ps (PoolRelease k)) = acquired ps" by simp
  have same: "fst (sys_permits bs' ! j) = fst (sys_permits bs ! j)" if "j \<in> set (take k ks @ drop (Suc k) ks)" for j
  proof -
    have "j \<noteq> ks ! k" using that unfolding ks'(1) by blast
    then show ?thesis by (simp add: bs'(2))
  qed
  have msnd: "map snd (take k (flights t) @ drop (Suc k) (flights t))
      = map (\<lambda>k. fst (sys_permits bs' ! k)) (take k ks @ drop (Suc k) ks)"
    using sim same by (intro permits_without) (simp_all add: traffic_sim_def)
  show "traffic_sim (traffic_exec t (FinishRequest k outcome now)) bs' (pool_exec ps (PoolRelease k))
      (take k ks @ drop (Suc k) ks)"
    unfolding traffic_sim_def
  proof (intro conjI)
    show "\<forall>j < length (sys_permits bs'). once (fst (sys_permits bs' ! j)) \<longleftrightarrow> j \<notin> set (take k ks @ drop (Suc k) ks)"
      unfolding ks'(1)
      using sim kk(2) by (auto simp: bs'(2) nth_list_update traffic_sim_def)
    show "\<forall>j \<in> set (take k ks @ drop (Suc k) ks). j < length (sys_permits bs')"
      unfolding ks'(1) using sim by (auto simp: bs'(2) traffic_sim_def)
    show "distinct (take k ks @ drop (Suc k) ks)" by (rule ks'(2))
    show "map snd (flights (traffic_exec t (FinishRequest k outcome now)))
        = map (\<lambda>k. fst (sys_permits bs' ! k)) (take k ks @ drop (Suc k) ks)"
      using msnd k f by simp
  qed (use sim k f cb bs'(1) hk in \<open>simp_all add: traffic_sim_def serveRoute_finish_def take_map drop_map\<close>)
qed

lemma traffic_sim_health:
  assumes "traffic_sim t bs ps ks"
  shows "traffic_sim (traffic_exec t (HealthChange i h)) bs (pool_exec ps (PoolSetHealthy i h)) ks"
  using assms by (auto simp: traffic_sim_def)

definition traffic_ok :: "nat \<Rightarrow> traffic \<Rightarrow> breaker_sys \<Rightarrow> pool_sys \<Rightarrow> nat list \<Rightarrow> bool" where
  "traffic_ok n t bs ps ks =
    (traffic_sim t bs ps ks \<and> sys_inv bs \<and> pool_inv ps \<and> sys_epoch bs \<le> n \<and> acquired ps \<le> n)"

lemma traffic_ok_begin:
  assumes ok: "traffic_ok n t bs ps ks" and n: "Suc n < 2 ^ 64" "int n < maxInt64"
  shows "\<exists>bs ps ks. traffic_ok (Suc n) (traffic_exec t (BeginRequest now)) bs ps ks"
proof -
  let ?p = "tpool t"
  have sim: "traffic_sim t bs ps ks" and inv: "sys_inv bs" "pool_inv ps" and le: "sys_epoch bs \<le> n" "acquired ps \<le> n"
    using ok by (simp_all add: traffic_ok_def)
  have inv1: "sys_inv (breaker_exec bs (EvAcquire now))" using inv(1) le(1) n(1) by (intro sys_inv_exec) auto
  have pinv: "pool_inv (pool_exec ps PoolAcquire)" using inv(2) le(2) n(2) by (intro pool_inv_acquire) auto
  have wf: "pool_wf (balancer ?p)" using inv(2) sim by (simp add: pool_inv_def traffic_sim_def)
  obtain r b where acq: "Breaker_Acquire now (circuitBreaker ?p) = (r, b)" by fastforce
  show ?thesis
  proof (cases r)
    case (Inl e)
    then have rej: "Breaker_Acquire now (circuitBreaker ?p) = (Inl e, b)" using acq by simp
    have "traffic_ok (Suc n) (traffic_exec t (BeginRequest now)) (breaker_exec bs (EvAcquire now)) ps ks"
      unfolding traffic_ok_def using traffic_sim_reject [OF sim rej] inv1 inv(2) le by (auto simp del: traffic_exec.simps)
    then show ?thesis by blast
  next
    case (Inr p)
    then have acq: "Breaker_Acquire now (circuitBreaker ?p) = (Inr p, b)" using acq by simp
    obtain r' q where pa: "Pool_Acquire (balancer ?p) = (r', q)" by fastforce
    show ?thesis
    proof (cases r')
      case None
      then have none: "Pool_Acquire (balancer ?p) = (None, q)" using pa by simp
      note step = traffic_sim_no_backend [OF sim acq none]
      have "sys_epoch (breaker_exec bs (EvAcquire now)) < 2 ^ 64"
        using sys_epoch_mono step(2) le(1) n(1) by (meson Suc_le_mono le_less_trans order_trans)
      then have "sys_inv (breaker_exec (breaker_exec bs (EvAcquire now)) (EvCancel (length (sys_permits bs))))"
        by (rule sys_inv_exec [OF inv1])
      then have "traffic_ok (Suc n) (traffic_exec t (BeginRequest now))
          (breaker_exec (breaker_exec bs (EvAcquire now)) (EvCancel (length (sys_permits bs)))) (pool_exec ps PoolAcquire) ks"
        unfolding traffic_ok_def using step pinv le by (auto simp del: traffic_exec.simps pool_exec.simps)
      then show ?thesis by blast
    next
      case (Some i)
      then have some: "Pool_Acquire (balancer ?p) = (Some i, q)" using pa by simp
      have "i < length (backends (balancer ?p))" using Pool_Acquire_contract(2) [OF wf, of i] some by simp
      note step = traffic_sim_admit [OF sim acq some this]
      have "traffic_ok (Suc n) (traffic_exec t (BeginRequest now)) (breaker_exec bs (EvAcquire now))
          (pool_exec ps PoolAcquire) (ks @ [length (sys_permits bs)])"
        unfolding traffic_ok_def using step inv1 pinv le by (auto simp del: traffic_exec.simps pool_exec.simps)
      then show ?thesis by blast
    qed
  qed
qed

lemma traffic_ok_exec:
  assumes ok: "traffic_ok n t bs ps ks" and n: "Suc n < 2 ^ 64" "int n < maxInt64"
  shows "\<exists>bs ps ks. traffic_ok (Suc n) (traffic_exec t e) bs ps ks"
proof -
  have sim: "traffic_sim t bs ps ks" and inv: "sys_inv bs" "pool_inv ps" and le: "sys_epoch bs \<le> n" "acquired ps \<le> n"
    using ok by (simp_all add: traffic_ok_def)
  show ?thesis
  proof (cases e)
    case (BeginRequest now)
    then show ?thesis using traffic_ok_begin [OF ok n] by simp
  next
    case (FinishRequest k outcome now)
    show ?thesis
    proof (cases "k < length (flights t)")
      case True
      have "traffic_ok (Suc n) (traffic_exec t e) (breaker_exec bs (EvRecord (ks ! k) (outcome_success outcome) now))
          (pool_exec ps (PoolRelease k)) (take k ks @ drop (Suc k) ks)"
        unfolding traffic_ok_def FinishRequest
        using traffic_sim_finish(1,2) [OF sim inv(1) True, of outcome now] traffic_sim_finish(3) [OF sim inv(1) True] le n(1)
          sys_inv_exec [OF inv(1), of "EvRecord (ks ! k) (outcome_success outcome) now"]
          pool_inv_release [OF inv(2), of k] n(2)
        by (auto simp del: traffic_exec.simps pool_exec.simps)
      then show ?thesis by blast
    next
      case False
      then have "traffic_ok (Suc n) (traffic_exec t e) bs ps ks" using ok FinishRequest by (simp add: traffic_ok_def)
      then show ?thesis by blast
    qed
  next
    case (HealthChange i h)
    have "traffic_ok (Suc n) (traffic_exec t e) bs (pool_exec ps (PoolSetHealthy i h)) ks"
      unfolding traffic_ok_def HealthChange
      using traffic_sim_health [OF sim] inv pool_inv_health le by (auto simp del: traffic_exec.simps)
    then show ?thesis by blast
  qed
qed

definition new_pool :: "BreakerConfig \<Rightarrow> string list \<Rightarrow> string \<Rightarrow> URL list \<Rightarrow> pool \<Rightarrow> bool" where
  "new_pool config urls strat targets p =
    (\<exists>bal b hc. NewPoolWithStrategy urls strat = Inr bal \<and> NewWithConfig config = Inr b \<and>
       length urls < 2 ^ 63 \<and> length targets = length urls \<and> p = build_pool bal b hc targets)"

lemma build_pool_upstreams:
  "length targets = length (backends bal) \<Longrightarrow>
    map backend_index (upstreams (build_pool bal b hc targets)) = [0..<length (backends bal)]"
  by (simp add: build_pool_def split_def comp_def)

lemma traffic_ok_start:
  assumes "new_pool config urls strat targets p"
  shows "\<exists>bs ps ks. traffic_ok 0 (traffic_start p) bs ps ks"
proof -
  obtain bal b hc where new: "NewPoolWithStrategy urls strat = Inr bal" "NewWithConfig config = Inr b"
    "length urls < 2 ^ 63" "length targets = length urls" "p = build_pool bal b hc targets"
    using assms by (auto simp: new_pool_def)
  have "length targets = length (backends bal)"
    using new(1,4) by (auto simp: NewPoolWithStrategy_def newBackends_eq split: if_splits)
  from build_pool_upstreams [OF this, of b hc]
  have "traffic_sim (traffic_start p) (breaker_start b) (pool_start bal) []"
    by (simp add: traffic_sim_def traffic_start_def breaker_start_def pool_start_def new(5)) (simp add: build_pool_def)
  then show ?thesis
    using sys_inv_start [OF new(2)] pool_inv_start [OF new(1,3)]
    by (intro exI [of _ "breaker_start b"] exI [of _ "pool_start bal"] exI [of _ "[]"])
      (simp add: traffic_ok_def breaker_start_def pool_start_def)
qed

lemma traffic_ok_run:
  assumes "new_pool config urls strat targets p" "int (length es) < maxInt64"
  shows "\<exists>bs ps ks. traffic_ok (length es) (foldl traffic_exec (traffic_start p) es) bs ps ks"
  using assms(2)
proof (induction es rule: rev_induct)
  case Nil
  then show ?case using traffic_ok_start [OF assms(1)] by simp
next
  case (snoc e es)
  then obtain bs ps ks where ok: "traffic_ok (length es) (foldl traffic_exec (traffic_start p) es) bs ps ks" by auto
  have "Suc (length es) < 2 ^ 64" using snoc.prems by (simp add: maxInt64_def)
  then show ?case using traffic_ok_exec [OF ok, of e] snoc.prems by simp
qed

lemma settled_in_flight:
  assumes "traffic_sim t bs ps []"
  shows "in_flight bs = 0"
proof -
  have "\<forall>pe \<in> set (sys_permits bs). once (fst pe)"
    using assms unfolding traffic_sim_def by (metis empty_iff in_set_conv_nth list.set(1))
  then have "filter (live (sys_epoch bs)) (sys_permits bs) = []"
    by (auto simp: filter_empty_conv live_def)
  then show ?thesis by (simp add: in_flight_def)
qed

lemma Acquire_admits:
  assumes "breaker_wf b" "state b = StateOpen \<Longrightarrow> openedAt b + openTimeout b \<le> now"
    and "state b = StateHalfOpen \<Longrightarrow> halfOpenAdmitted b < halfOpenMaxRequests b"
  shows "\<exists>p b'. Breaker_Acquire now b = (Inr p, b')"
  using assms(1)
proof (cases rule: breaker_wf_cases)
  case 1
  then show ?thesis by (simp add: Acquire_closed)
next
  case 2
  then show ?thesis using Acquire_open_probe [OF assms(1) 2 assms(2) [OF 2]] by simp
next
  case 3
  then show ?thesis using Acquire_half_probe [OF 3 assms(3) [OF 3]] by simp
qed

lemma Acquire_then_cancel:
  assumes wf: "breaker_wf b" and acq: "Breaker_Acquire now b = (Inr permit, b')"
  shows "snd (Permit_Cancel (Some permit) b') = b
    \<or> state b = StateOpen \<and> openedAt b + openTimeout b \<le> now
      \<and> snd (Permit_Cancel (Some permit) b') = transitionLocked StateHalfOpen now b"
  using wf
proof (cases rule: breaker_wf_cases)
  case 1
  then show ?thesis using acq by (auto simp: Acquire_closed Permit_Cancel_def Breaker_cancel_def)
next
  case 2
  then have due: "openedAt b + openTimeout b \<le> now"
    using acq Acquire_open_wait [OF 2] by (cases "now < openedAt b + openTimeout b") auto
  have "(transitionLocked StateHalfOpen now b)\<lparr>halfOpenAdmitted := 0\<rparr> = transitionLocked StateHalfOpen now b"
    by (simp add: transitionLocked_def Let_def)
  moreover have "permit = \<lparr>hasBreaker = True, permitGeneration = generation b + 1, probe = True, once = False\<rparr>"
    "b' = (transitionLocked StateHalfOpen now b)\<lparr>halfOpenAdmitted := 1\<rparr>"
    using acq unfolding Acquire_open_probe [OF wf 2 due] by blast+
  ultimately have "snd (Permit_Cancel (Some permit) b') = transitionLocked StateHalfOpen now b"
    by (simp add: Permit_Cancel_def Breaker_cancel_def)
  then show ?thesis using 2 due by blast
next
  case 3
  then have room: "halfOpenAdmitted b < halfOpenMaxRequests b"
    using acq Acquire_half_limit [OF 3] by (cases "halfOpenAdmitted b < halfOpenMaxRequests b") auto
  have "0 \<le> halfOpenAdmitted b" using wf by (simp add: breaker_wf_def)
  moreover have "permit = \<lparr>hasBreaker = True, permitGeneration = generation b, probe = True, once = False\<rparr>"
    "b' = b\<lparr>halfOpenAdmitted := halfOpenAdmitted b + 1\<rparr>"
    using acq unfolding Acquire_half_probe [OF 3 room] by blast+
  ultimately have "snd (Permit_Cancel (Some permit) b') = b"
    using 3 by (simp add: Permit_Cancel_def Breaker_cancel_def)
  then show ?thesis by blast
qed

text \<open>A pool with a healthy backend whose breaker has room admits.\<close>

lemma pool_admits:
  assumes wf: "pool_wf (balancer p)" and bwf: "breaker_wf (circuitBreaker p)"
    and up: "map backend_index (upstreams p) = [0..<length (backends (balancer p))]"
    and healthy: "\<exists>b \<in> set (backends (balancer p)). healthy b"
    and due: "state (circuitBreaker p) = StateOpen \<Longrightarrow> openedAt (circuitBreaker p) + openTimeout (circuitBreaker p) \<le> now"
    and room: "state (circuitBreaker p) = StateHalfOpen \<Longrightarrow> halfOpenAdmitted (circuitBreaker p) < halfOpenMaxRequests (circuitBreaker p)"
  shows "\<exists>u permit. fst (pool_acquire now p) = Inr (u, permit) \<and> u \<in> set (upstreams p)
    \<and> healthy_at (balancer p) (backend_index u)"
proof -
  obtain permit b' where acq: "Breaker_Acquire now (circuitBreaker p) = (Inr permit, b')"
    using Acquire_admits [OF bwf due room] by auto
  have "some_healthy (balancer p)" using healthy by (auto simp: in_set_conv_nth)
  then obtain i q where pa: "Pool_Acquire (balancer p) = (Some i, q)"
    using Pool_Acquire_contract(1) [OF wf] by (cases "Pool_Acquire (balancer p)") auto
  then have i: "i < length (backends (balancer p))" "healthy_at (balancer p) i"
    using Pool_Acquire_contract(2) [OF wf, of i] by simp_all
  obtain u where u: "find (\<lambda>u. backend_index u = i) (upstreams p) = Some u" "backend_index u = i"
    using find_upstream [OF up i(1)] by auto
  then have "u \<in> set (upstreams p)" by (auto simp: find_Some_iff)
  with acq pa u i(2) show ?thesis by (simp add: pool_acquire_def)
qed

section \<open>Properties\<close>

lemma active_counts_flights:
  assumes "new_pool config urls strat targets p" "int (length es) < maxInt64"
    and "t = foldl traffic_exec (traffic_start p) es" "i < length (backends (balancer (tpool t)))"
  shows "active_at (balancer (tpool t)) i = int (length (filter (\<lambda>f. backend_index (fst f) = i) (flights t)))"
proof -
  obtain bs ps ks where "traffic_sim t bs ps ks" "pool_inv ps"
    using traffic_ok_run [OF assms(1,2)] assms(3) by (auto simp: traffic_ok_def)
  then have "active_at (balancer (tpool t)) i = int (count (mset (map (\<lambda>f. backend_index (fst f)) (flights t))) i)"
    using assms(4) unfolding traffic_sim_def pool_inv_def by metis
  moreover have "count (mset (map g fs)) i = length (filter (\<lambda>f. g f = i) fs)"
    for g :: "upstream \<times> Permit \<Rightarrow> nat" and fs by (induction fs) auto
  ultimately show ?thesis by simp
qed

text \<open>Requests leak no backend: for a pool as the gateway builds it and any overlapping
  of requests, finishing with any upstream outcome, and health changes, a backend's active count is
  the number of requests now in flight on it.\<close>

theorem requests_leak_no_backend:
  assumes "new_pool config urls strat targets p" "int (length es) < maxInt64"
    and "t = foldl traffic_exec (traffic_start p) es" "i < length (backends (balancer (tpool t)))"
  shows "active_at (balancer (tpool t)) i = int (length (filter (\<lambda>f. backend_index (fst f) = i) (flights t)))"
  using assms by (rule active_counts_flights)

text \<open>An idle pool recovers: whatever happened before, once no request is in flight a
  request is admitted to a healthy backend, unless every backend is unhealthy or the breaker is open
  and its timeout has not passed; no probe slot is ever lost.\<close>

theorem idle_pool_admits:
  assumes "new_pool config urls strat targets p" "int (length es) < maxInt64"
    and "t = foldl traffic_exec (traffic_start p) es" "flights t = []"
    and "\<exists>b \<in> set (backends (balancer (tpool t))). healthy b"
    and "state (circuitBreaker (tpool t)) = StateOpen \<Longrightarrow>
      openedAt (circuitBreaker (tpool t)) + openTimeout (circuitBreaker (tpool t)) \<le> now"
  shows "\<exists>u permit. fst (pool_acquire now (tpool t)) = Inr (u, permit) \<and> u \<in> set (upstreams (tpool t))
    \<and> healthy_at (balancer (tpool t)) (backend_index u)"
proof -
  let ?p = "tpool t"
  obtain bs ps ks where ok: "traffic_sim t bs ps ks" "sys_inv bs" "pool_inv ps"
    using traffic_ok_run [OF assms(1,2)] assms(3) by (auto simp: traffic_ok_def)
  then have ks: "ks = []" and b: "sys_breaker bs = circuitBreaker ?p" using assms(4) by (auto simp: traffic_sim_def)
  have wf: "pool_wf (balancer ?p)" using ok by (simp add: pool_inv_def traffic_sim_def)
  have bwf: "breaker_wf (circuitBreaker ?p)" using ok(2) b by (simp add: sys_inv_def)
  have "state (circuitBreaker ?p) = StateHalfOpen \<Longrightarrow> halfOpenAdmitted (circuitBreaker ?p) < halfOpenMaxRequests (circuitBreaker ?p)"
    using ok(2) b bwf settled_in_flight [of t bs ps] ok(1) ks by (auto simp: sys_inv_def breaker_wf_def)
  then show ?thesis using pool_admits [OF wf bwf _ assms(5,6)] ok(1) by (simp add: traffic_sim_def)
qed

text \<open>A refused request leaves nothing behind, in every reachable pool: no backend's state
  changes and the breaker keeps its state, except that an open breaker whose timeout has passed has
  moved to half-open with no probe admitted; the unreachable branch of \<^verbatim>\<open>pool.acquire\<close> is never
  taken.\<close>

theorem refused_request_leaves_nothing:
  assumes "new_pool config urls strat targets p0" "int (length es) < maxInt64"
    and "p = tpool (foldl traffic_exec (traffic_start p0) es)" "pool_acquire now p = (Inl e, q)"
  shows "backends (balancer q) = backends (balancer p)
    \<and> (circuitBreaker q = circuitBreaker p
      \<or> state (circuitBreaker p) = StateOpen \<and> openedAt (circuitBreaker p) + openTimeout (circuitBreaker p) \<le> now
        \<and> circuitBreaker q = transitionLocked StateHalfOpen now (circuitBreaker p))
    \<and> (e = errNoHealthyBackends \<longleftrightarrow>
        (\<exists>permit. fst (Breaker_Acquire now (circuitBreaker p)) = Inr permit) \<and> (\<forall>b \<in> set (backends (balancer p)). \<not> healthy b))"
proof -
  obtain t where t: "t = foldl traffic_exec (traffic_start p0) es" by simp
  obtain bs ps ks where ok: "traffic_sim t bs ps ks" "sys_inv bs" "pool_inv ps"
    using traffic_ok_run [OF assms(1,2)] t by (auto simp: traffic_ok_def)
  have p: "p = tpool t" using assms(3) t by simp
  have wf: "pool_wf (balancer p)" and bwf: "breaker_wf (circuitBreaker p)"
    using ok p by (auto simp: pool_inv_def traffic_sim_def sys_inv_def)
  have lim: "0 < halfOpenMaxRequests (circuitBreaker p)" "0 \<le> halfOpenAdmitted (circuitBreaker p)"
    using bwf by (simp_all add: breaker_wf_def)
  note con = Pool_Acquire_contract [OF wf]
  obtain r b where acq: "Breaker_Acquire now (circuitBreaker p) = (r, b)" by fastforce
  obtain r' bal where pa: "Pool_Acquire (balancer p) = (r', bal)" by fastforce
  show ?thesis
  proof (cases r)
    case (Inl err)
    have "b = circuitBreaker p"
      using bwf acq Inl lim by (cases rule: breaker_wf_cases)
        (auto simp: Breaker_Acquire_def Let_def breaker_wf_def split: if_splits)
    then show ?thesis using Inl acq assms(4) by (auto simp: pool_acquire_def)
  next
    case (Inr permit)
    have none: "r' = None"
    proof (rule ccontr)
      assume "r' \<noteq> None"
      then obtain i where i: "r' = Some i" by blast
      then have "i < length (backends (balancer p))" using con(2) [of i] pa by simp
      then obtain u where "find (\<lambda>u. backend_index u = i) (upstreams p) = Some u"
        using find_upstream [of "upstreams p" "length (backends (balancer p))" i] ok(1) p
        by (auto simp: traffic_sim_def)
      then show False using assms(4) acq Inr pa i by (simp add: pool_acquire_def)
    qed
    note Acquire_then_cancel [OF bwf, of now permit b]
    moreover have "\<forall>b \<in> set (backends (balancer p)). \<not> healthy b" "backends bal = backends (balancer p)"
      using con(1,3) pa none by (auto simp: in_set_conv_nth)
    ultimately show ?thesis using assms(4) acq Inr pa none by (auto simp: pool_acquire_def)
  qed
qed

section \<open>Concrete runs\<close>

definition sample_target :: "string \<Rightarrow> URL" where
  "sample_target h =
    \<lparr>Scheme = ''http'', Opaque = '''', hasUser = False, Host = h, Path = '''', RawPath = '''',
     ForceQuery = False, RawQuery = '''', Fragment = ''''\<rparr>"

definition sample_upstream_pool :: pool where
  "sample_upstream_pool =
    build_pool (sample_pool RoundRobin) sample_breaker
      \<lparr>interval = 1, timeout = 1, path = ''/healthz''\<rparr> (map sample_target [''a'', ''b'', ''c''])"

lemma sample_upstream_pool_new:
  "new_pool sample_config sample_urls RoundRobin (map sample_target [''a'', ''b'', ''c'']) sample_upstream_pool"
proof -
  have "NewWithConfig sample_config = Inr sample_breaker" by code_simp
  moreover have "length sample_urls = 3" by (simp add: sample_urls_def)
  ultimately show ?thesis
    unfolding new_pool_def sample_upstream_pool_def using sample_pool_facts(1) by fastforce
qed

definition sample_traffic :: "traffic_event list" where
  "sample_traffic =
    [BeginRequest 1, BeginRequest 2, FinishRequest 0 (ProxyResponse 502) 3, BeginRequest 4,
     FinishRequest 0 ProxyError 5, FinishRequest 0 (ProxyUpgradeFailed 101) 6, HealthChange 1 False]"

lemma sample_traffic_short: "int (length sample_traffic) < maxInt64" "int (length (take 4 sample_traffic)) < maxInt64"
  by (simp_all add: sample_traffic_def maxInt64_def)

theorem requests_leak_no_backend_witness:
  "active_at (balancer (tpool (foldl traffic_exec (traffic_start sample_upstream_pool) (take 4 sample_traffic)))) 1 = 1"
proof -
  have "length (backends (balancer (tpool (foldl traffic_exec (traffic_start sample_upstream_pool) (take 4 sample_traffic))))) = 3"
    "map (\<lambda>f. backend_index (fst f)) (flights (foldl traffic_exec (traffic_start sample_upstream_pool) (take 4 sample_traffic))) = [1, 2]"
    by code_simp+
  moreover from this(2) have
    "length (filter (\<lambda>f. backend_index (fst f) = 1) (flights (foldl traffic_exec (traffic_start sample_upstream_pool) (take 4 sample_traffic)))) = 1"
    using length_filter_map [of "\<lambda>i. i = 1" "\<lambda>f. backend_index (fst f)"
      "flights (foldl traffic_exec (traffic_start sample_upstream_pool) (take 4 sample_traffic))"]
    by (simp add: comp_def)
  ultimately show ?thesis
    using requests_leak_no_backend [OF sample_upstream_pool_new sample_traffic_short(2) refl, of 1] by simp
qed

theorem idle_pool_admits_witness:
  "\<exists>u permit. fst (pool_acquire 50 (tpool (foldl traffic_exec (traffic_start sample_upstream_pool) sample_traffic)))
      = Inr (u, permit)"
proof -
  let ?t = "foldl traffic_exec (traffic_start sample_upstream_pool) sample_traffic"
  have "flights ?t = []" "state (circuitBreaker (tpool ?t)) = StateClosed"
    "list_ex healthy (backends (balancer (tpool ?t)))"
    by code_simp+
  then show ?thesis
    using idle_pool_admits [OF sample_upstream_pool_new sample_traffic_short(1) refl, of 50]
    by (auto simp: list_ex_iff StateClosed_def StateOpen_def)
qed

theorem refused_request_leaves_nothing_witness:
  "backends (balancer (snd (pool_acquire 9 (tpool (foldl traffic_exec (traffic_start sample_upstream_pool)
      [HealthChange 0 False, HealthChange 1 False, HealthChange 2 False])))))
    = backends (balancer (tpool (foldl traffic_exec (traffic_start sample_upstream_pool)
      [HealthChange 0 False, HealthChange 1 False, HealthChange 2 False])))"
proof -
  let ?es = "[HealthChange 0 False, HealthChange 1 False, HealthChange 2 False]"
  let ?p = "tpool (foldl traffic_exec (traffic_start sample_upstream_pool) ?es)"
  have "fst (pool_acquire 9 ?p) = Inl errNoHealthyBackends" by code_simp
  then have "pool_acquire 9 ?p = (Inl errNoHealthyBackends, snd (pool_acquire 9 ?p))" by (metis prod.collapse)
  from refused_request_leaves_nothing [OF sample_upstream_pool_new _ refl this] show ?thesis
    by (simp add: maxInt64_def)
qed

end
