(* ===== verification/Config.thy ===== *)
theory Config
  imports Http Float64 "HOL-Library.Multiset"
begin

text \<open>
  The configuration and its validation, \<^verbatim>\<open>src/internal/config/config.go\<close>: the decoded YAML as records,
  \<^verbatim>\<open>Validate\<close> with its checks in order, and the expansion of environment placeholders in the YAML
  tree. The first failing check is the error; each \<^verbatim>\<open>fmt.Errorf\<close> is a constructor with its arguments.
  \<^verbatim>\<open>url.Parse\<close> is the argument \<open>parse\<close>, \<open>None\<close> being an error, and the Unicode case tables are \<open>U\<close>. The map of
  pools is visited in the order of its association list.

  \<^verbatim>\<open>range\<close> over a string yields code points; every byte from 128 on is part of, or becomes, a code point
  above 126, so the character checks are on bytes.
\<close>

section \<open>Data\<close>

record Timeouts =
  timeoutRequest :: duration
  timeoutDial :: duration
  timeoutTLSHandshake :: duration
  timeoutResponseHeader :: duration
  timeoutIdleConnection :: duration

record RateLimit =
  RequestsPerSecond :: float64
  Burst :: int

record CacheConfig =
  cacheTTL :: duration
  cacheMaxEntries :: int

record CORSConfig =
  AllowedOrigins :: "string list"
  AllowedMethods :: "string list"
  AllowedHeaders :: "string list"
  ExposedHeaders :: "string list"
  AllowCredentials :: bool
  MaxAge :: duration

record HealthCheckConfig =
  checkPath :: string
  checkInterval :: duration
  checkTimeout :: duration

record CircuitBreakerConfig =
  cbFailureThreshold :: int
  cbOpenTimeout :: duration
  cbHalfOpenMaxRequests :: int

record PoolConfig =
  poolStrategy :: string
  poolBackends :: "string list"
  poolHealthCheck :: HealthCheckConfig
  poolCircuitBreaker :: CircuitBreakerConfig

record RouteConfig =
  PathPrefix :: string
  BackendPool :: string
  routeRateLimit :: "RateLimit option"
  routeCache :: "CacheConfig option"
  Protected :: bool

record Config =
  ListenAddress :: string
  cfgTimeouts :: Timeouts
  cfgRateLimit :: RateLimit
  APIKeys :: "string list"
  cfgCORS :: CORSConfig
  BackendPools :: "(string, PoolConfig) gomap"
  Routes :: "RouteConfig list"

datatype ConfigError =
    ListenAddressRequired
  | NoBackendPool
  | RateNotFinite string
  | RateNegative string
  | BurstNegative string
  | RateBurstMismatch string
  | InvalidAPIKey nat
  | CORSMaxAgeNegative
  | CORSOriginsRequired
  | CORSMethodsRequired
  | CORSInvalidOrigin nat
  | CORSCredentialsWithWildcard
  | CORSInvalidMethod nat
  | CORSInvalidAllowedHeader nat
  | CORSInvalidExposedHeader nat
  | EmptyPoolName
  | UnsupportedStrategy string
  | NoBackends string
  | InvalidBackendURL string string
  | HealthIntervalNegative string
  | HealthTimeoutNegative string
  | HealthPathInvalid string
  | ThresholdNegative string
  | OpenTimeoutNegative string
  | HalfOpenNegative string
  | NoRoute
  | RoutePathInvalid string
  | RouteUnknownPool string string
  | ProtectedWithoutKeys string
  | CacheTTLNotPositive string
  | CacheMaxEntriesNotPositive string

section \<open>Checks\<close>

text \<open>A sequence of checks with early return, and a loop of checks over the elements of a slice with
  their index.\<close>

fun first_error :: "'e option list \<Rightarrow> 'e option" where
  "first_error [] = None"
| "first_error (Some e # cs) = Some e"
| "first_error (None # cs) = first_error cs"

definition check :: "bool \<Rightarrow> 'e \<Rightarrow> 'e option" where
  "check failed e = (if failed then Some e else None)"

definition check_all :: "(nat \<Rightarrow> 'a \<Rightarrow> 'e option) \<Rightarrow> 'a list \<Rightarrow> 'e option" where
  "check_all f xs = first_error (map (\<lambda>(i, x). f i x) (zip [0..<length xs] xs))"

definition isValidAPIKey :: "string \<Rightarrow> bool" where
  "isValidAPIKey apiKey =
    (apiKey \<noteq> '''' \<and> list_all (\<lambda>c. let n = of_char c :: nat in \<not> (n < 0x21 \<or> n > 0x7e)) apiKey)"

definition isHTTPToken :: "string \<Rightarrow> bool" where
  "isHTTPToken value = (value \<noteq> '''' \<and> list_all is_token_char value)"

definition validateRateLimit :: "string \<Rightarrow> RateLimit \<Rightarrow> ConfigError option" where
  "validateRateLimit name limit = first_error
    [check (IsNaN (RequestsPerSecond limit) \<or> IsInf (RequestsPerSecond limit)) (RateNotFinite name),
     check (RequestsPerSecond limit < Fin 0) (RateNegative name),
     check (Burst limit < 0) (BurstNegative name),
     check ((RequestsPerSecond limit = Fin 0) \<noteq> (Burst limit = 0)) (RateBurstMismatch name)]"

definition validateCache :: "string \<Rightarrow> CacheConfig \<Rightarrow> ConfigError option" where
  "validateCache routePath cache = first_error
    [check (cacheTTL cache \<le> 0) (CacheTTLNotPositive routePath),
     check (cacheMaxEntries cache \<le> 0) (CacheMaxEntriesNotPositive routePath)]"

definition validateHealthCheck :: "string \<Rightarrow> HealthCheckConfig \<Rightarrow> ConfigError option" where
  "validateHealthCheck poolName c = first_error
    [check (checkInterval c < 0) (HealthIntervalNegative poolName),
     check (checkTimeout c < 0) (HealthTimeoutNegative poolName),
     check (checkPath c \<noteq> '''' \<and> \<not> HasPrefix (checkPath c) ''/'') (HealthPathInvalid poolName)]"

definition validOrigin :: "(string \<Rightarrow> URL option) \<Rightarrow> string \<Rightarrow> bool" where
  "validOrigin parse origin =
    (case parse origin of
       None \<Rightarrow> False
     | Some u \<Rightarrow> (Scheme u = ''http'' \<or> Scheme u = ''https'') \<and> Host u \<noteq> '''' \<and> \<not> hasUser u \<and>
         Path u = '''' \<and> RawQuery u = '''' \<and> Fragment u = '''')"

definition validateCORS :: "(string \<Rightarrow> URL option) \<Rightarrow> unicode_case \<Rightarrow> CORSConfig \<Rightarrow> ConfigError option" where
  "validateCORS parse U cors =
    (if MaxAge cors < 0 then Some CORSMaxAgeNegative
     else if AllowedOrigins cors = [] then
       check (AllowedMethods cors \<noteq> [] \<or> AllowedHeaders cors \<noteq> [] \<or> ExposedHeaders cors \<noteq> [] \<or>
              AllowCredentials cors \<or> MaxAge cors > 0) CORSOriginsRequired
     else if AllowedMethods cors = [] then Some CORSMethodsRequired
     else first_error
       [check_all (\<lambda>i origin. check (origin \<noteq> ''*'' \<and> \<not> validOrigin parse origin) (CORSInvalidOrigin i))
          (AllowedOrigins cors),
        check (''*'' \<in> set (AllowedOrigins cors) \<and> AllowCredentials cors) CORSCredentialsWithWildcard,
        check_all (\<lambda>i m. check (m = ''*'' \<or> \<not> isHTTPToken m \<or> m \<noteq> ToUpper U m) (CORSInvalidMethod i))
          (AllowedMethods cors),
        check_all (\<lambda>i h. check (\<not> isHTTPToken h) (CORSInvalidAllowedHeader i)) (AllowedHeaders cors),
        check_all (\<lambda>i h. check (\<not> isHTTPToken h) (CORSInvalidExposedHeader i)) (ExposedHeaders cors)])"

definition validatePool :: "(string \<Rightarrow> URL option) \<Rightarrow> string \<Rightarrow> PoolConfig \<Rightarrow> ConfigError option" where
  "validatePool parse name pool = first_error
    [check (TrimSpace name = '''') EmptyPoolName,
     check (poolStrategy pool \<noteq> ''round_robin'' \<and> poolStrategy pool \<noteq> ''least_connections'') (UnsupportedStrategy name),
     check (poolBackends pool = []) (NoBackends name),
     check_all (\<lambda>i u. check (case parse u of None \<Rightarrow> True | Some p \<Rightarrow> Scheme p = '''' \<or> Host p = '''')
       (InvalidBackendURL name u)) (poolBackends pool),
     validateHealthCheck name (poolHealthCheck pool),
     check (cbFailureThreshold (poolCircuitBreaker pool) < 0) (ThresholdNegative name),
     check (cbOpenTimeout (poolCircuitBreaker pool) < 0) (OpenTimeoutNegative name),
     check (cbHalfOpenMaxRequests (poolCircuitBreaker pool) < 0) (HalfOpenNegative name)]"

definition validateRoute :: "Config \<Rightarrow> RouteConfig \<Rightarrow> ConfigError option" where
  "validateRoute c route = first_error
    [check (\<not> HasPrefix (PathPrefix route) ''/'') (RoutePathInvalid (PathPrefix route)),
     check (map_of (BackendPools c) (BackendPool route) = None)
       (RouteUnknownPool (PathPrefix route) (BackendPool route)),
     check (Protected route \<and> APIKeys c = []) (ProtectedWithoutKeys (PathPrefix route)),
     (case routeRateLimit route of None \<Rightarrow> None | Some l \<Rightarrow> validateRateLimit ''route rate_limit'' l),
     (case routeCache route of None \<Rightarrow> None | Some ca \<Rightarrow> validateCache (PathPrefix route) ca)]"

definition Validate :: "(string \<Rightarrow> URL option) \<Rightarrow> unicode_case \<Rightarrow> Config \<Rightarrow> ConfigError option" where
  "Validate parse U c = first_error
    [check (TrimSpace (ListenAddress c) = '''') ListenAddressRequired,
     check (BackendPools c = []) NoBackendPool,
     validateRateLimit ''rate_limit'' (cfgRateLimit c),
     check_all (\<lambda>i key. check (\<not> isValidAPIKey key) (InvalidAPIKey i)) (APIKeys c),
     validateCORS parse U (cfgCORS c),
     check_all (\<lambda>i (name, pool). validatePool parse name pool) (BackendPools c),
     check (Routes c = []) NoRoute,
     check_all (\<lambda>i route. validateRoute c route) (Routes c)]"

section \<open>Environment placeholders\<close>

text \<open>The regular expression \<^verbatim>\<open>\$\{([A-Za-z_][A-Za-z0-9_]*)\}\<close> at the start of a string: the name and the
  rest. \<^verbatim>\<open>ReplaceAllStringFunc\<close> replaces from left to right and does not rescan what it inserts.\<close>

definition is_name_start :: "char \<Rightarrow> bool" where
  "is_name_start c = (let n = of_char c :: nat in 65 \<le> n \<and> n \<le> 90 \<or> 97 \<le> n \<and> n \<le> 122 \<or> n = 95)"

definition is_name_char :: "char \<Rightarrow> bool" where
  "is_name_char c = (is_name_start c \<or> (let n = of_char c :: nat in 48 \<le> n \<and> n \<le> 57))"

definition placeholder_at :: "string \<Rightarrow> (string \<times> string) option" where
  "placeholder_at s =
    (case s of
       CHR ''$'' # CHR 0x7B # t \<Rightarrow>
         let name = takeWhile is_name_char t; rest = dropWhile is_name_char t
         in if name \<noteq> '''' \<and> is_name_start (hd name) \<and> rest \<noteq> '''' \<and> hd rest = CHR 0x7D
            then Some (name, tl rest) else None
     | _ \<Rightarrow> None)"

lemma placeholder_at_shorter: "placeholder_at s = Some (name, rest) \<Longrightarrow> length rest < length s"
proof -
  assume ph: "placeholder_at s = Some (name, rest)"
  then obtain t where "s = CHR ''$'' # CHR 0x7B # t" "rest = tl (dropWhile is_name_char t)"
    unfolding placeholder_at_def Let_def by (auto split: list.splits char.splits bool.splits if_splits)
  moreover have "length (tl (dropWhile is_name_char t)) \<le> length t"
    using length_dropWhile_le [of is_name_char t] by (simp add: le_diff_conv)
  ultimately show ?thesis by simp
qed

text \<open>The expanded value and the first name that is not set.\<close>

function expandString :: "(string \<Rightarrow> string option) \<Rightarrow> string \<Rightarrow> string \<times> string option" where
  "expandString lookup s =
    (case placeholder_at s of
       Some (name, rest) \<Rightarrow>
         let (out, missing) = expandString lookup rest
         in (case lookup name of
               Some v \<Rightarrow> (v @ out, missing)
             | None \<Rightarrow> (out, Some name))
     | None \<Rightarrow>
         (case s of
            [] \<Rightarrow> ([], None)
          | c # t \<Rightarrow> let (out, missing) = expandString lookup t in (c # out, missing)))"
  by pat_completeness auto

termination
  by (relation "measure (\<lambda>(lookup, s). length s)") (auto simp: placeholder_at_shorter)

declare expandString.simps [simp del]

datatype NodeKind = ScalarNode | OtherNode

datatype Node = Node NodeKind string string "Node list"

text \<open>\<^verbatim>\<open>expandEnvironment\<close> stops at the first variable that is not set.\<close>

fun expandEnvironment :: "(string \<Rightarrow> string option) \<Rightarrow> Node \<Rightarrow> string + Node"
  and expandChildren :: "(string \<Rightarrow> string option) \<Rightarrow> Node list \<Rightarrow> string + Node list" where
  "expandEnvironment lookup (Node kind tag value content) =
    (let (v, missing) =
       (if kind = ScalarNode \<and> tag = ''!!str'' then expandString lookup value else (value, None))
     in case missing of
          Some name \<Rightarrow> Inl name
        | None \<Rightarrow>
            (case expandChildren lookup content of
               Inl name \<Rightarrow> Inl name
             | Inr content \<Rightarrow> Inr (Node kind tag v content)))"
| "expandChildren lookup [] = Inr []"
| "expandChildren lookup (n # ns) =
    (case expandEnvironment lookup n of
       Inl name \<Rightarrow> Inl name
     | Inr n \<Rightarrow> (case expandChildren lookup ns of Inl name \<Rightarrow> Inl name | Inr ns \<Rightarrow> Inr (n # ns)))"

section \<open>Loading\<close>

text \<open>\<^verbatim>\<open>Load\<close>. Reading a file and the two directions of the YAML library, text to document and document to
  typed configuration, are arguments.\<close>

datatype LoadError =
    ErrReadConfig
  | ErrDecodeDocument
  | ErrExpandConfig string
  | ErrDecodeConfig
  | ErrInvalidConfig ConfigError

record config_source =
  src_ReadFile :: "string \<Rightarrow> bytes option"
  src_Unmarshal :: "bytes \<Rightarrow> Node option"
  src_Decode :: "Node \<Rightarrow> Config option"
  src_LookupEnv :: "string \<Rightarrow> string option"

definition Load ::
  "(string \<Rightarrow> URL option) \<Rightarrow> unicode_case \<Rightarrow> config_source \<Rightarrow> string \<Rightarrow> LoadError + Config" where
  "Load parse U src path =
    (case src_ReadFile src path of
       None \<Rightarrow> Inl ErrReadConfig
     | Some data \<Rightarrow>
         (case src_Unmarshal src data of
            None \<Rightarrow> Inl ErrDecodeDocument
          | Some document \<Rightarrow>
              (case expandEnvironment (src_LookupEnv src) document of
                 Inl name \<Rightarrow> Inl (ErrExpandConfig name)
               | Inr document \<Rightarrow>
                   (case src_Decode src document of
                      None \<Rightarrow> Inl ErrDecodeConfig
                    | Some cfg \<Rightarrow>
                        (case Validate parse U cfg of
                           Some e \<Rightarrow> Inl (ErrInvalidConfig e)
                         | None \<Rightarrow> Inr cfg)))))"

section \<open>When validation accepts\<close>

lemma first_error_None [simp]: "first_error cs = None \<longleftrightarrow> (\<forall>c \<in> set cs. c = None)"
  by (induction cs rule: first_error.induct) auto

lemma check_None [simp]: "check failed e = None \<longleftrightarrow> \<not> failed"
  by (simp add: check_def)

lemma check_all_None [simp]: "check_all f xs = None \<longleftrightarrow> (\<forall>i < length xs. f i (xs ! i) = None)"
proof -
  have "set (zip [0..<length xs] xs) = (\<lambda>i. (i, xs ! i)) ` {..<length xs}" by (force simp: set_zip)
  then show ?thesis by (auto simp: check_all_def)
qed

lemma all_nth: "(\<forall>i < length xs. P (xs ! i)) \<longleftrightarrow> (\<forall>x \<in> set xs. P x)"
  by (metis in_set_conv_nth)

lemma check_all_uniform: "check_all (\<lambda>i x. f x) xs = None \<longleftrightarrow> (\<forall>x \<in> set xs. f x = None)"
  by (simp add: all_nth [of xs "\<lambda>x. f x = None"])

lemma Validate_None:
  "Validate parse U c = None \<longleftrightarrow>
    TrimSpace (ListenAddress c) \<noteq> '''' \<and> BackendPools c \<noteq> [] \<and>
    validateRateLimit ''rate_limit'' (cfgRateLimit c) = None \<and>
    (\<forall>key \<in> set (APIKeys c). isValidAPIKey key) \<and> validateCORS parse U (cfgCORS c) = None \<and>
    (\<forall>(name, pool) \<in> set (BackendPools c). validatePool parse name pool = None) \<and>
    Routes c \<noteq> [] \<and> (\<forall>r \<in> set (Routes c). validateRoute c r = None)"
proof -
  have "check_all (\<lambda>i (name, pool). validatePool parse name pool) (BackendPools c) = None
      \<longleftrightarrow> (\<forall>(name, pool) \<in> set (BackendPools c). validatePool parse name pool = None)"
    using check_all_uniform [of "\<lambda>(name, pool). validatePool parse name pool" "BackendPools c"]
    by (simp add: split_def)
  then show ?thesis
    unfolding Validate_def first_error_None using check_all_uniform [of "validateRoute c" "Routes c"]
    by (simp add: all_nth [of "APIKeys c" isValidAPIKey] del: check_all_None) (auto simp: all_nth)
qed

lemma validatePool_None:
  "validatePool parse name pool = None \<longleftrightarrow>
    TrimSpace name \<noteq> '''' \<and> (poolStrategy pool = ''round_robin'' \<or> poolStrategy pool = ''least_connections'') \<and>
    poolBackends pool \<noteq> [] \<and>
    (\<forall>u \<in> set (poolBackends pool). \<exists>p. parse u = Some p \<and> Scheme p \<noteq> '''' \<and> Host p \<noteq> '''') \<and>
    validateHealthCheck name (poolHealthCheck pool) = None \<and>
    0 \<le> cbFailureThreshold (poolCircuitBreaker pool) \<and> 0 \<le> cbOpenTimeout (poolCircuitBreaker pool) \<and>
    0 \<le> cbHalfOpenMaxRequests (poolCircuitBreaker pool)"
proof -
  have "(\<forall>i < length (poolBackends pool). \<not> (case parse (poolBackends pool ! i) of None \<Rightarrow> True | Some p \<Rightarrow> Scheme p = '''' \<or> Host p = ''''))
    \<longleftrightarrow> (\<forall>u \<in> set (poolBackends pool). \<exists>p. parse u = Some p \<and> Scheme p \<noteq> '''' \<and> Host p \<noteq> '''')"
    unfolding all_nth [of "poolBackends pool" "\<lambda>u. \<not> (case parse u of None \<Rightarrow> True | Some p \<Rightarrow> Scheme p = '''' \<or> Host p = '''')"]
    by (auto split: option.splits)
  then show ?thesis unfolding validatePool_def first_error_None by (auto simp: not_less)
qed

section \<open>Placeholders\<close>

text \<open>A value as literal characters and placeholders.\<close>

datatype part = Lit char | Var string

fun render_part :: "part \<Rightarrow> string" where
  "render_part (Lit c) = [c]"
| "render_part (Var name) = ''$'' @ [CHR 0x7B] @ name @ [CHR 0x7D]"

definition render_parts :: "part list \<Rightarrow> string" where
  "render_parts ps = concat (map render_part ps)"

definition variable_name :: "string \<Rightarrow> bool" where
  "variable_name name = (name \<noteq> '''' \<and> is_name_start (hd name) \<and> list_all is_name_char name)"

definition starts_placeholder :: "string \<Rightarrow> bool" where
  "starts_placeholder s = (\<exists>name rest. variable_name name \<and> s = render_part (Var name) @ rest)"

text \<open>The parts are a reading of the text they render: no placeholder starts at a character that is read as
  a literal one. A dollar sign is a literal character unless it starts a placeholder.\<close>

fun reading :: "part list \<Rightarrow> bool" where
  "reading [] = True"
| "reading (Lit c # ps) = (\<not> starts_placeholder (c # render_parts ps) \<and> reading ps)"
| "reading (Var name # ps) = (variable_name name \<and> reading ps)"

fun part_value :: "(string \<Rightarrow> string option) \<Rightarrow> part \<Rightarrow> string" where
  "part_value lookup (Lit c) = [c]"
| "part_value lookup (Var name) = (case lookup name of None \<Rightarrow> '''' | Some v \<Rightarrow> v)"

definition missing_names :: "(string \<Rightarrow> string option) \<Rightarrow> part list \<Rightarrow> string list" where
  "missing_names lookup ps = concat (map (\<lambda>p. case p of Var n \<Rightarrow> if lookup n = None then [n] else [] | _ \<Rightarrow> []) ps)"

lemma render_parts_simps [simp]:
  "render_parts [] = ''''" "render_parts (p # ps) = render_part p @ render_parts ps"
  by (simp_all add: render_parts_def)

lemma placeholder_at_Var:
  assumes "variable_name name"
  shows "placeholder_at (render_part (Var name) @ s) = Some (name, s)"
proof -
  have close: "\<not> is_name_char CHR 0x7D" by code_simp
  have "\<forall>c \<in> set name. is_name_char c" using assms by (simp add: variable_name_def list_all_iff)
  then have "takeWhile is_name_char (name @ CHR 0x7D # s) = name" "dropWhile is_name_char (name @ CHR 0x7D # s) = CHR 0x7D # s"
    using close by (simp_all add: takeWhile_append2 dropWhile_append2)
  with assms close show ?thesis by (simp add: placeholder_at_def variable_name_def)
qed

lemma placeholder_at_Some:
  assumes "placeholder_at s = Some (name, rest)"
  shows "variable_name name \<and> s = render_part (Var name) @ rest"
proof -
  obtain t where s: "s = CHR ''$'' # CHR 0x7B # t"
    using assms unfolding placeholder_at_def by (auto split: list.splits char.splits bool.splits)
  with assms have t: "name = takeWhile is_name_char t" "name \<noteq> ''''" "is_name_start (hd name)"
      "dropWhile is_name_char t \<noteq> ''''" "hd (dropWhile is_name_char t) = CHR 0x7D" "rest = tl (dropWhile is_name_char t)"
    by (simp_all add: placeholder_at_def Let_def split: if_splits)
  have "dropWhile is_name_char t = CHR 0x7D # rest" using list.collapse [OF t(4)] unfolding t(5) t(6) [symmetric] by (rule sym)
  then have "t = name @ CHR 0x7D # rest" using takeWhile_dropWhile_id [of is_name_char t] unfolding t(1) by metis
  moreover have "list_all is_name_char name" unfolding t(1) list_all_iff by (blast dest: set_takeWhileD)
  ultimately show ?thesis using s t(2,3) by (simp add: variable_name_def)
qed

lemma placeholder_at_None: "placeholder_at s = None \<longleftrightarrow> \<not> starts_placeholder s"
proof
  show "placeholder_at s = None \<Longrightarrow> \<not> starts_placeholder s"
    using placeholder_at_Var by (auto simp: starts_placeholder_def simp del: render_part.simps)
  show "\<not> starts_placeholder s \<Longrightarrow> placeholder_at s = None"
    using placeholder_at_Some unfolding starts_placeholder_def by (metis option.exhaust surj_pair)
qed

text \<open>Every text has a reading.\<close>

lemma reading_exists: "\<exists>ps. reading ps \<and> render_parts ps = s"
proof (induction s rule: length_induct)
  case (1 s)
  show ?case
  proof (cases "placeholder_at s")
    case None
    show ?thesis
    proof (cases s)
      case Nil
      then show ?thesis by (intro exI [of _ "[]"]) simp
    next
      case (Cons c u)
      then obtain ps where "reading ps" "render_parts ps = u" using 1 by force
      then show ?thesis using None Cons placeholder_at_None by (intro exI [of _ "Lit c # ps"]) simp
    qed
  next
    case (Some nr)
    obtain name rest where nr: "nr = (name, rest)" by fastforce
    then have s: "variable_name name" "s = render_part (Var name) @ rest" using placeholder_at_Some Some by auto
    then obtain ps where "reading ps" "render_parts ps = rest" using 1 placeholder_at_shorter Some nr by blast
    then show ?thesis using s by (intro exI [of _ "Var name # ps"]) simp
  qed
qed

lemma expandString_render:
  assumes "reading ps"
  shows "expandString lookup (render_parts ps) =
    (concat (map (part_value lookup) ps),
     (case missing_names lookup ps of [] \<Rightarrow> None | n # _ \<Rightarrow> Some n))"
  using assms
proof (induction ps rule: reading.induct)
  case 1
  show ?case by (subst expandString.simps) (simp add: placeholder_at_def missing_names_def)
next
  case (2 c ps)
  then have "placeholder_at (c # render_parts ps) = None" by (simp add: placeholder_at_None)
  then show ?case using 2 by (subst expandString.simps) (simp add: missing_names_def)
next
  case (3 name ps)
  then have ph: "placeholder_at (render_parts (Var name # ps)) = Some (name, render_parts ps)"
    using placeholder_at_Var [of name "render_parts ps"] by simp
  show ?case
    unfolding expandString.simps [of lookup "render_parts (Var name # ps)"] ph
    using 3 by (simp add: missing_names_def split: option.splits)
qed

section \<open>Whole documents\<close>

text \<open>A document whose string scalars are written as parts; every other node keeps its text.\<close>

datatype template = Template NodeKind string "part list" "template list"

definition is_string_node :: "NodeKind \<Rightarrow> string \<Rightarrow> bool" where
  "is_string_node kind tag = (kind = ScalarNode \<and> tag = ''!!str'')"

fun render_template :: "template \<Rightarrow> Node" where
  "render_template (Template kind tag ps ts) =
    Node kind tag (render_parts ps) (map render_template ts)"

fun template_ok :: "template \<Rightarrow> bool" where
  "template_ok (Template kind tag ps ts) = ((is_string_node kind tag \<longrightarrow> reading ps) \<and> list_all template_ok ts)"

fun template_value :: "(string \<Rightarrow> string option) \<Rightarrow> template \<Rightarrow> Node" where
  "template_value lookup (Template kind tag ps ts) =
    Node kind tag
      (concat (map (if is_string_node kind tag then part_value lookup else render_part) ps))
      (map (template_value lookup) ts)"

fun template_missing :: "(string \<Rightarrow> string option) \<Rightarrow> template \<Rightarrow> string list" where
  "template_missing lookup (Template kind tag ps ts) =
    (if is_string_node kind tag then missing_names lookup ps else []) @
    concat (map (template_missing lookup) ts)"

definition expansion_result :: "string list \<Rightarrow> 'a \<Rightarrow> string + 'a" where
  "expansion_result missing v = (case missing of [] \<Rightarrow> Inr v | name # _ \<Rightarrow> Inl name)"

lemma expandChildren_render:
  assumes "\<And>t. t \<in> set ts \<Longrightarrow>
    expandEnvironment lookup (render_template t) = expansion_result (template_missing lookup t) (template_value lookup t)"
  shows "expandChildren lookup (map render_template ts) =
    expansion_result (concat (map (template_missing lookup) ts)) (map (template_value lookup) ts)"
  using assms
  by (induction ts) (auto simp: expansion_result_def simp del: concat_eq_Nil_conv Nil_eq_concat_conv split: list.splits)

lemma expandEnvironment_node:
  "expandEnvironment lookup (Node kind tag value content) =
    (case (if is_string_node kind tag then expandString lookup value else (value, None)) of
       (v, Some name) \<Rightarrow> Inl name
     | (v, None) \<Rightarrow>
         (case expandChildren lookup content of Inl name \<Rightarrow> Inl name | Inr content \<Rightarrow> Inr (Node kind tag v content)))"
  by (simp add: is_string_node_def split: prod.splits option.splits)

lemma template_exists: "\<exists>t. template_ok t \<and> render_template t = document"
proof (induction document)
  case (Node kind tag v content)
  then obtain f where f: "\<And>n. n \<in> set content \<Longrightarrow> template_ok (f n) \<and> render_template (f n) = n" by metis
  obtain ps where "reading ps" "render_parts ps = v" using reading_exists by blast
  then show ?case
    using f by (intro exI [of _ "Template kind tag ps (map f content)"]) (simp add: list_all_iff map_idI)
qed

lemma non_string_parts: "concat (map render_part ps) = render_parts ps"
  by (simp add: render_parts_def)

lemma expandEnvironment_render:
  "template_ok t \<Longrightarrow>
    expandEnvironment lookup (render_template t) = expansion_result (template_missing lookup t) (template_value lookup t)"
proof (induction t)
  case (Template kind tag ps ts)
  then have "expandChildren lookup (map render_template ts) =
      expansion_result (concat (map (template_missing lookup) ts)) (map (template_value lookup) ts)"
    by (intro expandChildren_render) (simp add: list_all_iff)
  with Template.prems show ?case
    by (auto simp: expandEnvironment_node expandString_render expansion_result_def non_string_parts
      simp del: expandEnvironment.simps concat_eq_Nil_conv Nil_eq_concat_conv split: list.splits)
qed

text \<open>C40 (functional). Loading a configuration document replaces, in the string scalars and nowhere else,
  every placeholder \<^verbatim>\<open>${NAME}\<close> by the value of its variable and leaves the other text as written, dollar signs that start
  no placeholder included; the values it inserts are not expanded again. If variables are not set, the load fails and names
  the one that comes first in the document. Every document can be read as a template of placeholders and
  literal text in which no placeholder is left in the literal text, and what is said holds for every such reading.\<close>

theorem expansion_of_document:
  "(\<exists>t. template_ok t \<and> render_template t = document)
    \<and> (\<forall>t. template_ok t \<and> render_template t = document \<longrightarrow>
        expandEnvironment lookup document =
          (case template_missing lookup t of
             [] \<Rightarrow> Inr (template_value lookup t)
           | name # _ \<Rightarrow> Inl name))"
  using template_exists expandEnvironment_render unfolding expansion_result_def by blast

text \<open>The value \<^verbatim>\<open>$HOME${KEY}${1x}\<close>: one placeholder, whose value looks like another one.\<close>

definition sample_parts :: "part list" where
  "sample_parts = map Lit ''$HOME'' @ [Var ''KEY''] @ map Lit ([CHR ''$'', CHR 0x7B] @ ''1x'' @ [CHR 0x7D])"

lemma sample_parts_reading: "reading sample_parts"
proof -
  have names: "variable_name ''KEY''" "\<not> is_name_start CHR ''1''" "\<not> is_name_start CHR 0x7B" by code_simp+
  have "placeholder_at (drop k (render_parts sample_parts)) = None" if "k < 5 \<or> 11 \<le> k" "k < 16" for k
  proof -
    have "k \<in> {0, 1, 2, 3, 4, 11, 12, 13, 14, 15}" using that by auto
    moreover have "list_all (\<lambda>k. placeholder_at (drop k (render_parts sample_parts)) = None) [0, 1, 2, 3, 4, 11, 12, 13, 14, 15]"
      by code_simp
    ultimately show ?thesis by auto
  qed
  note at = this
  show ?thesis
    using names at [of 0] at [of 1] at [of 2] at [of 3] at [of 4] at [of 11] at [of 12] at [of 13] at [of 14] at [of 15]
    by (simp add: sample_parts_def placeholder_at_None)
qed

theorem expansion_of_document_witness:
  "expandEnvironment (\<lambda>n. if n = ''KEY'' then Some [CHR ''$'', CHR 0x7B, CHR ''A'', CHR 0x7D] else None)
     (Node OtherNode ''!!map'' '''' [Node ScalarNode ''!!str'' (render_parts sample_parts) [], Node ScalarNode ''!!int'' (render_parts sample_parts) []])
   = Inr (Node OtherNode ''!!map'' ''''
       [Node ScalarNode ''!!str'' (''$HOME'' @ [CHR ''$'', CHR 0x7B, CHR ''A'', CHR 0x7D, CHR ''$'', CHR 0x7B] @ ''1x'' @ [CHR 0x7D]) [],
        Node ScalarNode ''!!int'' (render_parts sample_parts) []])"
proof -
  let ?t = "Template OtherNode ''!!map'' [] [Template ScalarNode ''!!str'' sample_parts [], Template ScalarNode ''!!int'' sample_parts []]"
  let ?d = "Node OtherNode ''!!map'' '''' [Node ScalarNode ''!!str'' (render_parts sample_parts) [], Node ScalarNode ''!!int'' (render_parts sample_parts) []]"
  let ?env = "\<lambda>n. if n = ''KEY'' then Some [CHR ''$'', CHR 0x7B, CHR ''A'', CHR 0x7D] else None"
  have ok: "template_ok ?t \<and> render_template ?t = ?d" using sample_parts_reading by simp
  have all_set: "template_missing ?env ?t = []" by (simp add: is_string_node_def missing_names_def sample_parts_def)
  have "expandEnvironment ?env ?d = Inr (template_value ?env ?t)"
    using expansion_of_document [of ?d ?env] ok unfolding all_set by (metis list.case(1) all_set)
  moreover have "template_value ?env ?t = Node OtherNode ''!!map'' ''''
      [Node ScalarNode ''!!str'' (''$HOME'' @ [CHR ''$'', CHR 0x7B, CHR ''A'', CHR 0x7D, CHR ''$'', CHR 0x7B] @ ''1x'' @ [CHR 0x7D]) [],
       Node ScalarNode ''!!int'' (render_parts sample_parts) []]"
    by (simp add: is_string_node_def sample_parts_def)
  ultimately show ?thesis by simp
qed

section \<open>The order of the pools\<close>

text \<open>Go visits the map of backend pools in a random order. Whether a configuration is accepted
  does not depend on it: validation agrees on any two orders of the same pools.\<close>

theorem validation_order_irrelevant:
  assumes "mset ps = mset (BackendPools c)"
  shows "Validate parse U (c\<lparr>BackendPools := ps\<rparr>) = None \<longleftrightarrow> Validate parse U c = None"
proof -
  have same: "set ps = set (BackendPools c)" "ps = [] \<longleftrightarrow> BackendPools c = []"
    using mset_eq_setD [OF assms] assms by auto
  then have "map_of ps name = None \<longleftrightarrow> map_of (BackendPools c) name = None" for name
    by (simp add: map_of_eq_None_iff)
  then have "validateRoute (c\<lparr>BackendPools := ps\<rparr>) r = validateRoute c r" for r
    by (simp add: validateRoute_def)
  with same show ?thesis by (simp add: Validate_None)
qed

definition sample_pool_config :: PoolConfig where
  "sample_pool_config =
    \<lparr>poolStrategy = ''round_robin'', poolBackends = [''http://h''],
     poolHealthCheck = \<lparr>checkPath = '''', checkInterval = 0, checkTimeout = 0\<rparr>,
     poolCircuitBreaker = \<lparr>cbFailureThreshold = 0, cbOpenTimeout = 0, cbHalfOpenMaxRequests = 0\<rparr>\<rparr>"

definition sample_cfg :: Config where
  "sample_cfg =
    \<lparr>ListenAddress = '':8080'', cfgTimeouts = \<lparr>timeoutRequest = 0, timeoutDial = 0, timeoutTLSHandshake = 0,
       timeoutResponseHeader = 0, timeoutIdleConnection = 0\<rparr>,
     cfgRateLimit = \<lparr>RequestsPerSecond = Fin 0, Burst = 0\<rparr>, APIKeys = [''k''],
     cfgCORS = \<lparr>AllowedOrigins = [], AllowedMethods = [], AllowedHeaders = [], ExposedHeaders = [],
       AllowCredentials = False, MaxAge = 0\<rparr>,
     BackendPools = [(''a'', sample_pool_config), (''b'', sample_pool_config)],
     Routes = [\<lparr>PathPrefix = ''/a'', BackendPool = ''a'', routeRateLimit = Some \<lparr>RequestsPerSecond = Fin 2, Burst = 3\<rparr>,
       routeCache = Some \<lparr>cacheTTL = 5, cacheMaxEntries = 9\<rparr>, Protected = True\<rparr>]\<rparr>"

definition sample_parse :: "string \<Rightarrow> URL option" where
  "sample_parse s =
    (if s = ''http://h'' then Some \<lparr>Scheme = ''http'', Opaque = '''', hasUser = False, Host = ''h'', Path = '''',
       RawPath = '''', ForceQuery = False, RawQuery = '''', Fragment = ''''\<rparr> else None)"

definition sample_case :: unicode_case where
  "sample_case = \<lparr>uToLower = id, uToUpper = id, uEqualFold = (=)\<rparr>"

lemma sample_cfg_valid: "Validate sample_parse U sample_cfg = None"
proof -
  have names: "TrimSpace ''a'' \<noteq> ''''" "TrimSpace ''b'' \<noteq> ''''" "TrimSpace '':8080'' \<noteq> ''''"
    by (simp_all add: TrimSpace_keep visible_def)
  have key: "isValidAPIKey ''k''" by code_simp
  have limits: "validateRateLimit n \<lparr>RequestsPerSecond = Fin 0, Burst = 0\<rparr> = None"
    "validateRateLimit n \<lparr>RequestsPerSecond = Fin 2, Burst = 3\<rparr> = None" for n
    by (simp_all add: validateRateLimit_def IsNaN_def IsInf_def less_float64_def)
  show ?thesis
    unfolding Validate_None
    using names key limits
    by (simp add: sample_cfg_def sample_pool_config_def validatePool_None validateRoute_def validateHealthCheck_def
      validateCORS_def validateCache_def HasPrefix_def sample_parse_def)
qed

theorem validation_order_irrelevant_witness:
  "Validate sample_parse sample_case (sample_cfg\<lparr>BackendPools := [(''b'', sample_pool_config), (''a'', sample_pool_config)]\<rparr>) = None"
  using validation_order_irrelevant [of "[(''b'', sample_pool_config), (''a'', sample_pool_config)]" sample_cfg sample_parse sample_case]
    sample_cfg_valid [of sample_case]
  by (simp add: sample_cfg_def)

end
