(* ===== verification/Cache_Policy.thy ===== *)
theory Cache_Policy
  imports Http
begin

text \<open>
  Which requests and responses the route cache handles and under which key, the functions of
  \<^verbatim>\<open>src/internal/proxy/cache.go\<close> on requests and headers.
\<close>

section \<open>Model\<close>

definition maxCacheableResponseBytes :: nat where
  "maxCacheableResponseBytes = 1048576"

definition directive_prevents_caching :: "unicode_case \<Rightarrow> string \<Rightarrow> bool" where
  "directive_prevents_caching U directive =
    (let (name, argument, hasArgument) = Cut (TrimSpace directive) CHR ''='';
         lower = ToLower U name
     in if lower = ''no-cache'' \<or> lower = ''no-store'' \<or> lower = ''private'' then True
        else if lower = ''max-age'' \<or> lower = ''s-maxage''
          then hasArgument \<and> Trim (TrimSpace argument) CHR 0x22 = ''0''
        else False)"

definition cacheControlPreventsCaching :: "unicode_case \<Rightarrow> Header \<Rightarrow> bool" where
  "cacheControlPreventsCaching U h =
    list_ex (\<lambda>value. list_ex (directive_prevents_caching U) (Split value CHR '',''))
      (Header_Values h ''Cache-Control'')"

definition headerHasDirective :: "unicode_case \<Rightarrow> string list \<Rightarrow> string \<Rightarrow> bool" where
  "headerHasDirective U values wanted =
    list_ex (\<lambda>value. list_ex (\<lambda>directive. EqualFold U (TrimSpace directive) wanted) (Split value CHR '','')) values"

definition responseHeadersPreventCaching :: "unicode_case \<Rightarrow> Header \<Rightarrow> bool" where
  "responseHeadersPreventCaching U h =
    (cacheControlPreventsCaching U h \<or>
     Header_Get h ''Set-Cookie'' \<noteq> '''' \<or>
     Header_Get h ''Vary'' \<noteq> '''' \<or>
     Header_Get h ''Content-Range'' \<noteq> '''' \<or>
     Header_Get h ''Content-Encoding'' \<noteq> '''' \<or>
     Header_Get h ''Trailer'' \<noteq> '''')"

definition isCacheableRequest :: "unicode_case \<Rightarrow> Request \<Rightarrow> bool" where
  "isCacheableRequest U r =
    (if Method r \<noteq> ''GET'' \<or> hasBody r then False
     else if list_ex (\<lambda>name. Header_Get (RequestHeader r) name \<noteq> '''')
       [''Authorization'', ''Cookie'', ''If-Match'', ''If-Modified-Since'', ''If-None-Match'', ''If-Range'',
        ''If-Unmodified-Since'', ''Range'', ''Upgrade''] then False
     else \<not> cacheControlPreventsCaching U (RequestHeader r) \<and>
       \<not> headerHasDirective U (Header_Values (RequestHeader r) ''Pragma'') ''no-cache'')"

definition responseCacheKey :: "unicode_case \<Rightarrow> Request \<Rightarrow> string" where
  "responseCacheKey U r =
    (let scheme = (if overTLS r then ''https'' else ''http'')
     in scheme @ [CHR 0x00] @ ToLower U (RequestHost r) @ [CHR 0x00] @ RequestURI (requestURL r))"

section \<open>Keys\<close>

lemma cut_at_separator:
  assumes "c \<notin> set xs" "c \<notin> set xs'"
  shows "xs @ c # ys = xs' @ c # ys' \<longleftrightarrow> xs = xs' \<and> ys = ys'"
proof
  assume eq: "xs @ c # ys = xs' @ c # ys'"
  have "takeWhile (\<lambda>x. x \<noteq> c) (zs @ c # ws) = zs" if "c \<notin> set zs" for zs ws
    using that by (induction zs) auto
  then have "xs = xs'" using eq assms by metis
  with eq show "xs = xs' \<and> ys = ys'" by simp
qed simp

lemma escape_no_question: "CHR ''?'' \<notin> set (escape s)"
proof -
  have "CHR ''?'' \<notin> set (escape_char c)" for c
  proof (cases "shouldEscape c")
    case True
    have digit: "hex_digit n \<noteq> CHR ''?''" if "n < 16" for n
    proof
      assume "hex_digit n = CHR ''?''"
      then have "(of_char (hex_digit n) :: nat) = 63" by simp
      then show False using of_char_hex_digit [OF that] that by (simp split: if_splits)
    qed
    have "of_char c < (16 * 16 :: nat)" by simp
    then have "of_char c div 16 < (16 :: nat)" by (rule less_mult_imp_div_less)
    then have "hex_digit (of_char c div 16) \<noteq> CHR ''?''" "hex_digit (of_char c mod 16) \<noteq> CHR ''?''"
      by (simp_all add: digit)
    then show ?thesis using True by (auto simp: escape_char_def Let_def)
  next
    case False
    moreover have "shouldEscape CHR ''?''" by code_simp
    ultimately show ?thesis by (auto simp: escape_char_def)
  qed
  then show ?thesis by (auto simp: escape_def)
qed

lemma EscapedPath_no_question: "CHR ''?'' \<notin> set (EscapedPath u)"
proof -
  have "\<not> (CHR ''?'' \<in> set ''!$&()*+,;=:@[]%'' \<or> CHR ''?'' = CHR 0x27 \<or> \<not> shouldEscape CHR ''?'')" by code_simp
  then have "validEncoded s \<Longrightarrow> CHR ''?'' \<notin> set s" for s
    unfolding validEncoded_def list_all_iff by blast
  then show ?thesis by (auto simp: EscapedPath_def escape_no_question)
qed

definition visible_path :: "URL \<Rightarrow> string" where
  "visible_path u = (if Path u = '''' then ''/'' else Path u)"

lemma unescape_Nil: "unescape s = Some [] \<Longrightarrow> s = []"
  by (cases s) (auto split: if_splits list.splits option.splits)

lemma RequestURI_parts:
  assumes "Opaque u = ''''"
  obtains p q where "RequestURI u = p @ q" "CHR ''?'' \<notin> set p" "unescape p = Some (visible_path u)"
    "q = '''' \<and> RawQuery u = '''' \<or> q = CHR ''?'' # RawQuery u"
proof -
  let ?p = "if EscapedPath u = [] then ''/'' else EscapedPath u"
  have "unescape ?p = Some (visible_path u)"
    using unescape_EscapedPath [of u] unescape_Nil [of "EscapedPath u"] by (auto simp: visible_path_def)
  moreover have "CHR ''?'' \<notin> set ?p" using EscapedPath_no_question [of u] by simp
  ultimately show ?thesis
    using that [of ?p "if ForceQuery u \<or> RawQuery u \<noteq> [] then CHR ''?'' # RawQuery u else ''''"] assms
    by (auto simp: RequestURI_def Let_def)
qed

lemma RequestURI_separates:
  assumes "Opaque u = ''''" "Opaque v = ''''" "RequestURI u = RequestURI v"
  shows "visible_path u = visible_path v \<and> RawQuery u = RawQuery v"
proof -
  obtain p q where u: "RequestURI u = p @ q" "CHR ''?'' \<notin> set p" "unescape p = Some (visible_path u)"
    "q = '''' \<and> RawQuery u = '''' \<or> q = CHR ''?'' # RawQuery u" using RequestURI_parts [OF assms(1)] .
  obtain p' q' where v: "RequestURI v = p' @ q'" "CHR ''?'' \<notin> set p'" "unescape p' = Some (visible_path v)"
    "q' = '''' \<and> RawQuery v = '''' \<or> q' = CHR ''?'' # RawQuery v" using RequestURI_parts [OF assms(2)] .
  have eq: "p @ q = p' @ q'" using assms(3) u(1) v(1) by simp
  have "p = p' \<and> RawQuery u = RawQuery v"
  proof (cases "q = ''''"; cases "q' = ''''")
    assume "q \<noteq> ''''" "q' \<noteq> ''''"
    then show ?thesis using eq u v cut_at_separator [OF u(2) v(2)] by auto
  qed (use eq u v in auto)
  then show ?thesis using u(3) v(3) by simp
qed

text \<open>C24 (safety). Two requests share a cache entry only if they ask for the same resource: the key of the
  route cache determines whether the client used TLS, the host up to case, the path and the query,
  so no request is answered with the response to another one. Hosts contain no NUL byte, as the HTTP
  server rejects such requests, and the URLs are not opaque: those of requests to the gateway name a path.\<close>

theorem cache_key_identifies_resource:
  assumes "CHR 0x00 \<notin> set (ToLower U (RequestHost r))" "CHR 0x00 \<notin> set (ToLower U (RequestHost s))"
    and "Opaque (requestURL r) = ''''" "Opaque (requestURL s) = ''''"
    and "responseCacheKey U r = responseCacheKey U s"
  shows "overTLS r = overTLS s \<and> ToLower U (RequestHost r) = ToLower U (RequestHost s)
    \<and> visible_path (requestURL r) = visible_path (requestURL s)
    \<and> RawQuery (requestURL r) = RawQuery (requestURL s)"
proof -
  define scheme where "scheme q = (if overTLS q then ''https'' else ''http'')" for q :: Request
  have no_nul: "CHR 0x00 \<notin> set (scheme q)" for q by (simp add: scheme_def)
  have "scheme r @ CHR 0x00 # ToLower U (RequestHost r) @ CHR 0x00 # RequestURI (requestURL r) =
      scheme s @ CHR 0x00 # ToLower U (RequestHost s) @ CHR 0x00 # RequestURI (requestURL s)"
    using assms(5) by (simp add: responseCacheKey_def Let_def scheme_def)
  then have "scheme r = scheme s" "ToLower U (RequestHost r) = ToLower U (RequestHost s)"
    "RequestURI (requestURL r) = RequestURI (requestURL s)"
    by (simp_all add: cut_at_separator no_nul assms(1,2))
  with RequestURI_separates [OF assms(3,4)] show ?thesis by (auto simp: scheme_def split: if_splits)
qed

definition sample_item_url :: URL where
  "sample_item_url =
    \<lparr>Scheme = '''', Opaque = '''', hasUser = False, Host = '''', Path = ''/a b'', RawPath = '''',
     ForceQuery = False, RawQuery = ''x=1'', Fragment = ''''\<rparr>"

definition sample_request :: Request where
  "sample_request =
    \<lparr>Method = ''GET'', requestURL = sample_item_url, RequestHeader = [], hasBody = False, RequestHost = ''Shop'',
     overTLS = False, RemoteAddr = ''192.0.2.1:9'', ctxMetadata = None\<rparr>"

theorem cache_key_identifies_resource_witness:
  "responseCacheKey \<lparr>uToLower = id, uToUpper = id, uEqualFold = (=)\<rparr> sample_request = ''http'' @ [CHR 0x00] @ ''shop'' @ [CHR 0x00] @ ''/a%20b?x=1'' \<and>
   RawQuery (requestURL sample_request) = RawQuery (requestURL (sample_request\<lparr>RequestHost := ''sHOP''\<rparr>))"
proof -
  let ?U = "\<lparr>uToLower = id, uToUpper = id, uEqualFold = (=)\<rparr>"
  have low: "ToLower ?U ''Shop'' = ''shop''" "ToLower ?U ''sHOP'' = ''shop''"
  proof -
    have "is_ascii ''Shop''" "is_ascii ''sHOP''" "map ascii_lower ''Shop'' = ''shop''" "map ascii_lower ''sHOP'' = ''shop''"
      by code_simp+
    then show "ToLower ?U ''Shop'' = ''shop''" "ToLower ?U ''sHOP'' = ''shop''" by (simp_all add: ToLower_def)
  qed
  have esc: "EscapedPath sample_item_url = ''/a%20b''" by code_simp
  have key: "responseCacheKey ?U (sample_request\<lparr>RequestHost := h\<rparr>) = ''http'' @ [CHR 0x00] @ ''shop'' @ [CHR 0x00] @ ''/a%20b?x=1''"
    if "ToLower ?U h = ''shop''" for h
    using that esc by (simp add: responseCacheKey_def sample_request_def RequestURI_def Let_def) (simp add: sample_item_url_def)
  have same: "sample_request\<lparr>RequestHost := ''Shop''\<rparr> = sample_request" by (simp add: sample_request_def)
  show ?thesis
    using cache_key_identifies_resource [of ?U sample_request "sample_request\<lparr>RequestHost := ''sHOP''\<rparr>"]
      key [OF low(1)] key [OF low(2)] low unfolding same
    by (simp add: sample_request_def sample_item_url_def)
qed

end
