(* ===== verification/Response_Writers.thy ===== *)
theory Response_Writers
  imports Cache_Policy
begin

text \<open>
  The response writers the gateway puts around the one of the HTTP server: the request logger's
  (\<^verbatim>\<open>src/internal/middleware/logging.go\<close>), the metrics recorder's
  (\<^verbatim>\<open>src/internal/metrics/prometheus.go\<close>) and the response cache's (\<^verbatim>\<open>src/internal/proxy/cache.go\<close>).

  Each embeds the writer it wraps, so a writer is a stack of wrappers over the server's. A wrapper's
  \<^verbatim>\<open>WriteHeader\<close> is given as the new values of its fields and whether it calls the embedded one, always
  with the status it received. A status the server refuses makes the whole call panic; what the wrappers have noted by then stays.
  Each wrapper has an \<^verbatim>\<open>Unwrap\<close>, through which the connection is taken over past it.
\<close>

section \<open>Model\<close>

record loggingResponseWriter =
  log_statusCode :: int
  bytesWritten :: int
  log_wroteHeader :: bool

record responseWriter =
  met_statusCode :: int
  met_wroteHeader :: bool

record cacheResponseWriter =
  cap_statusCode :: int
  cap_header :: Header
  cap_body :: bytes
  cap_wroteHeader :: bool
  recording :: bool
  writeFailed :: bool

datatype writer =
    Base base_writer
  | Logging loggingResponseWriter writer
  | Measuring responseWriter writer
  | Capturing cacheResponseWriter writer

primrec base_of :: "writer \<Rightarrow> base_writer" where
  "base_of (Base b) = b"
| "base_of (Logging l w) = base_of w"
| "base_of (Measuring m w) = base_of w"
| "base_of (Capturing c w) = base_of w"

text \<open>\<^verbatim>\<open>Header()\<close> is promoted from the embedded writer, and its result is the server's map, which the
  caller changes in place.\<close>

definition writer_Header :: "writer \<Rightarrow> Header" where
  "writer_Header w = base_header (base_of w)"

primrec update_header :: "(Header \<Rightarrow> Header) \<Rightarrow> writer \<Rightarrow> writer" where
  "update_header f (Base b) = Base (b\<lparr>base_header := f (base_header b)\<rparr>)"
| "update_header f (Logging l w) = Logging l (update_header f w)"
| "update_header f (Measuring m w) = Measuring m (update_header f w)"
| "update_header f (Capturing c w) = Capturing c (update_header f w)"

text \<open>\<^verbatim>\<open>http.ResponseController\<close> follows \<^verbatim>\<open>Unwrap\<close> to the server's writer: no wrapper notices.\<close>

primrec SwitchProtocols :: "writer \<Rightarrow> writer" where
  "SwitchProtocols (Base b) = Base (base_SwitchProtocols b)"
| "SwitchProtocols (Logging l w) = Logging l (SwitchProtocols w)"
| "SwitchProtocols (Measuring m w) = Measuring m (SwitchProtocols w)"
| "SwitchProtocols (Capturing c w) = Capturing c (SwitchProtocols w)"

definition loggingResponseWriter_WriteHeader ::
  "int \<Rightarrow> loggingResponseWriter \<Rightarrow> loggingResponseWriter \<times> bool" where
  "loggingResponseWriter_WriteHeader statusCode l =
    (if is_informational statusCode then (l, True)
     else if log_wroteHeader l then (l, False)
     else (l\<lparr>log_statusCode := statusCode, log_wroteHeader := True\<rparr>, True))"

definition responseWriter_WriteHeader :: "int \<Rightarrow> responseWriter \<Rightarrow> responseWriter \<times> bool" where
  "responseWriter_WriteHeader statusCode m =
    (if is_informational statusCode then (m, True)
     else if met_wroteHeader m then (m, False)
     else (m\<lparr>met_statusCode := statusCode, met_wroteHeader := True\<rparr>, True))"

definition cacheResponseWriter_WriteHeader ::
  "unicode_case \<Rightarrow> int \<Rightarrow> Header \<Rightarrow> cacheResponseWriter \<Rightarrow> cacheResponseWriter \<times> bool" where
  "cacheResponseWriter_WriteHeader U statusCode h c =
    (if is_informational statusCode then (c, True)
     else if cap_wroteHeader c then (c, False)
     else (c\<lparr>cap_statusCode := statusCode, cap_header := h, cap_wroteHeader := True,
             recording := (statusCode = 200 \<and> \<not> responseHeadersPreventCaching U h)\<rparr>, True))"

primrec WriteHeader :: "unicode_case \<Rightarrow> int \<Rightarrow> writer \<Rightarrow> writer" where
  "WriteHeader U status (Base b) = Base (base_WriteHeader status b)"
| "WriteHeader U status (Logging l w) =
    (let (l, call) = loggingResponseWriter_WriteHeader status l
     in Logging l (if call then WriteHeader U status w else w))"
| "WriteHeader U status (Measuring m w) =
    (let (m, call) = responseWriter_WriteHeader status m
     in Measuring m (if call then WriteHeader U status w else w))"
| "WriteHeader U status (Capturing c w) =
    (let (c, call) = cacheResponseWriter_WriteHeader U status (writer_Header w) c
     in Capturing c (if call then WriteHeader U status w else w))"

text \<open>The call that led from the first writer to the second one has panicked.\<close>

definition header_refused :: "writer \<Rightarrow> writer \<Rightarrow> bool" where
  "header_refused w w' = (refused (base_of w') \<noteq> refused (base_of w))"

text \<open>The rest of each \<^verbatim>\<open>Write\<close> once the embedded one has returned.\<close>

definition loggingResponseWriter_Write :: "nat \<Rightarrow> loggingResponseWriter \<Rightarrow> loggingResponseWriter" where
  "loggingResponseWriter_Write written l = l\<lparr>bytesWritten := int64_add (bytesWritten l) (int written)\<rparr>"

definition cacheResponseWriter_Write ::
  "bytes \<Rightarrow> nat \<Rightarrow> bool \<Rightarrow> cacheResponseWriter \<Rightarrow> cacheResponseWriter" where
  "cacheResponseWriter_Write body written err c =
    (let c = (if err \<or> written \<noteq> length body then c\<lparr>writeFailed := True\<rparr> else c)
     in if recording c then
          if length (cap_body c) + written > maxCacheableResponseBytes
          then c\<lparr>recording := False, cap_body := []\<rparr>
          else c\<lparr>cap_body := cap_body c @ take written body\<rparr>
        else c)"

text \<open>Every \<^verbatim>\<open>Write\<close> starts with the header when none was written yet: \<open>opened wrote f w\<close> are the
  wrapper's fields and the embedded writer after that, \<open>f\<close> being the wrapper's \<^verbatim>\<open>WriteHeader(200)\<close>.\<close>

definition opened :: "unicode_case \<Rightarrow> bool \<Rightarrow> 'f \<Rightarrow> 'f \<times> bool \<Rightarrow> writer \<Rightarrow> 'f \<times> writer" where
  "opened U wrote f f' w =
    (if wrote then (f, w) else (fst f', if snd f' then WriteHeader U 200 w else w))"

lemma size_update_header [simp]: "size (update_header f w) = size w"
  by (induction w) auto

lemma size_WriteHeader [simp]: "size (WriteHeader U s w) = size w"
  by (induction w) (auto split: prod.splits)

lemma size_opened: "opened U wrote f f' w = (g, w') \<Longrightarrow> size w' = size w"
  by (auto simp: opened_def split: if_splits)

function Write :: "unicode_case \<Rightarrow> bytes \<Rightarrow> writer \<Rightarrow> nat \<times> bool \<times> writer" where
  "Write U body (Base b) = (let (n, err, b) = base_Write body b in (n, err, Base b))"
| "Write U body (Logging l w) =
    (case opened U (log_wroteHeader l) l (loggingResponseWriter_WriteHeader 200 l) w of
       (l, w) \<Rightarrow>
         (case Write U body w of
            (n, err, w) \<Rightarrow> (n, err, Logging (loggingResponseWriter_Write n l) w)))"
| "Write U body (Measuring m w) =
    (case opened U (met_wroteHeader m) m (responseWriter_WriteHeader 200 m) w of
       (m, w) \<Rightarrow> (case Write U body w of (n, err, w) \<Rightarrow> (n, err, Measuring m w)))"
| "Write U body (Capturing c w) =
    (case opened U (cap_wroteHeader c) c (cacheResponseWriter_WriteHeader U 200 (writer_Header w) c) w of
       (c, w) \<Rightarrow>
         (case Write U body w of
            (n, err, w) \<Rightarrow> (n, err, Capturing (cacheResponseWriter_Write body n err c) w)))"
  by pat_completeness auto

termination
  by (relation "measure (\<lambda>(U, body, w). size w)") (auto dest!: size_opened [OF sym])

definition loggingResponseWriter_status :: "loggingResponseWriter \<Rightarrow> int" where
  "loggingResponseWriter_status l = (if \<not> log_wroteHeader l then 200 else log_statusCode l)"

definition responseWriter_status :: "responseWriter \<Rightarrow> int" where
  "responseWriter_status m = (if \<not> met_wroteHeader m then 200 else met_statusCode m)"

definition cacheResponseWriter_response ::
  "unicode_case \<Rightarrow> Header \<Rightarrow> cacheResponseWriter \<Rightarrow> (int \<times> Header \<times> bytes) option" where
  "cacheResponseWriter_response U h c =
    (let c = (if \<not> cap_wroteHeader c
          then c\<lparr>cap_statusCode := 200, cap_header := h, recording := \<not> responseHeadersPreventCaching U h\<rparr>
          else c)
     in if \<not> recording c \<or> writeFailed c then None
        else Some (cap_statusCode c, cap_header c, cap_body c))"

text \<open>\<^verbatim>\<open>http.Error\<close>, which prints the message and a newline in one write.\<close>

definition error_headers :: "Header \<Rightarrow> Header" where
  "error_headers h =
    Header_Set ''X-Content-Type-Options'' ''nosniff''
      (Header_Set ''Content-Type'' ''text/plain; charset=utf-8'' (Header_Del ''Content-Length'' h))"

definition http_Error :: "unicode_case \<Rightarrow> string \<Rightarrow> int \<Rightarrow> writer \<Rightarrow> writer" where
  "http_Error U message code w =
    snd (snd (Write U (message @ [CHR 0x0A]) (WriteHeader U code (update_header error_headers w))))"

section \<open>Wrappers are transparent\<close>

text \<open>What the fields of a wrapper say about the response: a wrapper has written the header exactly
  when the server has, with the same status; the logger counts the bytes of the body; a cache writer
  records exactly while the response may be cached and is small enough, and then holds the headers and
  the body that were sent.\<close>

definition logging_ok :: "loggingResponseWriter \<Rightarrow> base_writer \<Rightarrow> bool" where
  "logging_ok l b =
    (base_status b = (if log_wroteHeader l then Some (log_statusCode l) else None) \<and>
     bytesWritten l = int64_add 0 (int (length (base_body b))))"

definition measuring_ok :: "responseWriter \<Rightarrow> base_writer \<Rightarrow> bool" where
  "measuring_ok m b = (base_status b = (if met_wroteHeader m then Some (met_statusCode m) else None))"

definition capturing_ok :: "unicode_case \<Rightarrow> cacheResponseWriter \<Rightarrow> base_writer \<Rightarrow> bool" where
  "capturing_ok U c b =
    (base_status b = (if cap_wroteHeader c then Some (cap_statusCode c) else None) \<and>
     (recording c \<longrightarrow> cap_header c = sent_header b \<and> cap_body c = base_body b) \<and>
     (recording c \<longleftrightarrow> cap_wroteHeader c \<and> cap_statusCode c = 200 \<and>
        \<not> responseHeadersPreventCaching U (sent_header b) \<and> length (base_body b) \<le> maxCacheableResponseBytes) \<and>
     (\<not> cap_wroteHeader c \<longrightarrow> cap_body c = [] \<and> \<not> recording c))"

definition base_ok :: "base_writer \<Rightarrow> bool" where
  "base_ok b = ((base_status b = None \<longrightarrow> base_body b = []) \<and> \<not> hijacked b)"

primrec writer_ok :: "unicode_case \<Rightarrow> writer \<Rightarrow> bool" where
  "writer_ok U (Base b) = base_ok b"
| "writer_ok U (Logging l w) = (logging_ok l (base_of w) \<and> writer_ok U w)"
| "writer_ok U (Measuring m w) = (measuring_ok m (base_of w) \<and> writer_ok U w)"
| "writer_ok U (Capturing c w) = (capturing_ok U c (base_of w) \<and> writer_ok U w)"

lemma writer_ok_base: "writer_ok U w \<Longrightarrow> base_ok (base_of w)"
  by (induction w) auto

lemma base_of_update_header [simp]:
  "base_of (update_header f w) = (base_of w)\<lparr>base_header := f (base_header (base_of w))\<rparr>"
  by (induction w) auto

lemma writer_ok_update_header [simp]: "writer_ok U w \<Longrightarrow> writer_ok U (update_header f w)"
  by (induction w) (auto simp: base_ok_def logging_ok_def measuring_ok_def capturing_ok_def)

lemmas wrapper_WriteHeader_defs =
  loggingResponseWriter_WriteHeader_def responseWriter_WriteHeader_def cacheResponseWriter_WriteHeader_def

lemmas wrapper_ok_defs = logging_ok_def measuring_ok_def capturing_ok_def base_ok_def

lemma is_informational_valid: "is_informational status \<Longrightarrow> valid_status status"
  by (simp add: is_informational_def valid_status_def)

lemma base_WriteHeader_flags [simp]:
  "refused (base_WriteHeader status b) = (if base_status b = None \<and> \<not> valid_status status then refused b @ [status] else refused b)"
  "hijacked (base_WriteHeader status b) = hijacked b" "write_faults (base_WriteHeader status b) = write_faults b"
  "base_header (base_WriteHeader status b) = base_header b"
  by (simp_all add: base_WriteHeader_def)

lemma writer_WriteHeader_refusable:
  "writer_ok U w \<Longrightarrow>
    base_of (WriteHeader U status w) = base_WriteHeader status (base_of w) \<and>
    (base_status (base_of w) \<noteq> None \<or> valid_status status \<longrightarrow> writer_ok U (WriteHeader U status w))"
proof (induction w)
  case (Base b)
  then show ?case by (auto simp: base_ok_def base_WriteHeader_def)
next
  case (Logging l w)
  then show ?case
    by (cases "is_informational status"; cases "log_wroteHeader l")
      (auto simp: loggingResponseWriter_WriteHeader_def logging_ok_def base_WriteHeader_def is_informational_valid)
next
  case (Measuring m w)
  then show ?case
    by (cases "is_informational status"; cases "met_wroteHeader m")
      (auto simp: responseWriter_WriteHeader_def measuring_ok_def base_WriteHeader_def is_informational_valid)
next
  case (Capturing c w)
  then have "base_body (base_of w) = []" if "base_status (base_of w) = None"
    using that writer_ok_base [of U w] by (simp add: base_ok_def)
  with Capturing show ?case
    by (cases "is_informational status"; cases "cap_wroteHeader c")
      (auto simp: cacheResponseWriter_WriteHeader_def capturing_ok_def base_WriteHeader_def writer_Header_def is_informational_valid)
qed

lemma writer_WriteHeader:
  "writer_ok U w \<Longrightarrow> valid_status status \<Longrightarrow>
    base_of (WriteHeader U status w) = base_WriteHeader status (base_of w) \<and> writer_ok U (WriteHeader U status w)"
  using writer_WriteHeader_refusable by blast

lemma base_Write_opens: "base_Write body (if base_status b = None then base_WriteHeader 200 b else b) = base_Write body b"
  by (simp add: base_Write_def base_WriteHeader_def is_informational_def)

lemma base_Write_effect:
  "base_Write body b = (n, err, b') \<Longrightarrow>
    n \<le> length body \<and> base_body b' = base_body b @ take n body \<and>
    base_status b' = (if base_status b = None then Some 200 else base_status b) \<and>
    sent_header b' = (if base_status b = None then base_header b else sent_header b) \<and>
    refused b' = refused b \<and> hijacked b' = hijacked b \<and> informational b' = informational b"
  by (auto simp: base_Write_def base_WriteHeader_def is_informational_def Let_def split: list.splits option.splits if_splits)

lemma base_Write_flags [simp]:
  "refused (snd (snd (base_Write body b))) = refused b" "hijacked (snd (snd (base_Write body b))) = hijacked b"
  by (simp_all add: base_Write_def base_WriteHeader_def Let_def split: list.split option.split)

text \<open>After \<open>opened\<close>, the wrapper and the server agree that the header is written.\<close>

lemma opened_ok:
  assumes "opened U wrote f f' w = (g, w')" "writer_ok U w" "ok f (base_of w)"
    and "wrote \<longleftrightarrow> base_status (base_of w) \<noteq> None" "\<not> wrote \<Longrightarrow> snd f'"
    and "\<not> wrote \<Longrightarrow> ok (fst f') (base_WriteHeader 200 (base_of w))"
  shows "writer_ok U w' \<and> base_status (base_of w') \<noteq> None \<and> ok g (base_of w') \<and>
    base_Write body (base_of w') = base_Write body (base_of w)"
  using assms writer_WriteHeader [OF assms(2), of 200] base_Write_opens [of body "base_of w"]
  by (auto simp: opened_def base_WriteHeader_def is_informational_def split: if_splits)

lemma logging_ok_Write:
  assumes "logging_ok l b" "base_status b \<noteq> None" "base_Write body b = (n, err, b')"
  shows "logging_ok (loggingResponseWriter_Write n l) b'"
  using assms base_Write_effect [OF assms(3)]
  by (auto simp: logging_ok_def loggingResponseWriter_Write_def int64_add_assoc split: if_splits)

lemma measuring_ok_Write:
  assumes "measuring_ok m b" "base_status b \<noteq> None" "base_Write body b = (n, err, b')"
  shows "measuring_ok m b'"
  using assms base_Write_effect [OF assms(3)] by (auto simp: measuring_ok_def split: if_splits)

lemma capturing_ok_Write:
  assumes "capturing_ok U c b" "base_status b \<noteq> None" "base_Write body b = (n, err, b')"
  shows "capturing_ok U (cacheResponseWriter_Write body n err c) b'"
  using assms base_Write_effect [OF assms(3)]
  by (auto simp: capturing_ok_def cacheResponseWriter_Write_def Let_def split: if_splits)

lemma logging_opened:
  assumes "opened U (log_wroteHeader l) l (loggingResponseWriter_WriteHeader 200 l) w = (l', w')"
    and "writer_ok U w" "logging_ok l (base_of w)"
  shows "writer_ok U w' \<and> base_status (base_of w') \<noteq> None \<and> logging_ok l' (base_of w') \<and>
    base_Write body (base_of w') = base_Write body (base_of w)"
  using assms(3)
  by (intro opened_ok [OF assms(1,2), where ok = "logging_ok"])
    (auto split: if_splits simp: logging_ok_def loggingResponseWriter_WriteHeader_def base_WriteHeader_def is_informational_def)

lemma measuring_opened:
  assumes "opened U (met_wroteHeader m) m (responseWriter_WriteHeader 200 m) w = (m', w')"
    and "writer_ok U w" "measuring_ok m (base_of w)"
  shows "writer_ok U w' \<and> base_status (base_of w') \<noteq> None \<and> measuring_ok m' (base_of w') \<and>
    base_Write body (base_of w') = base_Write body (base_of w)"
  using assms(3)
  by (intro opened_ok [OF assms(1,2), where ok = "measuring_ok"])
    (auto split: if_splits simp: measuring_ok_def responseWriter_WriteHeader_def base_WriteHeader_def is_informational_def)

lemma capturing_opened:
  assumes "opened U (cap_wroteHeader c) c (cacheResponseWriter_WriteHeader U 200 (writer_Header w) c) w = (c', w')"
    and "writer_ok U w" "capturing_ok U c (base_of w)"
  shows "writer_ok U w' \<and> base_status (base_of w') \<noteq> None \<and> capturing_ok U c' (base_of w') \<and>
    base_Write body (base_of w') = base_Write body (base_of w)"
  using assms(3) writer_ok_base [OF assms(2)]
  by (intro opened_ok [OF assms(1,2), where ok = "capturing_ok U"])
    (auto split: if_splits simp: base_ok_def capturing_ok_def cacheResponseWriter_WriteHeader_def base_WriteHeader_def
      is_informational_def writer_Header_def)

lemma writer_Write:
  "writer_ok U w \<Longrightarrow> Write U body w = (n, err, w') \<Longrightarrow>
    base_Write body (base_of w) = (n, err, base_of w') \<and> writer_ok U w'"
proof (induction U body w arbitrary: n err w' rule: Write.induct)
  case (1 U body b)
  then show ?case using base_Write_effect [of body b] by (auto simp: base_ok_def split: prod.splits)
next
  case (2 U body l w)
  obtain l1 w1 where o: "opened U (log_wroteHeader l) l (loggingResponseWriter_WriteHeader 200 l) w = (l1, w1)"
    by fastforce
  obtain w2 where w2: "Write U body w1 = (n, err, w2)" "w' = Logging (loggingResponseWriter_Write n l1) w2"
    using 2(3) o by (auto split: prod.splits)
  have op: "writer_ok U w1 \<and> base_status (base_of w1) \<noteq> None \<and> logging_ok l1 (base_of w1) \<and>
      base_Write body (base_of w1) = base_Write body (base_of w)"
    using 2(2) logging_opened [OF o] by simp
  then show ?case using 2(1) [OF o [symmetric] _ w2(1)] w2(2) logging_ok_Write by auto
next
  case (3 U body m w)
  obtain m1 w1 where o: "opened U (met_wroteHeader m) m (responseWriter_WriteHeader 200 m) w = (m1, w1)"
    by fastforce
  obtain w2 where w2: "Write U body w1 = (n, err, w2)" "w' = Measuring m1 w2"
    using 3(3) o by (auto split: prod.splits)
  have op: "writer_ok U w1 \<and> base_status (base_of w1) \<noteq> None \<and> measuring_ok m1 (base_of w1) \<and>
      base_Write body (base_of w1) = base_Write body (base_of w)"
    using 3(2) measuring_opened [OF o] by simp
  then show ?case using 3(1) [OF o [symmetric] _ w2(1)] w2(2) measuring_ok_Write by auto
next
  case (4 U body c w)
  obtain c1 w1 where o: "opened U (cap_wroteHeader c) c (cacheResponseWriter_WriteHeader U 200 (writer_Header w) c) w = (c1, w1)"
    by fastforce
  obtain w2 where w2: "Write U body w1 = (n, err, w2)" "w' = Capturing (cacheResponseWriter_Write body n err c1) w2"
    using 4(3) o by (auto split: prod.splits)
  have op: "writer_ok U w1 \<and> base_status (base_of w1) \<noteq> None \<and> capturing_ok U c1 (base_of w1) \<and>
      base_Write body (base_of w1) = base_Write body (base_of w)"
    using 4(2) capturing_opened [OF o] by simp
  then show ?case using 4(1) [OF o [symmetric] _ w2(1)] w2(2) capturing_ok_Write by auto
qed

section \<open>Sequences of calls\<close>

text \<open>What a handler does with its writer: it changes the header map, sends a status, writes a piece
  of the body or takes the connection over.\<close>

datatype writer_call = ChangeHeader "Header \<Rightarrow> Header" | SendStatus int | SendBody bytes | TakeOver

primrec writer_exec :: "unicode_case \<Rightarrow> writer \<Rightarrow> writer_call \<Rightarrow> writer" where
  "writer_exec U w (ChangeHeader f) = update_header f w"
| "writer_exec U w (SendStatus status) = WriteHeader U status w"
| "writer_exec U w (SendBody body) = snd (snd (Write U body w))"
| "writer_exec U w TakeOver = SwitchProtocols w"

primrec server_exec :: "base_writer \<Rightarrow> writer_call \<Rightarrow> base_writer" where
  "server_exec b (ChangeHeader f) = b\<lparr>base_header := f (base_header b)\<rparr>"
| "server_exec b (SendStatus status) = base_WriteHeader status b"
| "server_exec b (SendBody body) = snd (snd (base_Write body b))"
| "server_exec b TakeOver = base_SwitchProtocols b"

lemma base_of_SwitchProtocols [simp]: "base_of (SwitchProtocols w) = base_SwitchProtocols (base_of w)"
  by (induction w) auto

text \<open>The record of a response stays true until the connection is taken over or a status is refused.\<close>

definition on_record :: "base_writer \<Rightarrow> base_writer \<Rightarrow> bool" where
  "on_record b b' = (refused b' = refused b \<and> \<not> hijacked b')"

lemma writer_exec_ok:
  assumes "writer_ok U w"
  shows "base_of (writer_exec U w c) = server_exec (base_of w) c \<and>
    (on_record (base_of w) (server_exec (base_of w) c) \<longrightarrow> writer_ok U (writer_exec U w c))"
proof (cases c)
  case (SendBody body)
  obtain n err w' where "Write U body w = (n, err, w')" using prod_cases3 by blast
  then show ?thesis using writer_Write [OF assms] SendBody by force
next
  case (SendStatus status)
  then show ?thesis using writer_WriteHeader_refusable [OF assms, of status] by (auto simp: on_record_def split: if_splits)
next
  case TakeOver
  have "SwitchProtocols w = w" if "base_status (base_of w) \<noteq> None"
    using that by (induction w) (auto simp: base_SwitchProtocols_def)
  then show ?thesis using TakeOver assms by (auto simp: on_record_def base_SwitchProtocols_def)
qed (use assms in simp)

lemma server_exec_flags:
  "(\<exists>xs. refused (server_exec b c) = refused b @ xs) \<and> (hijacked b \<longrightarrow> hijacked (server_exec b c))"
  by (cases c) (auto simp: base_SwitchProtocols_def)

lemma server_run_flags:
  "(\<exists>xs. refused (foldl server_exec b cs) = refused b @ xs) \<and> (hijacked b \<longrightarrow> hijacked (foldl server_exec b cs))"
proof (induction cs arbitrary: b)
  case (Cons c cs)
  obtain xs where "refused (server_exec b c) = refused b @ xs" "hijacked b \<longrightarrow> hijacked (server_exec b c)"
    using server_exec_flags by blast
  moreover obtain ys where "refused (foldl server_exec (server_exec b c) cs) = refused (server_exec b c) @ ys"
    "hijacked (server_exec b c) \<longrightarrow> hijacked (foldl server_exec (server_exec b c) cs)"
    using Cons.IH by blast
  ultimately show ?case by auto
qed simp

lemma on_record_first: "on_record b (foldl server_exec b (c # cs)) \<Longrightarrow>
    on_record b (server_exec b c) \<and> on_record (server_exec b c) (foldl server_exec (server_exec b c) cs)"
proof -
  assume rec: "on_record b (foldl server_exec b (c # cs))"
  obtain xs where "refused (server_exec b c) = refused b @ xs" using server_exec_flags by blast
  moreover obtain ys where "refused (foldl server_exec (server_exec b c) cs) = refused (server_exec b c) @ ys"
    "hijacked (server_exec b c) \<longrightarrow> hijacked (foldl server_exec (server_exec b c) cs)"
    using server_run_flags by blast
  ultimately show ?thesis using rec by (auto simp: on_record_def)
qed

lemma writer_exec_run:
  "writer_ok U w \<Longrightarrow> on_record (base_of w) (foldl server_exec (base_of w) cs) \<Longrightarrow>
    base_of (foldl (writer_exec U) w cs) = foldl server_exec (base_of w) cs \<and>
    writer_ok U (foldl (writer_exec U) w cs)"
proof (induction cs arbitrary: w)
  case (Cons c cs)
  from on_record_first [OF Cons.prems(2)] writer_exec_ok [OF Cons.prems(1), of c] Cons.IH [of "writer_exec U w c"]
  show ?case by simp
qed simp

subsection \<open>Past a take-over\<close>

text \<open>Once the connection is taken over, the server's writer takes nothing, so the wrappers are transparent there too,
  whatever they have noted.\<close>

definition base_gone :: "base_writer \<Rightarrow> bool" where
  "base_gone b = (hijacked b \<and> base_status b \<noteq> None)"

lemma base_gone_calls:
  "base_gone b \<Longrightarrow> base_WriteHeader status b = b" "base_gone b \<Longrightarrow> base_Write body b = (0, True, b)"
  "base_gone b \<Longrightarrow> base_SwitchProtocols b = b"
  by (auto simp: base_gone_def base_WriteHeader_def base_Write_def base_SwitchProtocols_def)

lemma gone_WriteHeader: "base_gone (base_of w) \<Longrightarrow> base_of (WriteHeader U status w) = base_of w"
  by (induction w) (auto simp: base_gone_calls split: prod.splits)

lemma gone_opened: "opened U wrote f f' w = (g, w') \<Longrightarrow> base_gone (base_of w) \<Longrightarrow> base_of w' = base_of w"
  by (auto simp: opened_def gone_WriteHeader split: if_splits)

lemma gone_Write: "base_gone (base_of w) \<Longrightarrow> Write U body w = (n, err, w') \<Longrightarrow> base_of w' = base_of w"
proof (induction U body w arbitrary: n err w' rule: Write.induct)
  case (1 U body b)
  then show ?case by (auto simp: base_gone_calls)
qed (auto split: prod.splits dest: gone_opened)

lemma gone_exec:
  assumes "base_gone (base_of w)"
  shows "base_of (writer_exec U w c) = server_exec (base_of w) c \<and> base_gone (base_of (writer_exec U w c))"
proof (cases c)
  case (SendBody body)
  obtain n err w' where "Write U body w = (n, err, w')" using prod_cases3 by blast
  then show ?thesis using gone_Write [OF assms] SendBody assms by (simp add: base_gone_calls)
qed (use assms in \<open>simp_all add: gone_WriteHeader base_gone_calls\<close>, simp add: base_gone_def)

subsection \<open>Runs that end with a panic\<close>

text \<open>The calls of a handler that does not recover: the first refused status ends the run.\<close>

fun writer_run :: "unicode_case \<Rightarrow> writer \<Rightarrow> writer_call list \<Rightarrow> bool \<times> writer" where
  "writer_run U w [] = (False, w)"
| "writer_run U w (c # cs) =
    (let w' = writer_exec U w c
     in if header_refused w w' then (True, w') else writer_run U w' cs)"

fun server_run :: "base_writer \<Rightarrow> writer_call list \<Rightarrow> bool \<times> base_writer" where
  "server_run b [] = (False, b)"
| "server_run b (c # cs) =
    (let b' = server_exec b c
     in if refused b' \<noteq> refused b then (True, b') else server_run b' cs)"

lemma gone_run:
  assumes "base_gone (base_of w)"
  shows "server_run (base_of w) cs = (fst (writer_run U w cs), base_of (snd (writer_run U w cs)))"
    and "hijacked (base_of (snd (writer_run U w cs)))"
proof -
  have "server_run (base_of w) cs = (fst (writer_run U w cs), base_of (snd (writer_run U w cs)))
      \<and> hijacked (base_of (snd (writer_run U w cs)))"
    using assms
  proof (induction cs arbitrary: w)
    case (Cons c cs)
    from gone_exec [OF Cons.prems, of U c] Cons.IH [of "writer_exec U w c"]
    show ?case by (auto simp: header_refused_def Let_def base_gone_def)
  qed (simp add: base_gone_def)
  then show "server_run (base_of w) cs = (fst (writer_run U w cs), base_of (snd (writer_run U w cs)))"
    and "hijacked (base_of (snd (writer_run U w cs)))" by blast+
qed

lemma writer_run_server:
  "writer_ok U w \<Longrightarrow> server_run (base_of w) cs = (fst (writer_run U w cs), base_of (snd (writer_run U w cs)))
    \<and> (\<not> fst (writer_run U w cs) \<longrightarrow> hijacked (base_of (snd (writer_run U w cs))) \<or> writer_ok U (snd (writer_run U w cs)))"
proof (induction cs arbitrary: w)
  case (Cons c cs)
  let ?w = "writer_exec U w c"
  note step = writer_exec_ok [OF Cons.prems, of c]
  consider (refused) "header_refused w ?w" | (taken) "\<not> header_refused w ?w" "base_gone (base_of ?w)"
    | (fine) "\<not> header_refused w ?w" "writer_ok U ?w"
  proof (cases "hijacked (server_exec (base_of w) c) \<and> \<not> header_refused w ?w")
    case True
    have "\<not> hijacked (base_of w)" using writer_ok_base [OF Cons.prems] by (simp add: base_ok_def)
    then have "c = TakeOver" using True by (cases c) auto
    then have "base_gone (base_of ?w)" using True step by (auto simp: base_gone_def base_SwitchProtocols_def)
    then show ?thesis using taken True by blast
  qed (use step in \<open>auto simp: on_record_def header_refused_def\<close>)
  then show ?case
  proof cases
    case taken
    then show ?thesis using gone_run [OF taken(2), where cs = cs and U = U] step by (simp add: header_refused_def Let_def)
  qed (use step Cons.IH [of ?w] in \<open>auto simp: header_refused_def Let_def\<close>)
qed simp

definition new_logging :: loggingResponseWriter where
  "new_logging = \<lparr>log_statusCode = 0, bytesWritten = 0, log_wroteHeader = False\<rparr>"

definition new_measuring :: responseWriter where
  "new_measuring = \<lparr>met_statusCode = 0, met_wroteHeader = False\<rparr>"

definition new_capturing :: cacheResponseWriter where
  "new_capturing = \<lparr>cap_statusCode = 0, cap_header = [], cap_body = [], cap_wroteHeader = False, recording = False,
    writeFailed = False\<rparr>"

definition unwritten :: "writer \<Rightarrow> bool" where
  "unwritten w = (base_status (base_of w) = None)"

lemma new_wrappers_ok:
  assumes "writer_ok U w" "unwritten w"
  shows "writer_ok U (Logging new_logging w)" "writer_ok U (Measuring new_measuring w)"
    "writer_ok U (Capturing new_capturing w)"
  using assms writer_ok_base [OF assms(1)]
  by (simp_all add: unwritten_def base_ok_def logging_ok_def measuring_ok_def capturing_ok_def
    new_logging_def new_measuring_def new_capturing_def int64_add_def)

text \<open>C18 (equivalence). The three response wrappers are transparent. Whatever a handler does with a writer that
  carries any number of them, in any order - header changes, informational and repeated statuses,
  failing and short writes, a status the server refuses and a connection taken over included -, it panics at the same call and the client receives exactly
  what it would receive without the wrappers. As long as no status is refused and the connection is not taken over,
  each wrapper keeps a true record of it: logger and metrics know the status that was
  sent, the logger the number of body bytes, and a cache writer that is still recording holds the
  headers and body that were sent. A refused status and a take-over are where the record ends: a wrapper
  has noted the first although it was not sent, and does not notice the second.\<close>

theorem wrappers_are_transparent:
  assumes "writer_ok U w" "writer_run U w calls = (panicked, w')"
  shows "server_run (base_of w) calls = (panicked, base_of w')
    \<and> (\<not> panicked \<and> \<not> hijacked (base_of w') \<longrightarrow> writer_ok U w')"
  using writer_run_server [OF assms(1), of calls] assms(2) by auto

definition sample_server :: base_writer where
  "sample_server = \<lparr>base_header = [], base_status = None, sent_header = [], informational = [], base_body = [],
    write_faults = [None, Some 1], refused = [], hijacked = False\<rparr>"

definition sample_unicode :: unicode_case where
  "sample_unicode = \<lparr>uToLower = id, uToUpper = id, uEqualFold = (=)\<rparr>"

lemma sample_stack_ok: "writer_ok U (Logging new_logging (Capturing new_capturing (Base sample_server)))"
  by (intro new_wrappers_ok) (simp_all add: unwritten_def sample_server_def base_ok_def new_wrappers_ok)

theorem wrappers_are_transparent_witness:
  "\<exists>w'. writer_run sample_unicode (Logging new_logging (Capturing new_capturing (Base sample_server)))
      [SendStatus 103, SendStatus 404, SendBody ''no'', SendStatus 42, SendBody ''more''] = (False, w')
    \<and> base_of w' = sample_server\<lparr>base_status := Some 404, informational := [103], base_body := ''nom'', write_faults := []\<rparr>
    \<and> writer_ok sample_unicode w'"
proof -
  let ?w = "Logging new_logging (Capturing new_capturing (Base sample_server))"
  let ?calls = "[SendStatus 103, SendStatus 404, SendBody ''no'', SendStatus 42, SendBody ''more'']"
  obtain panicked w' where run: "writer_run sample_unicode ?w ?calls = (panicked, w')" by fastforce
  have "server_run (base_of ?w) ?calls =
      (False, sample_server\<lparr>base_status := Some 404, informational := [103], base_body := ''nom'', write_faults := []\<rparr>)"
    by (simp add: sample_server_def base_WriteHeader_def is_informational_def base_Write_def)
  with wrappers_are_transparent [OF sample_stack_ok run] run show ?thesis by (simp add: sample_server_def)
qed

text \<open>A refused status ends the run, and the logger has noted it.\<close>

lemma refused_status_noted:
  "writer_run sample_unicode (Logging new_logging (Base sample_server)) [SendStatus 42, SendBody ''x''] =
    (True, Logging (new_logging\<lparr>log_statusCode := 42, log_wroteHeader := True\<rparr>) (Base (sample_server\<lparr>refused := [42]\<rparr>)))"
  by (simp add: header_refused_def loggingResponseWriter_WriteHeader_def new_logging_def is_informational_def base_WriteHeader_def
    sample_server_def)

section \<open>Handlers that only use their writer\<close>

text \<open>The writer a handler leaves is the one it was given after some calls. The wrappers are still
  there, in the same order.\<close>

definition writes :: "unicode_case \<Rightarrow> writer \<Rightarrow> writer \<Rightarrow> bool" where
  "writes U w w' = (\<exists>calls. w' = foldl (writer_exec U) w calls)"

lemma writes_refl [simp, intro]: "writes U w w"
  unfolding writes_def by (rule exI [of _ "[]"]) simp

lemma writes_trans: "writes U w w' \<Longrightarrow> writes U w' w'' \<Longrightarrow> writes U w w''"
  unfolding writes_def by (metis foldl_append)

lemma writes_exec [intro]: "writes U w (writer_exec U w c)"
  unfolding writes_def by (rule exI [of _ "[c]"]) simp

lemma writes_calls [intro]:
  "writes U w (update_header f w)" "writes U w (WriteHeader U status w)" "writes U w (snd (snd (Write U body w)))"
  "writes U w (SwitchProtocols w)"
  using writes_exec [of U w "ChangeHeader f"] writes_exec [of U w "SendStatus status"] writes_exec [of U w "SendBody body"]
    writes_exec [of U w TakeOver]
  by simp_all

text \<open>The flags of the server's writer are never taken back, so a run whose end is on record was so all the time. For a stack out of step with
  the server this takes a look at every call on its own.\<close>

definition flags_grow :: "base_writer \<Rightarrow> base_writer \<Rightarrow> bool" where
  "flags_grow b b' =
    ((\<exists>xs. refused b' = refused b @ xs) \<and> (hijacked b \<longrightarrow> hijacked b') \<and>
     (hijacked b' \<longrightarrow> hijacked b \<or> base_status b' = Some 101) \<and> (base_status b \<noteq> None \<longrightarrow> base_status b' = base_status b))"

lemma flags_grow_refl [simp]: "flags_grow b b"
  by (simp add: flags_grow_def)

lemma flags_grow_trans: "flags_grow a b \<Longrightarrow> flags_grow b c \<Longrightarrow> flags_grow a c"
  unfolding flags_grow_def by (metis append.assoc option.distinct(1))

lemma flags_grow_WriteHeader: "flags_grow (base_of w) (base_of (WriteHeader U status w))"
  by (induction w) (auto simp: flags_grow_def base_WriteHeader_def split: prod.splits)

lemma flags_grow_opened: "opened U wrote f f' w = (g, w') \<Longrightarrow> flags_grow (base_of w) (base_of w')"
  by (auto simp: opened_def flags_grow_WriteHeader split: if_splits)

lemma flags_grow_Write: "Write U body w = (n, err, w') \<Longrightarrow> flags_grow (base_of w) (base_of w')"
proof (induction U body w arbitrary: n err w' rule: Write.induct)
  case (1 U body b)
  then show ?case using base_Write_effect [of body b] by (auto simp: flags_grow_def split: prod.splits)
qed (auto split: prod.splits dest!: flags_grow_opened intro: flags_grow_trans)

lemma flags_grow_exec: "flags_grow (base_of w) (base_of (writer_exec U w c))"
proof (cases c)
  case (SendBody body)
  obtain n err w' where "Write U body w = (n, err, w')" using prod_cases3 by blast
  then show ?thesis using flags_grow_Write SendBody by fastforce
qed (simp_all add: flags_grow_WriteHeader, simp_all add: flags_grow_def base_SwitchProtocols_def)

lemma flags_grow_run: "flags_grow (base_of w) (base_of (foldl (writer_exec U) w cs))"
  by (induction cs arbitrary: w) (auto intro: flags_grow_trans flags_grow_exec)

lemma writes_flags: "writes U w w' \<Longrightarrow> flags_grow (base_of w) (base_of w')"
  unfolding writes_def using flags_grow_run by blast

lemma run_ok:
  "writer_ok U w \<Longrightarrow> on_record (base_of w) (base_of (foldl (writer_exec U) w cs)) \<Longrightarrow> writer_ok U (foldl (writer_exec U) w cs)"
proof (induction cs arbitrary: w)
  case (Cons c cs)
  let ?w = "writer_exec U w c"
  obtain xs ys where "refused (base_of ?w) = refused (base_of w) @ xs"
    "refused (base_of (foldl (writer_exec U) ?w cs)) = refused (base_of ?w) @ ys"
    using flags_grow_exec [of w U c] flags_grow_run [of ?w U cs] unfolding flags_grow_def by blast
  moreover have "hijacked (base_of ?w) \<longrightarrow> hijacked (base_of (foldl (writer_exec U) ?w cs))"
    using flags_grow_run [of ?w U cs] unfolding flags_grow_def by blast
  ultimately have "on_record (base_of w) (base_of ?w)" "on_record (base_of ?w) (base_of (foldl (writer_exec U) ?w cs))"
    using Cons.prems(2) by (auto simp: on_record_def)
  then show ?case using Cons.IH [of ?w] writer_exec_ok [OF Cons.prems(1), of c] by simp
qed simp

lemma writes_ok: "writes U w w' \<Longrightarrow> writer_ok U w \<Longrightarrow> on_record (base_of w) (base_of w') \<Longrightarrow> writer_ok U w'"
  unfolding writes_def using run_ok by blast

text \<open>A connection that is taken over was answered with 101.\<close>

lemma writes_taken_over:
  "writes U w w' \<Longrightarrow> \<not> hijacked (base_of w) \<Longrightarrow> base_status (base_of w') \<noteq> Some 101 \<Longrightarrow> \<not> hijacked (base_of w')"
  using writes_flags by (auto simp: flags_grow_def)

lemma writes_http_Error [intro]: "writes U w (http_Error U message code w)"
  unfolding http_Error_def by (blast intro: writes_trans)

lemma writes_opened: "opened U wrote f f' w = (g, w') \<Longrightarrow> writes U w w'"
  by (auto simp: opened_def split: if_splits)

lemma writes_Write: "Write U body w = (n, err, w') \<Longrightarrow> writes U w w'"
  using writes_calls(3) [of U w body] by simp

lemma exec_wrapped:
  "\<exists>l' w'. writer_exec U (Logging l w) c = Logging l' w' \<and> writes U w w'"
  "\<exists>m' w'. writer_exec U (Measuring m w) c = Measuring m' w' \<and> writes U w w'"
  "\<exists>k' w'. writer_exec U (Capturing k w) c = Capturing k' w' \<and> writes U w w'"
  by (cases c; auto split: prod.splits dest!: writes_opened writes_Write intro: writes_trans)+

lemma run_wrapped:
  assumes "\<And>f w c. \<exists>f' w'. writer_exec U (wrap f w) c = wrap f' w' \<and> writes U w w'"
  shows "\<exists>f' w'. foldl (writer_exec U) (wrap f w) cs = wrap f' w' \<and> writes U w w'"
proof (induction cs arbitrary: f w)
  case Nil
  show ?case by (auto intro: exI [of _ f])
next
  case (Cons c cs)
  obtain f1 w1 where step: "writer_exec U (wrap f w) c = wrap f1 w1" "writes U w w1" using assms by blast
  obtain f2 w2 where "foldl (writer_exec U) (wrap f1 w1) cs = wrap f2 w2" "writes U w1 w2" using Cons by blast
  with step show ?case by (auto intro: writes_trans)
qed

lemma writes_wrapped:
  "writes U (Logging l w) v \<Longrightarrow> \<exists>l' w'. v = Logging l' w' \<and> writes U w w'"
  "writes U (Measuring m w) v \<Longrightarrow> \<exists>m' w'. v = Measuring m' w' \<and> writes U w w'"
  "writes U (Capturing k w) v \<Longrightarrow> \<exists>k' w'. v = Capturing k' w' \<and> writes U w w'"
  unfolding writes_def [of U "Logging l w"] writes_def [of U "Measuring m w"] writes_def [of U "Capturing k w"]
  using run_wrapped [of U Logging l w] run_wrapped [of U Measuring m w] run_wrapped [of U Capturing k w] exec_wrapped
  by blast+

section \<open>Calls that cannot be refused\<close>

lemma refused_WriteHeader: "valid_status status \<Longrightarrow> refused (base_of (WriteHeader U status w)) = refused (base_of w)"
  by (induction w) (auto split: prod.splits)

lemma refused_opened: "opened U wrote f f' w = (g, w') \<Longrightarrow> refused (base_of w') = refused (base_of w)"
  by (auto simp: opened_def refused_WriteHeader split: if_splits)

lemma refused_Write: "Write U body w = (n, err, w') \<Longrightarrow> refused (base_of w') = refused (base_of w)"
proof (induction U body w arbitrary: n err w' rule: Write.induct)
  case (1 U body b)
  then show ?case using base_Write_effect [of body b] by (auto split: prod.splits)
qed (auto split: prod.splits dest!: refused_opened)

lemma refused_http_Error: "valid_status code \<Longrightarrow> refused (base_of (http_Error U message code w)) = refused (base_of w)"
proof -
  assume valid: "valid_status code"
  let ?w = "WriteHeader U code (update_header error_headers w)"
  obtain n err w' where wr: "Write U (message @ [CHR 0x0A]) ?w = (n, err, w')" using prod_cases3 by blast
  then have "http_Error U message code w = w'" by (simp add: http_Error_def)
  then show ?thesis using refused_Write [OF wr] refused_WriteHeader [OF valid] by simp
qed

lemmas refused_simps = refused_WriteHeader refused_http_Error base_of_update_header

section \<open>Writers without failures\<close>

primrec unfailed :: "writer \<Rightarrow> bool" where
  "unfailed (Base b) = (write_faults b = [] \<and> \<not> hijacked b)"
| "unfailed (Logging l w) = unfailed w"
| "unfailed (Measuring m w) = unfailed w"
| "unfailed (Capturing c w) = (\<not> writeFailed c \<and> unfailed w)"

lemma unfailed_update_header [simp]: "unfailed (update_header f w) = unfailed w"
  by (induction w) auto

lemma unfailed_WriteHeader: "unfailed w \<Longrightarrow> unfailed (WriteHeader U c w)"
  by (induction w) (auto simp: base_WriteHeader_def cacheResponseWriter_WriteHeader_def split: prod.splits if_splits)

lemma unfailed_SwitchProtocols: "unfailed w \<Longrightarrow> \<not> hijacked (base_of (SwitchProtocols w)) \<Longrightarrow> unfailed (SwitchProtocols w)"
  by (induction w) (auto simp: base_SwitchProtocols_def split: if_splits)

lemma unfailed_opened: "opened U wrote f f' w = (g, w') \<Longrightarrow> unfailed w \<Longrightarrow> unfailed w'"
  by (auto simp: opened_def unfailed_WriteHeader split: if_splits)

lemma writeFailed_opened:
  "opened U (cap_wroteHeader c) c (cacheResponseWriter_WriteHeader U 200 h c) w = (c', w') \<Longrightarrow> writeFailed c' = writeFailed c"
  by (auto simp: opened_def cacheResponseWriter_WriteHeader_def split: if_splits)

lemma unfailed_Write: "unfailed w \<Longrightarrow> Write U body w = (n, err, w') \<Longrightarrow> n = length body \<and> \<not> err \<and> unfailed w'"
proof (induction U body w arbitrary: n err w' rule: Write.induct)
  case (1 U body b)
  then show ?case by (auto simp: base_Write_def base_WriteHeader_def Let_def split: if_splits)
next
  case (2 U body l w)
  then show ?case by (auto split: prod.splits dest: unfailed_opened)
next
  case (3 U body m w)
  then show ?case by (auto split: prod.splits dest: unfailed_opened)
next
  case (4 U body c w)
  obtain c1 w1 where o: "opened U (cap_wroteHeader c) c (cacheResponseWriter_WriteHeader U 200 (writer_Header w) c) w = (c1, w1)"
    by fastforce
  obtain w2 where w2: "Write U body w1 = (n, err, w2)" "w' = Capturing (cacheResponseWriter_Write body n err c1) w2"
    using 4(3) o by (auto split: prod.splits)
  have "n = length body \<and> \<not> err \<and> unfailed w2"
    using 4(1) [OF o [symmetric] _ w2(1)] 4(2) unfailed_opened [OF o] by simp
  moreover have "\<not> writeFailed c1" using writeFailed_opened [OF o] 4(2) by simp
  ultimately show ?case using w2(2) by (simp add: cacheResponseWriter_Write_def Let_def)
qed

lemma unfailed_writes: "writes U w w' \<Longrightarrow> unfailed w \<Longrightarrow> \<not> hijacked (base_of w') \<Longrightarrow> unfailed w'"
proof -
  have step: "unfailed (writer_exec U w c)" if "unfailed w" "\<not> hijacked (base_of (writer_exec U w c))" for w c
  proof (cases c)
    case (SendBody body)
    obtain n err w1 where "Write U body w = (n, err, w1)" using prod_cases3 by blast
    then show ?thesis using unfailed_Write [OF that(1), of U body] SendBody by simp
  qed (use that in \<open>simp_all add: unfailed_WriteHeader unfailed_SwitchProtocols\<close>)
  have "unfailed (foldl (writer_exec U) w cs)" if "unfailed w" "\<not> hijacked (base_of (foldl (writer_exec U) w cs))" for cs
    using that
  proof (induction cs arbitrary: w)
    case (Cons c cs)
    then have "\<not> hijacked (base_of (writer_exec U w c))"
      using flags_grow_run [of "writer_exec U w c" U cs] by (auto simp: flags_grow_def)
    then show ?case using Cons step by simp
  qed simp
  then show "writes U w w' \<Longrightarrow> unfailed w \<Longrightarrow> \<not> hijacked (base_of w') \<Longrightarrow> unfailed w'" by (auto simp: writes_def)
qed

end
