(* ===== verification/Request_Meta.thy ===== *)
theory Request_Meta
  imports Http
begin

text \<open>
  Request metadata, \<^verbatim>\<open>src/internal/requestmeta/metadata.go\<close>. A request's context holds a pointer to a
  metadata value that handlers further in change and handlers further out read, so the values are in
  a store and the context holds an index into it. The lock makes each access atomic.

  The source of new identifiers is an argument: the 16 bytes of \<^verbatim>\<open>rand.Read\<close>, \<open>None\<close> when it fails, and
  the clock in nanoseconds.
\<close>

section \<open>Model\<close>

definition IDHeader :: string where
  "IDHeader = ''X-Request-ID''"

record metadata =
  meta_requestID :: string
  meta_backend :: string
  meta_route :: string

record world =
  metadata_store :: "metadata list"

record id_source =
  random_bytes :: "bytes option"
  unix_nano :: int

definition lower_hex_digit :: "nat \<Rightarrow> char" where
  "lower_hex_digit n = char_of (if n < 10 then 48 + n else 87 + n)"

definition EncodeToString :: "bytes \<Rightarrow> string" where
  "EncodeToString bs =
    concat (map (\<lambda>b. let n = of_char b :: nat in [lower_hex_digit (n div 16), lower_hex_digit (n mod 16)]) bs)"

fun nat_hex :: "nat \<Rightarrow> string" where
  "nat_hex n = (if n < 16 then [lower_hex_digit n] else nat_hex (n div 16) @ [lower_hex_digit (n mod 16)])"

declare nat_hex.simps [simp del]

definition FormatHex :: "int \<Rightarrow> string" where
  "FormatHex i = (if i < 0 then CHR ''-'' # nat_hex (nat (- i)) else nat_hex (nat i))"

definition isSafeID :: "string \<Rightarrow> bool" where
  "isSafeID value =
    (if value = '''' \<or> length value > 128 then False
     else list_all (\<lambda>c. let n = of_char c :: nat in \<not> (n < 0x21 \<or> n > 0x7e)) value)"

definition incomingOrNewID :: "id_source \<Rightarrow> string \<Rightarrow> string" where
  "incomingOrNewID src incoming =
    (if isSafeID incoming then incoming
     else (case random_bytes src of
             Some bytes \<Rightarrow> EncodeToString bytes
           | None \<Rightarrow> FormatHex (unix_nano src)))"

definition current :: "Request \<Rightarrow> nat option" where
  "current r = ctxMetadata r"

definition Ensure :: "id_source \<Rightarrow> Request \<Rightarrow> 'a world_scheme \<Rightarrow> Request \<times> 'a world_scheme" where
  "Ensure src r s =
    (if current r \<noteq> None then (r, s)
     else
       let values = \<lparr>meta_requestID = incomingOrNewID src (Header_Get (RequestHeader r) IDHeader),
                     meta_backend = '''', meta_route = ''''\<rparr>
       in (r\<lparr>ctxMetadata := Some (length (metadata_store s)),
             RequestHeader := Header_Set IDHeader (meta_requestID values) (RequestHeader r)\<rparr>,
           s\<lparr>metadata_store := metadata_store s @ [values]\<rparr>))"

definition RequestID :: "Request \<Rightarrow> 'a world_scheme \<Rightarrow> string" where
  "RequestID r s = (case current r of None \<Rightarrow> '''' | Some p \<Rightarrow> meta_requestID (metadata_store s ! p))"

definition SetBackend :: "Request \<Rightarrow> string \<Rightarrow> 'a world_scheme \<Rightarrow> 'a world_scheme" where
  "SetBackend r backend s =
    (case current r of
       None \<Rightarrow> s
     | Some p \<Rightarrow> s\<lparr>metadata_store := (metadata_store s)[p := (metadata_store s ! p)\<lparr>meta_backend := backend\<rparr>]\<rparr>)"

definition meta_Backend :: "Request \<Rightarrow> 'a world_scheme \<Rightarrow> string" where
  "meta_Backend r s = (case current r of None \<Rightarrow> '''' | Some p \<Rightarrow> meta_backend (metadata_store s ! p))"

definition SetRoute :: "Request \<Rightarrow> string \<Rightarrow> 'a world_scheme \<Rightarrow> 'a world_scheme" where
  "SetRoute r route s =
    (case current r of
       None \<Rightarrow> s
     | Some p \<Rightarrow> s\<lparr>metadata_store := (metadata_store s)[p := (metadata_store s ! p)\<lparr>meta_route := route\<rparr>]\<rparr>)"

definition Route :: "Request \<Rightarrow> 'a world_scheme \<Rightarrow> string" where
  "Route r s = (case current r of None \<Rightarrow> '''' | Some p \<Rightarrow> meta_route (metadata_store s ! p))"

section \<open>Identifiers are safe\<close>

definition safe_char :: "char \<Rightarrow> bool" where
  "safe_char c = (let n = of_char c :: nat in 0x21 \<le> n \<and> n \<le> 0x7e)"

lemma isSafeID_iff: "isSafeID s \<longleftrightarrow> s \<noteq> '''' \<and> length s \<le> 128 \<and> list_all safe_char s"
  by (auto simp: isSafeID_def safe_char_def list_all_iff Let_def not_less)

lemma safe_lower_hex_digit: "n < 16 \<Longrightarrow> safe_char (lower_hex_digit n)"
  by (simp add: safe_char_def lower_hex_digit_def)

lemma EncodeToString_safe: "list_all safe_char (EncodeToString bs)" "length (EncodeToString bs) = 2 * length bs"
proof -
  have "of_char b div 16 < (16 :: nat)" for b :: char
    using less_mult_imp_div_less [of "of_char b :: nat" 16 16] by simp
  then show "list_all safe_char (EncodeToString bs)"
    by (induction bs) (auto simp: EncodeToString_def Let_def safe_lower_hex_digit)
  show "length (EncodeToString bs) = 2 * length bs"
    by (induction bs) (auto simp: EncodeToString_def Let_def)
qed

lemma nat_hex_safe: "list_all safe_char (nat_hex n) \<and> nat_hex n \<noteq> '''' \<and> (n < 16 ^ Suc k \<longrightarrow> length (nat_hex n) \<le> Suc k)"
proof (induction n arbitrary: k rule: nat_hex.induct)
  case (1 n)
  show ?case
  proof (cases "n < 16")
    case True
    then show ?thesis by (subst (1 2 3) nat_hex.simps) (simp add: safe_lower_hex_digit)
  next
    case False
    have shorter: "length (nat_hex (n div 16)) \<le> k" if "n < 16 ^ Suc k"
    proof -
      have "k \<noteq> 0" using False that by (intro notI) simp
      then obtain j where k: "k = Suc j" using not0_implies_Suc by blast
      have "n div 16 < 16 ^ Suc j" using that k by (simp add: less_mult_imp_div_less)
      then show ?thesis using 1 [OF False, of j] k by blast
    qed
    show ?thesis using False 1 [OF False] shorter
      by (subst (1 2 3) nat_hex.simps) (simp add: safe_lower_hex_digit)
  qed
qed

lemma FormatHex_safe:
  assumes "- (2 ^ 63) \<le> i" "i < 2 ^ 63"
  shows "isSafeID (FormatHex i)"
proof -
  have "nat (- i) < 16 ^ Suc 15" "nat i < 16 ^ Suc 15" using assms by auto
  then have "length (nat_hex (nat (- i))) \<le> Suc 15" "length (nat_hex (nat i)) \<le> Suc 15"
    using nat_hex_safe by blast+
  moreover have "safe_char CHR ''-''" by code_simp
  ultimately show ?thesis
    using nat_hex_safe [of "nat (- i)" 0] nat_hex_safe [of "nat i" 0]
    by (auto simp: FormatHex_def isSafeID_iff)
qed

definition source_ok :: "id_source \<Rightarrow> bool" where
  "source_ok src =
    ((case random_bytes src of None \<Rightarrow> True | Some bs \<Rightarrow> length bs = 16) \<and>
     - (2 ^ 63) \<le> unix_nano src \<and> unix_nano src < 2 ^ 63)"

lemma incomingOrNewID_safe: "source_ok src \<Longrightarrow> isSafeID (incomingOrNewID src incoming)"
  using EncodeToString_safe FormatHex_safe [of "unix_nano src"]
  by (auto simp: incomingOrNewID_def source_ok_def isSafeID_iff split: option.splits)
    (metis length_0_conv mult_is_0 numeral_eq_iff zero_neq_numeral)+

section \<open>Ensure\<close>

text \<open>The pointer of a request is valid.\<close>

definition meta_ok :: "Request \<Rightarrow> 'a world_scheme \<Rightarrow> bool" where
  "meta_ok r s = (case current r of None \<Rightarrow> False | Some p \<Rightarrow> p < length (metadata_store s))"

lemma Ensure_meta_ok: "current r = None \<or> meta_ok r s \<Longrightarrow> Ensure src r s = (r', s') \<Longrightarrow> meta_ok r' s'"
  by (cases "ctxMetadata r") (auto simp: Ensure_def current_def meta_ok_def Let_def)

lemma Ensure_idem: "Ensure src r s = (r', s') \<Longrightarrow> Ensure src' r' s' = (r', s')"
  by (auto simp: Ensure_def current_def Let_def split: if_splits)

text \<open>C36 (functional). Every request gets an identifier that is safe to log and to forward: 1 to 128 visible
  ASCII characters. A safe identifier the client sent is kept, any other value is replaced; the
  request that goes on carries the identifier in its header, nothing recorded for earlier requests
  changes, and further calls by inner handlers keep the same metadata.\<close>

theorem request_id_installed:
  assumes "current r = None" "source_ok src" "Ensure src r s = (r', s')"
  shows "isSafeID (RequestID r' s')
    \<and> (isSafeID (Header_Get (RequestHeader r) IDHeader) \<longrightarrow> RequestID r' s' = Header_Get (RequestHeader r) IDHeader)
    \<and> Header_Values (RequestHeader r') IDHeader = [RequestID r' s']
    \<and> meta_Backend r' s' = '''' \<and> Route r' s' = ''''
    \<and> (\<exists>m. metadata_store s' = metadata_store s @ [m])
    \<and> Ensure src' r' s' = (r', s')"
  using assms(1,3) incomingOrNewID_safe [OF assms(2)] Ensure_idem [OF assms(3)]
  by (auto simp: Ensure_def RequestID_def current_def meta_Backend_def Route_def Let_def incomingOrNewID_def)

definition sample_source :: id_source where
  "sample_source = \<lparr>random_bytes = Some (replicate 16 CHR ''x''), unix_nano = 0\<rparr>"

definition sample_get :: "Header \<Rightarrow> Request" where
  "sample_get h =
    \<lparr>Method = ''GET'',
     requestURL = \<lparr>Scheme = '''', Opaque = '''', hasUser = False, Host = '''', Path = ''/'', RawPath = '''',
       ForceQuery = False, RawQuery = '''', Fragment = ''''\<rparr>,
     RequestHeader = h, hasBody = False, RequestHost = ''h'', overTLS = False, RemoteAddr = ''192.0.2.1:9'',
     ctxMetadata = None\<rparr>"

theorem request_id_installed_witness:
  "\<exists>r' s'. Ensure sample_source (sample_get [(''X-Request-Id'', [''abc''])]) \<lparr>metadata_store = []\<rparr> = (r', s')
    \<and> RequestID r' s' = ''abc'' \<and> Header_Values (RequestHeader r') IDHeader = [''abc'']"
proof -
  let ?r = "sample_get [(''X-Request-Id'', [''abc''])]"
  obtain r' s' where e: "Ensure sample_source ?r \<lparr>metadata_store = []\<rparr> = (r', s')" by fastforce
  have "isSafeID ''abc''" by code_simp
  moreover have "Header_Get (RequestHeader ?r) IDHeader = ''abc''" by code_simp
  moreover have "source_ok sample_source" by (simp add: source_ok_def sample_source_def)
  moreover have "current ?r = None" by (simp add: current_def sample_get_def)
  ultimately show ?thesis using request_id_installed [OF _ _ e] e by simp
qed

text \<open>What one handler records, the handlers that share the metadata read; other requests are not
  affected.\<close>

lemma metadata_set_get:
  assumes "meta_ok r s"
  shows "Route r (SetRoute r p s) = p" "meta_Backend r (SetBackend r b s) = b"
    "Route r (SetBackend r b s) = Route r s" "meta_Backend r (SetRoute r p s) = meta_Backend r s"
    "RequestID q (SetRoute r p s) = RequestID q s" "RequestID q (SetBackend r b s) = RequestID q s"
    "current q \<noteq> current r \<Longrightarrow> Route q (SetRoute r p s) = Route q s"
    "current q \<noteq> current r \<Longrightarrow> meta_Backend q (SetBackend r b s) = meta_Backend q s"
    "meta_ok q (SetRoute r p s) = meta_ok q s" "meta_ok q (SetBackend r b s) = meta_ok q s"
  using assms
  by (auto simp: meta_ok_def Route_def SetRoute_def SetBackend_def meta_Backend_def RequestID_def nth_list_update
    split: option.splits)

end
