(* ===== verification/Middleware.thy ===== *)
theory Middleware
  imports Response_Writers Request_Meta
begin

text \<open>
  The HTTP middleware of \<^verbatim>\<open>src/internal/middleware\<close>: composition, panic recovery, API keys, request
  logging and CORS.

  A handler takes the request, its writer and the state the handlers share, and returns how it ended,
  the writer and the state; a panic is a value that passes through the handlers outside it unless one
  recovers it. A handler that wraps its writer gets it back in the same wrapper, since all a handler
  can do with a writer is to call it; \<open>logging_of\<close> takes the wrapper off.

  SHA-256 is the argument \<open>Sum256\<close>. The state of the world grows by extending records: here by the log.
\<close>

section \<open>Model\<close>

text \<open>A panic carries \<^verbatim>\<open>http.ErrAbortHandler\<close>, an error that wraps another value, or anything else.\<close>

datatype panic_value = ErrAbortHandler | PanicValue string | WrappedError string panic_value

text \<open>\<^verbatim>\<open>errors.Is(value, http.ErrAbortHandler)\<close>.\<close>

fun is_abort :: "panic_value \<Rightarrow> bool" where
  "is_abort ErrAbortHandler = True"
| "is_abort (PanicValue _) = False"
| "is_abort (WrappedError _ p) = is_abort p"

datatype flow = Returned | Panicked panic_value

text \<open>The value with which the server's writer refuses a status.\<close>

definition invalid_code :: "int \<Rightarrow> panic_value" where
  "invalid_code status = PanicValue (''invalid WriteHeader code '' @ FormatInt status)"

type_synonym 's handler = "Request \<Rightarrow> writer \<Rightarrow> 's \<Rightarrow> flow \<times> writer \<times> 's"

type_synonym 's middleware = "'s handler \<Rightarrow> 's handler"

datatype Level = LevelInfo | LevelWarn | LevelError

record completed =
  log_level :: Level
  log_method :: string
  log_path :: string
  log_host :: string
  log_remote_addr :: string
  log_status :: int
  log_response_bytes :: int
  log_duration :: duration
  log_request_id :: string
  log_backend :: "string option"

datatype log_event =
    RequestCompleted completed
  | PanicRecovered panic_value
  | CachedWriteFailed string

record logged_world = world +
  log_events :: "log_event list"

definition emit :: "log_event \<Rightarrow> 'a logged_world_scheme \<Rightarrow> 'a logged_world_scheme" where
  "emit e s = s\<lparr>log_events := log_events s @ [e]\<rparr>"

subsection \<open>chain.go\<close>

definition Chain :: "'s middleware list \<Rightarrow> 's middleware" where
  "Chain middlewares nxt = foldl (\<lambda>nxt m. m nxt) nxt (rev middlewares)"

subsection \<open>recovery.go\<close>

definition Recovery :: "unicode_case \<Rightarrow> 'a logged_world_scheme middleware" where
  "Recovery U nxt r w s =
    (case nxt r w s of
       (Panicked p, w, s) \<Rightarrow>
         if is_abort p then (Panicked p, w, s)
         else (Returned, http_Error U ''internal server error'' 500 w, emit (PanicRecovered p) s)
     | (Returned, w, s) \<Rightarrow> (Returned, w, s))"

subsection \<open>api key.go\<close>

definition APIKeyHeader :: string where
  "APIKeyHeader = ''X-API-Key''"

definition ConstantTimeCompare :: "bytes \<Rightarrow> bytes \<Rightarrow> nat" where
  "ConstantTimeCompare x y = (if x = y then 1 else 0)"

definition matchesAPIKey :: "(bytes \<Rightarrow> bytes) \<Rightarrow> string \<Rightarrow> bytes list \<Rightarrow> bool" where
  "matchesAPIKey Sum256 providedKey validKeyDigests =
    (let providedDigest = Sum256 providedKey
     in foldl (\<lambda>matched validDigest. or matched (ConstantTimeCompare providedDigest validDigest)) 0 validKeyDigests = 1)"

definition APIKeyAuth :: "unicode_case \<Rightarrow> (bytes \<Rightarrow> bytes) \<Rightarrow> string list \<Rightarrow> 's middleware" where
  "APIKeyAuth U Sum256 validKeys nxt r w s =
    (let validKeyDigests = map Sum256 validKeys;
         providedKey = Header_Get (RequestHeader r) APIKeyHeader
     in if providedKey = '''' \<or> \<not> matchesAPIKey Sum256 providedKey validKeyDigests
        then (Returned,
              http_Error U ''unauthorized'' 401 (update_header (Header_Set ''WWW-Authenticate'' ''ApiKey'') w), s)
        else nxt (r\<lparr>RequestHeader := Header_Del APIKeyHeader (RequestHeader r)\<rparr>) w s)"

subsection \<open>logging.go\<close>

definition logging_of :: "writer \<Rightarrow> loggingResponseWriter \<times> writer" where
  "logging_of v = (case v of Logging l w \<Rightarrow> (l, w) | _ \<Rightarrow> (new_logging, v))"

definition completion_event ::
  "Request \<Rightarrow> loggingResponseWriter \<Rightarrow> int \<Rightarrow> duration \<Rightarrow> 'a world_scheme \<Rightarrow> completed" where
  "completion_event r l status duration s =
    \<lparr>log_level = (if status \<ge> 500 then LevelError else if status \<ge> 400 then LevelWarn else LevelInfo),
     log_method = Method r, log_path = Path (requestURL r), log_host = RequestHost r,
     log_remote_addr = RemoteAddr r, log_status = status, log_response_bytes = bytesWritten l,
     log_duration = duration, log_request_id = RequestID r s,
     log_backend = (if meta_Backend r s \<noteq> '''' then Some (meta_Backend r s) else None)\<rparr>"

definition logCompletedRequest ::
  "Request \<Rightarrow> loggingResponseWriter \<Rightarrow> int \<Rightarrow> duration \<Rightarrow> 'a logged_world_scheme \<Rightarrow> 'a logged_world_scheme" where
  "logCompletedRequest r l status duration s = emit (RequestCompleted (completion_event r l status duration s)) s"

definition RequestLogger ::
  "id_source \<Rightarrow> time \<Rightarrow> time \<Rightarrow> 'a logged_world_scheme middleware" where
  "RequestLogger src startedAt finishedAt nxt r w s =
    (let (r, s) = Ensure src r s;
         response = update_header (Header_Set IDHeader (RequestID r s)) (Logging new_logging w);
         (fl, response, s) = nxt r response s;
         (l, w) = logging_of response;
         status = (if fl \<noteq> Returned \<and> \<not> log_wroteHeader l then 500 else loggingResponseWriter_status l)
     in (fl, w, logCompletedRequest r l status (time_Sub finishedAt startedAt) s))"

subsection \<open>cors.go\<close>

record CORSOptions =
  optAllowedOrigins :: "string list"
  optAllowedMethods :: "string list"
  optAllowedHeaders :: "string list"
  optExposedHeaders :: "string list"
  optAllowCredentials :: bool
  optMaxAge :: duration

text \<open>A string set is the list of its elements.\<close>

definition makeStringSet :: "unicode_case \<Rightarrow> string list \<Rightarrow> bool \<Rightarrow> string list" where
  "makeStringSet U values upper = map (\<lambda>v. if upper then ToUpper U v else v) values"

definition contains :: "string list \<Rightarrow> string \<Rightarrow> bool" where
  "contains members value = list_ex (\<lambda>v. v = value) members"

definition uppercaseStrings :: "unicode_case \<Rightarrow> string list \<Rightarrow> string list" where
  "uppercaseStrings U values = map (ToUpper U) values"

definition headersAllowed :: "unicode_case \<Rightarrow> string list \<Rightarrow> string list \<Rightarrow> bool \<Rightarrow> bool" where
  "headersAllowed U headerValues allowedHeaders allowEveryHeader =
    (allowEveryHeader \<or>
     list_all (\<lambda>headerValue. list_all
       (\<lambda>header. let h = ToUpper U (TrimSpace header) in \<not> (h \<noteq> '''' \<and> \<not> contains allowedHeaders h))
       (Split headerValue CHR '','')) headerValues)"

definition addVary :: "unicode_case \<Rightarrow> string \<Rightarrow> Header \<Rightarrow> Header" where
  "addVary U value h =
    (if list_ex (\<lambda>existingValue. list_ex (\<lambda>existing. EqualFold U (TrimSpace existing) value)
          (Split existingValue CHR '','')) (Header_Values h ''Vary'')
     then h else Header_Add ''Vary'' value h)"

abbreviation "allowCredentialsHeader \<equiv> ''Access-Control-Allow-Credentials''"
abbreviation "allowHeadersHeader \<equiv> ''Access-Control-Allow-Headers''"
abbreviation "allowMethodsHeader \<equiv> ''Access-Control-Allow-Methods''"
abbreviation "allowOriginHeader \<equiv> ''Access-Control-Allow-Origin''"
abbreviation "exposeHeadersHeader \<equiv> ''Access-Control-Expose-Headers''"
abbreviation "maxAgeHeader \<equiv> ''Access-Control-Max-Age''"
abbreviation "requestHeadersHeader \<equiv> ''Access-Control-Request-Headers''"
abbreviation "requestMethodHeader \<equiv> ''Access-Control-Request-Method''"

text \<open>The changes to the header map in the three stages of the handler.\<close>

definition cors_vary :: "unicode_case \<Rightarrow> bool \<Rightarrow> bool \<Rightarrow> Header \<Rightarrow> Header" where
  "cors_vary U useWildcardOriginHeader preflight h =
    (let h = (if \<not> useWildcardOriginHeader then addVary U ''Origin'' h else h)
     in if preflight then addVary U requestHeadersHeader (addVary U requestMethodHeader h) else h)"

definition cors_grant :: "CORSOptions \<Rightarrow> bool \<Rightarrow> string \<Rightarrow> Header \<Rightarrow> Header" where
  "cors_grant options useWildcardOriginHeader origin h =
    (let h = Header_Set allowOriginHeader (if useWildcardOriginHeader then ''*'' else origin) h;
         h = (if optAllowCredentials options then Header_Set allowCredentialsHeader ''true'' h else h);
         exposedHeaders = Join (optExposedHeaders options) '', ''
     in if exposedHeaders \<noteq> '''' then Header_Set exposeHeadersHeader exposedHeaders h else h)"

definition cors_preflight :: "unicode_case \<Rightarrow> CORSOptions \<Rightarrow> bool \<Rightarrow> string \<Rightarrow> Header \<Rightarrow> Header" where
  "cors_preflight U options allowEveryHeader requestedHeaders h =
    (let h = Header_Set allowMethodsHeader (Join (uppercaseStrings U (optAllowedMethods options)) '', '') h;
         headersHeader = Join (optAllowedHeaders options) '', '';
         h = (if allowEveryHeader \<and> requestedHeaders \<noteq> '''' then Header_Set allowHeadersHeader requestedHeaders h
              else if headersHeader \<noteq> '''' then Header_Set allowHeadersHeader headersHeader h else h);
         maxAgeSeconds = go_div (optMaxAge options) 1000000000
     in if maxAgeSeconds > 0 then Header_Set maxAgeHeader (FormatInt maxAgeSeconds) h else h)"

definition CORS :: "unicode_case \<Rightarrow> CORSOptions \<Rightarrow> 's middleware" where
  "CORS U options nxt =
    (let allowedOrigins = makeStringSet U (optAllowedOrigins options) False;
         allowedMethods = makeStringSet U (optAllowedMethods options) True;
         allowedHeaders = makeStringSet U (optAllowedHeaders options) True;
         allowEveryOrigin = contains allowedOrigins ''*'';
         allowEveryHeader = contains allowedHeaders ''*''
     in if allowedOrigins = [] then nxt
        else (\<lambda>r w s.
          let origin = Header_Get (RequestHeader r) ''Origin''
          in if origin = '''' then nxt r w s
             else
               let useWildcardOriginHeader = allowEveryOrigin \<and> \<not> optAllowCredentials options;
                   preflight = (Method r = ''OPTIONS'' \<and> Header_Get (RequestHeader r) requestMethodHeader \<noteq> '''');
                   w = update_header (cors_vary U useWildcardOriginHeader preflight) w
               in if \<not> allowEveryOrigin \<and> \<not> contains allowedOrigins origin then
                    (if preflight then (Returned, http_Error U ''CORS request denied'' 403 w, s) else nxt r w s)
                  else
                    let requestedMethod = ToUpper U (TrimSpace (Header_Get (RequestHeader r) requestMethodHeader))
                    in if preflight \<and> (\<not> contains allowedMethods requestedMethod \<or>
                          \<not> headersAllowed U (Header_Values (RequestHeader r) requestHeadersHeader) allowedHeaders allowEveryHeader)
                       then (Returned, http_Error U ''CORS request denied'' 403 w, s)
                       else
                         let w = update_header (cors_grant options useWildcardOriginHeader origin) w
                         in if \<not> preflight then nxt r w s
                            else (Returned,
                              WriteHeader U 204 (update_header (cors_preflight U options allowEveryHeader
                                (Header_Get (RequestHeader r) requestHeadersHeader)) w), s)))"

section \<open>Composition\<close>

lemma Chain_Nil [simp]: "Chain [] nxt = nxt"
  by (simp add: Chain_def)

lemma Chain_Cons [simp]: "Chain (m # ms) nxt = m (Chain ms nxt)"
  by (simp add: Chain_def)

lemma http_Error_base:
  assumes "writer_ok U w" "valid_status code"
  shows "base_of (http_Error U message code w) =
    snd (snd (base_Write (message @ [CHR 0x0A])
      (base_WriteHeader code ((base_of w)\<lparr>base_header := error_headers (base_header (base_of w))\<rparr>))))"
  using writer_exec_run [OF assms(1), of "[ChangeHeader error_headers, SendStatus code, SendBody (message @ [CHR 0x0A])]"]
    assms(2) writer_ok_base [OF assms(1)]
  by (simp add: http_Error_def on_record_def base_ok_def)

text \<open>The response of \<^verbatim>\<open>http.Error\<close> on a writer that has sent nothing.\<close>

lemma http_Error_response:
  assumes "writer_ok U w" "unwritten w" "200 \<le> code \<and> code \<le> 999" "write_faults (base_of w) = []"
  shows "base_status (base_of (http_Error U message code w)) = Some code"
    "base_body (base_of (http_Error U message code w)) = message @ [CHR 0x0A]"
    "sent_header (base_of (http_Error U message code w)) = error_headers (writer_Header w)"
  using assms writer_ok_base [OF assms(1)]
  by (simp_all add: http_Error_base base_ok_def unwritten_def base_WriteHeader_def base_Write_def writer_Header_def
    valid_status_def is_informational_def)

section \<open>Panics\<close>

text \<open>C35 (error). A panic of a handler does not reach the server, except one that asks it to abort the
  connection, \<^verbatim>\<open>http.ErrAbortHandler\<close> or an error that wraps it, which is passed on unchanged. Any other panic is logged, and the client gets the
  generic message alone: status 500 if nothing was sent yet, never the panic value.\<close>

theorem recovery_contains_panics:
  assumes "nxt r w s = (Panicked p, w1, s1)" "writer_ok U w1" "write_faults (base_of w1) = []"
  shows "if is_abort p then Recovery U nxt r w s = (Panicked p, w1, s1)
    else \<exists>w2. Recovery U nxt r w s = (Returned, w2, emit (PanicRecovered p) s1)
      \<and> base_status (base_of w2) = (if unwritten w1 then Some 500 else base_status (base_of w1))
      \<and> base_body (base_of w2) = base_body (base_of w1) @ ''internal server error'' @ [CHR 0x0A]"
  using assms(1,3) writer_ok_base [OF assms(2)]
  by (auto simp: Recovery_def http_Error_base [OF assms(2)] unwritten_def base_WriteHeader_def base_Write_def
    is_informational_def base_ok_def)

theorem recovery_contains_panics_witness:
  "\<exists>w2. Recovery sample_unicode (\<lambda>r w s. (Panicked (PanicValue ''boom''), w, s)) (sample_get [])
      (Base (sample_server\<lparr>write_faults := []\<rparr>)) \<lparr>metadata_store = [], log_events = []\<rparr>
    = (Returned, w2, \<lparr>metadata_store = [], log_events = [PanicRecovered (PanicValue ''boom'')]\<rparr>)
    \<and> base_status (base_of w2) = Some 500 \<and> base_body (base_of w2) = ''internal server error'' @ [CHR 0x0A]"
  using recovery_contains_panics [of "\<lambda>r w s. (Panicked (PanicValue ''boom''), w, s)" "sample_get []"
      "Base (sample_server\<lparr>write_faults := []\<rparr>)" "\<lparr>metadata_store = [], log_events = []\<rparr>" "PanicValue ''boom''"
      "Base (sample_server\<lparr>write_faults := []\<rparr>)" "\<lparr>metadata_store = [], log_events = []\<rparr>" sample_unicode]
  by (simp add: emit_def sample_server_def base_ok_def unwritten_def)

section \<open>API keys\<close>

lemma matchesAPIKey_iff:
  "matchesAPIKey Sum256 providedKey ds \<longleftrightarrow> Sum256 providedKey \<in> set ds"
proof -
  let ?f = "\<lambda>matched d. or matched (ConstantTimeCompare (Sum256 providedKey) d)"
  have or01: "or (1 :: nat) 1 = 1" "or (1 :: nat) 0 = 1" "or (0 :: nat) 1 = 1" "or (0 :: nat) 0 = 0" by simp_all
  have "m = 0 \<or> m = 1 \<Longrightarrow> foldl ?f m ds = (if m = 1 \<or> Sum256 providedKey \<in> set ds then 1 else 0)" for m
    by (induction ds arbitrary: m) (auto simp: ConstantTimeCompare_def or01)
  from this [of 0] show ?thesis by (simp add: matchesAPIKey_def)
qed

text \<open>On a protected route exactly the requests with a configured key reach the next handler, with
  the key removed and the rest of the request unchanged; every other request is answered with 401 and
  a challenge, and leaves the state of the gateway as it was. This rests on SHA-256 telling the key
  that was sent from the configured ones.\<close>

lemma api_key_required:
  assumes "writer_ok U w" "unwritten w" "write_faults (base_of w) = []"
    and no_collision: "\<And>k. k \<in> set keys \<Longrightarrow> Sum256 k = Sum256 (Header_Get (RequestHeader r) APIKeyHeader) \<Longrightarrow>
      k = Header_Get (RequestHeader r) APIKeyHeader"
  shows "if Header_Get (RequestHeader r) APIKeyHeader \<in> set keys \<and> Header_Get (RequestHeader r) APIKeyHeader \<noteq> ''''
    then \<exists>q. APIKeyAuth U Sum256 keys nxt r w s = nxt q w s \<and> Header_Values (RequestHeader q) APIKeyHeader = []
      \<and> (\<forall>name. CanonicalHeaderKey name \<noteq> CanonicalHeaderKey APIKeyHeader \<longrightarrow>
          Header_Values (RequestHeader q) name = Header_Values (RequestHeader r) name)
      \<and> q\<lparr>RequestHeader := RequestHeader r\<rparr> = r
    else \<exists>w'. APIKeyAuth U Sum256 keys nxt r w s = (Returned, w', s)
      \<and> base_status (base_of w') = Some 401 \<and> base_body (base_of w') = ''unauthorized'' @ [CHR 0x0A]
      \<and> Header_Get (sent_header (base_of w')) ''WWW-Authenticate'' = ''ApiKey''"
proof -
  let ?key = "Header_Get (RequestHeader r) APIKeyHeader"
  let ?w = "update_header (Header_Set ''WWW-Authenticate'' ''ApiKey'') w"
  have w: "writer_ok U ?w" "unwritten ?w" "write_faults (base_of ?w) = []"
    using assms(1-3) by (auto simp: unwritten_def)
  have names: "CanonicalHeaderKey ''WWW-Authenticate'' \<noteq> CanonicalHeaderKey ''X-Content-Type-Options''"
    "CanonicalHeaderKey ''WWW-Authenticate'' \<noteq> CanonicalHeaderKey ''Content-Type''"
    "CanonicalHeaderKey ''WWW-Authenticate'' \<noteq> CanonicalHeaderKey ''Content-Length''" by code_simp+
  have challenge: "Header_Get (error_headers (writer_Header ?w)) ''WWW-Authenticate'' = ''ApiKey''"
    by (simp add: error_headers_def writer_Header_def names)
  have "matchesAPIKey Sum256 ?key (map Sum256 keys) \<longleftrightarrow> ?key \<in> set keys"
    using no_collision by (force simp: matchesAPIKey_iff)
  then show ?thesis
    using http_Error_response [OF w(1,2) _ w(3), of 401 "''unauthorized''"] challenge
    by (auto simp: APIKeyAuth_def is_informational_def intro!: exI [of _ "r\<lparr>RequestHeader := Header_Del APIKeyHeader (RequestHeader r)\<rparr>"])
qed

section \<open>The access log\<close>

text \<open>A handler uses its writer only by calling it, and does not return from a call that panicked.\<close>

definition uses_writer :: "unicode_case \<Rightarrow> writer \<Rightarrow> flow \<times> writer \<times> 's \<Rightarrow> bool" where
  "uses_writer U w x = (writes U w (fst (snd x)) \<and> (fst x = Returned \<longrightarrow> \<not> header_refused w (fst (snd x))))"

definition calls_writer :: "unicode_case \<Rightarrow> 's handler \<Rightarrow> bool" where
  "calls_writer U nxt = (\<forall>r w s. uses_writer U w (nxt r w s))"

lemma uses_writer_iff [simp]:
  "uses_writer U w (fl, w', s) \<longleftrightarrow> writes U w w' \<and> (fl = Returned \<longrightarrow> refused (base_of w') = refused (base_of w))"
  by (simp add: uses_writer_def header_refused_def)

lemma uses_writer_start:
  "uses_writer U v x \<Longrightarrow> writes U w v \<Longrightarrow> refused (base_of v) = refused (base_of w) \<Longrightarrow> uses_writer U w x"
  by (cases x) (auto intro: writes_trans)

lemma calls_writer_use: "calls_writer U nxt \<Longrightarrow> uses_writer U w (nxt r w s)"
  by (simp add: calls_writer_def)

lemma calls_writerD: "calls_writer U nxt \<Longrightarrow> nxt r w s = (fl, w', s') \<Longrightarrow> writes U w w'"
  and calls_writer_returns:
    "calls_writer U nxt \<Longrightarrow> nxt r w s = (Returned, w', s') \<Longrightarrow> refused (base_of w') = refused (base_of w)"
  using calls_writer_use [of U nxt w r s] by simp_all

text \<open>The status a client of the server's writer sees: an unfinished response is completed with 200, or
  replaced by 500 when the handler panicked.\<close>

definition client_status :: "flow \<Rightarrow> base_writer \<Rightarrow> int" where
  "client_status fl b = (case base_status b of Some c \<Rightarrow> c | None \<Rightarrow> if fl = Returned then 200 else 500)"

text \<open>The status that the log and the metrics report from the fields of their writers.\<close>

definition noted_status :: "flow \<Rightarrow> bool \<Rightarrow> int \<Rightarrow> int" where
  "noted_status fl wrote code = (if wrote then code else if fl = Returned then 200 else 500)"

lemma noted_client:
  "logging_ok l b \<Longrightarrow> noted_status fl (log_wroteHeader l) (log_statusCode l) = client_status fl b"
  "measuring_ok m b \<Longrightarrow> noted_status fl (met_wroteHeader m) (met_statusCode m) = client_status fl b"
  by (auto simp: logging_ok_def measuring_ok_def client_status_def noted_status_def)

text \<open>Every request that passes the logger, whether it returns or panics, adds exactly one
  completion event, after everything the inner handlers logged. The event carries the request's
  identifier, the status and the number of body bytes that the wrapper has noted, and names the backend
  an inner handler recorded in the shared metadata; a panic goes on to the outer handlers.\<close>

lemma RequestLogger_logs:
  assumes "calls_writer U nxt" "Ensure src r s = (r0, s0)"
    and "nxt r0 (Logging new_logging (update_header (Header_Set IDHeader (RequestID r0 s0)) w)) s0 = (fl, v, s1)"
  shows "\<exists>l w' e. v = Logging l w' \<and> RequestLogger src startedAt finishedAt nxt r w s =
      (fl, w', s1\<lparr>log_events := log_events s1 @ [RequestCompleted e]\<rparr>)
    \<and> writes U w w' \<and> log_status e = noted_status fl (log_wroteHeader l) (log_statusCode l)
    \<and> log_response_bytes e = bytesWritten l
    \<and> log_method e = Method r \<and> log_path e = Path (requestURL r)
    \<and> log_request_id e = RequestID r0 s1
    \<and> log_backend e = (if meta_Backend r0 s1 = '''' then None else Some (meta_Backend r0 s1))"
proof -
  let ?w = "update_header (Header_Set IDHeader (RequestID r0 s0)) w"
  obtain l w' where v: "v = Logging l w'" "writes U ?w w'"
    using writes_wrapped(1) calls_writerD [OF assms(1,3)] by blast
  have r0: "Method r0 = Method r" "requestURL r0 = requestURL r"
    using assms(2) by (auto simp: Ensure_def Let_def split: if_splits)
  let ?status = "noted_status fl (log_wroteHeader l) (log_statusCode l)"
  have status: "(if fl \<noteq> Returned \<and> \<not> log_wroteHeader l then 500 else loggingResponseWriter_status l) = ?status"
    by (simp add: noted_status_def loggingResponseWriter_status_def)
  have "RequestLogger src startedAt finishedAt nxt r w s =
      (fl, w', logCompletedRequest r0 l ?status (time_Sub finishedAt startedAt) s1)"
    using assms(2,3) v(1) unfolding RequestLogger_def status [symmetric] by (simp add: logging_of_def Let_def)
  moreover have "writes U w w'" using writes_calls(1) v(2) by (rule writes_trans)
  ultimately show ?thesis using r0 v(1)
    by (intro exI [of _ l] exI [of _ w'] exI [of _ "completion_event r0 l ?status (time_Sub finishedAt startedAt) s1"])
      (simp add: logCompletedRequest_def emit_def completion_event_def)
qed

section \<open>CORS\<close>

definition preflight :: "Request \<Rightarrow> bool" where
  "preflight r = (Method r = ''OPTIONS'' \<and> Header_Get (RequestHeader r) requestMethodHeader \<noteq> '''')"

definition origin_allowed :: "CORSOptions \<Rightarrow> string \<Rightarrow> bool" where
  "origin_allowed options origin = (''*'' \<in> set (optAllowedOrigins options) \<or> origin \<in> set (optAllowedOrigins options))"

text \<open>A preflight is granted when its method is listed and each header it names is listed, up to case,
  or all headers are allowed.\<close>

definition preflight_granted :: "unicode_case \<Rightarrow> CORSOptions \<Rightarrow> Request \<Rightarrow> bool" where
  "preflight_granted U options r =
    (ToUpper U (TrimSpace (Header_Get (RequestHeader r) requestMethodHeader)) \<in> ToUpper U ` set (optAllowedMethods options) \<and>
     (''*'' \<in> ToUpper U ` set (optAllowedHeaders options) \<or>
      (\<forall>value \<in> set (Header_Values (RequestHeader r) requestHeadersHeader). \<forall>header \<in> set (Split value CHR '','').
        ToUpper U (TrimSpace header) \<in> insert '''' (ToUpper U ` set (optAllowedHeaders options)))))"

lemma contains_iff [simp]: "contains members v \<longleftrightarrow> v \<in> set members"
  by (auto simp: contains_def list_ex_iff)

lemma preflight_granted_iff:
  "preflight_granted U options r \<longleftrightarrow>
    contains (makeStringSet U (optAllowedMethods options) True)
      (ToUpper U (TrimSpace (Header_Get (RequestHeader r) requestMethodHeader))) \<and>
    headersAllowed U (Header_Values (RequestHeader r) requestHeadersHeader)
      (makeStringSet U (optAllowedHeaders options) True)
      (contains (makeStringSet U (optAllowedHeaders options) True) ''*'')"
  by (auto simp: preflight_granted_def makeStringSet_def headersAllowed_def list_all_iff Let_def)

lemma addVary_other: "CanonicalHeaderKey name \<noteq> CanonicalHeaderKey ''Vary'' \<Longrightarrow> Header_Values (addVary U v h) name = Header_Values h name"
  by (simp add: addVary_def)

lemma cors_vary_other:
  assumes "name \<in> {allowOriginHeader, allowCredentialsHeader}"
  shows "Header_Values (cors_vary U wildcard pre h) name = Header_Values h name"
  using assms by (auto simp: cors_vary_def addVary_other Let_def)

lemma cors_grant_values:
  "Header_Values (cors_grant options wildcard origin h) allowOriginHeader = [if wildcard then ''*'' else origin]"
  "Header_Values (cors_grant options wildcard origin h) allowCredentialsHeader =
    (if optAllowCredentials options then [''true''] else Header_Values h allowCredentialsHeader)"
  by (simp_all add: cors_grant_def Let_def)

lemma cors_preflight_other:
  assumes "name \<in> {allowOriginHeader, allowCredentialsHeader}"
  shows "Header_Values (cors_preflight U options every requested h) name = Header_Values h name"
  using assms by (auto simp: cors_preflight_def Let_def)

lemma error_headers_other:
  assumes "name \<in> {allowOriginHeader, allowCredentialsHeader}"
  shows "Header_Values (error_headers h) name = Header_Values h name"
  using assms by (auto simp: error_headers_def)

lemma http_Error_Header: "writer_ok U w \<Longrightarrow> valid_status code \<Longrightarrow> writer_Header (http_Error U message code w) = error_headers (writer_Header w)"
  by (simp add: writer_Header_def http_Error_base base_WriteHeader_def base_Write_def Let_def split: list.splits option.splits)

lemma writer_Header_update [simp]: "writer_Header (update_header f w) = f (writer_Header w)"
  by (simp add: writer_Header_def)

definition cors_granted :: "unicode_case \<Rightarrow> CORSOptions \<Rightarrow> Request \<Rightarrow> bool" where
  "cors_granted U options r =
    (let origin = Header_Get (RequestHeader r) ''Origin''
     in origin \<noteq> '''' \<and> origin_allowed options origin \<and> (preflight r \<longrightarrow> preflight_granted U options r))"

text \<open>The writer that CORS hands on, or leaves when it answers itself.\<close>

definition cors_writer :: "unicode_case \<Rightarrow> CORSOptions \<Rightarrow> Request \<Rightarrow> writer \<Rightarrow> writer" where
  "cors_writer U options r w =
    (let origin = Header_Get (RequestHeader r) ''Origin'';
         wildcard = (''*'' \<in> set (optAllowedOrigins options) \<and> \<not> optAllowCredentials options);
         w1 = update_header (cors_vary U wildcard (preflight r)) w;
         w2 = update_header (cors_grant options wildcard origin) w1
     in if origin = '''' then w
        else if cors_granted U options r then
          (if preflight r
           then WriteHeader U 204 (update_header (cors_preflight U options
             (contains (makeStringSet U (optAllowedHeaders options) True) ''*'') (Header_Get (RequestHeader r) requestHeadersHeader)) w2)
           else w2)
        else if preflight r then http_Error U ''CORS request denied'' 403 w1
        else w1)"

lemma CORS_writer:
  assumes "optAllowedOrigins options \<noteq> []"
  shows "CORS U options nxt r w s =
    (if Header_Get (RequestHeader r) ''Origin'' \<noteq> '''' \<and> preflight r then (Returned, cors_writer U options r w, s)
     else nxt r (cors_writer U options r w) s)"
proof -
  have origins: "makeStringSet U (optAllowedOrigins options) False = optAllowedOrigins options"
    by (simp add: makeStringSet_def)
  show ?thesis
  proof (cases "Header_Get (RequestHeader r) ''Origin'' = ''''")
    case True
    then show ?thesis using assms by (simp add: CORS_def cors_writer_def Let_def origins)
  next
    case False
    then show ?thesis using assms
      by (cases "origin_allowed options (Header_Get (RequestHeader r) ''Origin'')"; cases "preflight r";
          cases "preflight_granted U options r";
          simp add: CORS_def cors_writer_def Let_def origins cors_granted_def origin_allowed_def
            preflight_granted_iff preflight_def; auto)
  qed
qed

text \<open>C19 (safety). CORS grants nothing beyond its configuration. A cross-origin request is answered or passed on
  with \<^verbatim>\<open>Access-Control-Allow-Origin\<close> only if its origin is listed or all are, with the wildcard only
  when credentials are off, and with the origin itself otherwise; credentials are allowed only when
  configured. A preflight never reaches the next handler: it is answered with 204 if its origin,
  method and headers are allowed and with 403 otherwise.\<close>

theorem cors_policy:
  assumes "optAllowedOrigins options \<noteq> []" "writer_ok U w" "unwritten w" "write_faults (base_of w) = []"
    and "Header_Values (writer_Header w) allowOriginHeader = []"
    and "Header_Values (writer_Header w) allowCredentialsHeader = []"
    and "origin = Header_Get (RequestHeader r) ''Origin''" "answers = (origin \<noteq> '''' \<and> preflight r)"
  shows "\<exists>w'. (\<forall>nxt s. CORS U options nxt r w s = (if answers then (Returned, w', s) else nxt r w' s))
    \<and> Header_Values (writer_Header w') allowOriginHeader =
        (if \<not> cors_granted U options r then []
         else if ''*'' \<in> set (optAllowedOrigins options) \<and> \<not> optAllowCredentials options then [''*''] else [origin])
    \<and> Header_Values (writer_Header w') allowCredentialsHeader =
        (if cors_granted U options r \<and> optAllowCredentials options then [''true''] else [])
    \<and> base_status (base_of w') =
        (if answers then Some (if cors_granted U options r then 204 else 403) else None)"
proof (rule exI [of _ "cors_writer U options r w"], intro conjI allI)
  let ?w = "cors_writer U options r w"
  show "CORS U options nxt r w s = (if answers then (Returned, ?w, s) else nxt r ?w s)" for nxt s
    by (simp add: CORS_writer [OF assms(1)] assms(7,8))
  let ?wild = "''*'' \<in> set (optAllowedOrigins options) \<and> \<not> optAllowCredentials options"
  let ?v = "update_header (cors_vary U ?wild (preflight r)) w"
  have ok: "writer_ok U (update_header f w)" "writer_ok U (update_header g (update_header f w))"
    "writer_ok U (update_header k (update_header g (update_header f w)))" for f g k
    using assms(2) by simp_all
  have header: "writer_Header (WriteHeader U c v) = writer_Header v" if "writer_ok U v" for c v
    using writer_WriteHeader_refusable [OF that] by (simp add: writer_Header_def)
  note defs = cors_writer_def Let_def header [OF ok(3)] http_Error_Header [OF ok(1)] cors_vary_other cors_grant_values
    cors_preflight_other error_headers_other assms(5,6)
  have none: "\<not> cors_granted U options r" if "origin = ''''" using that assms(7) by (simp add: cors_granted_def)
  show "Header_Values (writer_Header ?w) allowOriginHeader =
      (if \<not> cors_granted U options r then [] else if ?wild then [''*''] else [origin])"
    using none assms(7) by (simp add: defs)
  show "Header_Values (writer_Header ?w) allowCredentialsHeader =
      (if cors_granted U options r \<and> optAllowCredentials options then [''true''] else [])"
    using none assms(7) by (simp add: defs)
  have "base_status (base_of (WriteHeader U 204 (update_header k (update_header g (update_header f w))))) = Some 204" for f g k
    using writer_WriteHeader [OF ok(3), of 204] assms(3) by (simp add: unwritten_def base_WriteHeader_def is_informational_def)
  moreover have "base_status (base_of (http_Error U m 403 (update_header f w))) = Some 403" for m f
    using http_Error_response(1) [OF ok(1)] assms(3,4) by (simp add: unwritten_def is_informational_def)
  ultimately show "base_status (base_of ?w) = (if answers then Some (if cors_granted U options r then 204 else 403) else None)"
    using assms(3,7,8) by (simp add: cors_writer_def Let_def unwritten_def)
qed

definition sample_cors :: CORSOptions where
  "sample_cors =
    \<lparr>optAllowedOrigins = [''https://a.example''], optAllowedMethods = [''GET''], optAllowedHeaders = [], optExposedHeaders = [],
     optAllowCredentials = True, optMaxAge = 0\<rparr>"

theorem cors_policy_witness:
  "\<exists>w'. CORS sample_unicode sample_cors (\<lambda>r w s. (Returned, w, s)) (sample_get [(''Origin'', [''https://b.example''])])
      (Base (sample_server\<lparr>write_faults := []\<rparr>)) (0 :: nat) = (Returned, w', 0)
    \<and> Header_Values (writer_Header w') allowOriginHeader = []"
proof -
  let ?r = "sample_get [(''Origin'', [''https://b.example''])]"
  let ?w = "Base (sample_server\<lparr>write_faults := []\<rparr>)"
  have origin: "''https://b.example'' = Header_Get (RequestHeader ?r) ''Origin''"
    by (simp add: sample_get_def Header_Get_def Header_Values_def)
  have pre: "\<not> preflight ?r" by (simp add: preflight_def sample_get_def)
  have granted: "\<not> cors_granted sample_unicode sample_cors ?r"
    using origin by (simp add: cors_granted_def origin_allowed_def sample_cors_def)
  have start: "optAllowedOrigins sample_cors \<noteq> []" "writer_ok sample_unicode ?w" "unwritten ?w" "write_faults (base_of ?w) = []"
    "Header_Values (writer_Header ?w) allowOriginHeader = []" "Header_Values (writer_Header ?w) allowCredentialsHeader = []"
    by (simp_all add: sample_cors_def sample_server_def base_ok_def unwritten_def writer_Header_def Header_Values_def)
  have "\<exists>w'. (\<forall>(nxt :: nat handler) s. CORS sample_unicode sample_cors nxt ?r ?w s = nxt ?r w' s)
      \<and> Header_Values (writer_Header w') allowOriginHeader = []"
    by (rule ex_forward [OF cors_policy [where 'a = nat, OF start origin refl]]) (simp add: pre granted)
  then show ?thesis by (elim ex_forward) simp
qed

section \<open>Where the log differs from the response\<close>

text \<open>The server's writer panics for a status outside 100 to 999, which an upstream can send. The wrappers have
  recorded it by then: the log has the upstream's status at the level of a success, while the client gets 500.\<close>

definition send_status :: "unicode_case \<Rightarrow> int \<Rightarrow> 's handler" where
  "send_status U code r w s =
    (let w' = WriteHeader U code w
     in (if header_refused w w' then Panicked (invalid_code code) else Returned, w', s))"

lemma refused_status_logged:
  fixes s :: "'a logged_world_scheme"
  assumes "code < 100" "base_ok b" "base_status b = None" "write_faults b = []"
    and "Recovery U (RequestLogger src startedAt finishedAt (send_status U code)) r (Base b) s = (ended, w', s')"
  shows "\<exists>e. RequestCompleted e \<in> set (log_events s') \<and> log_status e = code \<and> log_level e = LevelInfo
    \<and> ended = Returned \<and> base_status (base_of w') = Some 500"
proof -
  obtain r0 s0 where e: "Ensure src r s = (r0, s0)" by fastforce
  let ?b = "b\<lparr>base_header := Header_Set IDHeader (RequestID r0 s0) (base_header b), refused := refused b @ [code]\<rparr>"
  let ?l = "new_logging\<lparr>log_statusCode := code, log_wroteHeader := True\<rparr>"
  let ?e = "completion_event r0 ?l code (time_Sub finishedAt startedAt) s0"
  have inner: "RequestLogger src startedAt finishedAt (send_status U code) r (Base b) s =
      (Panicked (invalid_code code), Base ?b, emit (RequestCompleted ?e) s0)"
    using assms(1,3)
    by (simp add: RequestLogger_def e send_status_def header_refused_def logging_of_def loggingResponseWriter_WriteHeader_def
      new_logging_def is_informational_def loggingResponseWriter_status_def logCompletedRequest_def base_WriteHeader_def
      valid_status_def Let_def)
  have "writer_ok U (Base ?b)" "unwritten (Base ?b)" "write_faults (base_of (Base ?b)) = []"
    using assms(2-4) by (simp_all add: base_ok_def unwritten_def)
  note error = http_Error_response(1) [OF this(1,2) _ this(3), of 500]
  have "log_status ?e = code" "log_level ?e = LevelInfo" using assms(1) by (simp_all add: completion_event_def)
  moreover have "RequestCompleted ?e \<in> set (log_events s')" "ended = Returned" "base_status (base_of w') = Some 500"
    using assms(5) error inner by (auto simp: Recovery_def emit_def invalid_code_def)
  ultimately show ?thesis by blast
qed

text \<open>A connection that is taken over past the wrappers is logged with status 200, although the client got 101.\<close>

lemma upgrade_logged_as_200:
  fixes s :: "'a logged_world_scheme"
  assumes "unwritten w" "\<And>r v s. nxt r v s = (Returned, SwitchProtocols (update_header f v), s)"
    and "RequestLogger src startedAt finishedAt nxt r w s = (ended, w', s')"
  shows "\<exists>e. RequestCompleted e \<in> set (log_events s') \<and> log_status e = 200
    \<and> ended = Returned \<and> base_status (base_of w') = Some 101"
proof -
  obtain r0 s0 where e: "Ensure src r s = (r0, s0)" by fastforce
  let ?e = "completion_event r0 new_logging 200 (time_Sub finishedAt startedAt) s0"
  have "s' = emit (RequestCompleted ?e) s0" "ended = Returned"
    "w' = SwitchProtocols (update_header f (update_header (Header_Set IDHeader (RequestID r0 s0)) w))"
    using assms(3) by (simp_all add: RequestLogger_def e assms(2) logging_of_def loggingResponseWriter_status_def new_logging_def
      logCompletedRequest_def Let_def)
  then show ?thesis
    using assms(1) by (intro exI [of _ ?e]) (simp add: emit_def completion_event_def unwritten_def base_SwitchProtocols_def)
qed

end
