(* ===== verification/Metrics.thy ===== *)
theory Metrics
  imports Middleware Circuit_Breaker Float64 "HOL-Library.List_Lexorder" "HOL-Library.Char_ord"
begin

text \<open>
  Metrics and probes, \<^verbatim>\<open>src/internal/metrics\<close>: the request recorder, the collector of circuit-breaker
  states, and the liveness and readiness handlers.

  The Prometheus client is represented by the calls the recorder makes on it, in order. The quoting
  of a string by \<^verbatim>\<open>encoding/json\<close> is the argument \<open>quote\<close>; strings compare by bytes, so \<^verbatim>\<open>sort.Strings\<close>
  is sorting in the lexicographic order.
\<close>

section \<open>Model\<close>

subsection \<open>prometheus.go\<close>

type_synonym labels = "string \<times> string \<times> string"

datatype metric_call =
    RequestsInc labels
  | DurationObserve labels float64
  | ErrorsInc labels

record measured_world = logged_world +
  metric_calls :: "metric_call list"

definition metricMethod :: "string \<Rightarrow> string" where
  "metricMethod m =
    (if m \<in> set [''CONNECT'', ''DELETE'', ''GET'', ''HEAD'', ''OPTIONS'', ''PATCH'', ''POST'', ''PUT'', ''TRACE''] then m
     else ''OTHER'')"

text \<open>\<^verbatim>\<open>observe\<close> makes its calls on the library one after the other; other goroutines and a scrape can come in between.\<close>

definition observe_calls :: "Request \<Rightarrow> int \<Rightarrow> duration \<Rightarrow> 'a world_scheme \<Rightarrow> metric_call list" where
  "observe_calls r status duration s =
    (let route = (if Route r s = '''' then ''unmatched'' else Route r s);
         labels = (metricMethod (Method r), route, FormatInt status)
     in [RequestsInc labels, DurationObserve labels (Duration_Seconds duration)] @
        (if status \<ge> 500 then [ErrorsInc labels] else []))"

definition metric_do :: "metric_call \<Rightarrow> 'a measured_world_scheme \<Rightarrow> 'a measured_world_scheme" where
  "metric_do c s = s\<lparr>metric_calls := metric_calls s @ [c]\<rparr>"

definition observe :: "Request \<Rightarrow> int \<Rightarrow> duration \<Rightarrow> 'a measured_world_scheme \<Rightarrow> 'a measured_world_scheme" where
  "observe r status duration s = foldl (\<lambda>s c. metric_do c s) s (observe_calls r status duration s)"

definition measuring_of :: "writer \<Rightarrow> responseWriter \<times> writer" where
  "measuring_of v = (case v of Measuring m w \<Rightarrow> (m, w) | _ \<Rightarrow> (new_measuring, v))"

definition Instrument :: "time \<Rightarrow> time \<Rightarrow> 'a measured_world_scheme middleware" where
  "Instrument startedAt finishedAt nxt r w s =
    (let (ended, response, s) = nxt r (Measuring new_measuring w) s;
         (m, w) = measuring_of response;
         status = (if ended \<noteq> Returned \<and> \<not> met_wroteHeader m then 500 else responseWriter_status m)
     in (ended, w, observe r status (time_Sub finishedAt startedAt) s))"

subsection \<open>circuit breaker.go\<close>

definition circuitBreakerStates :: "State list" where
  "circuitBreakerStates = [StateClosed, StateOpen, StateHalfOpen]"

definition Collect_states :: "(string, State) gomap \<Rightarrow> (float64 \<times> string \<times> string) list" where
  "Collect_states states =
    concat (map (\<lambda>(pool, current).
      map (\<lambda>state. (if current = state then Fin 1 else Fin 0, pool, State_String state)) circuitBreakerStates) states)"

subsection \<open>health.go\<close>

record healthResponse =
  health_Status :: string
  health_UnavailablePools :: "string list"

text \<open>\<^verbatim>\<open>json.Marshal\<close> of a \<^verbatim>\<open>healthResponse\<close>; marshalling strings does not fail.\<close>

definition json_Marshal :: "(string \<Rightarrow> string) \<Rightarrow> healthResponse \<Rightarrow> bytes option" where
  "json_Marshal quote response =
    Some ([CHR 0x7B] @ quote ''status'' @ '':'' @ quote (health_Status response) @
      (if health_UnavailablePools response = [] then ''''
       else '','' @ quote ''unavailable_pools'' @ '':['' @ Join (map quote (health_UnavailablePools response)) '','' @ '']'') @
      [CHR 0x7D])"

definition allowsProbeMethod :: "unicode_case \<Rightarrow> Request \<Rightarrow> writer \<Rightarrow> bool \<times> writer" where
  "allowsProbeMethod U r w =
    (if Method r = ''GET'' \<or> Method r = ''HEAD'' then (True, w)
     else (False, http_Error U ''method not allowed'' 405 (update_header (Header_Set ''Allow'' ''GET, HEAD'') w)))"

definition writeHealthResponse ::
  "unicode_case \<Rightarrow> (string \<Rightarrow> string) \<Rightarrow> Request \<Rightarrow> int \<Rightarrow> healthResponse \<Rightarrow> writer \<Rightarrow> writer" where
  "writeHealthResponse U quote r status response w =
    (case json_Marshal quote response of
       None \<Rightarrow> http_Error U ''encode health response'' 500 w
     | Some body \<Rightarrow>
         let w = update_header (Header_Set ''Cache-Control'' ''no-store'') w;
             w = update_header (Header_Set ''Content-Type'' ''application/json'') w;
             w = WriteHeader U status w
         in if Method r = ''HEAD'' then w else snd (snd (Write U (body @ [CHR 0x0A]) w)))"

definition HealthHandler :: "unicode_case \<Rightarrow> (string \<Rightarrow> string) \<Rightarrow> 's handler" where
  "HealthHandler U quote r w s =
    (case allowsProbeMethod U r w of
       (False, w) \<Rightarrow> (Returned, w, s)
     | (True, w) \<Rightarrow>
         (Returned, writeHealthResponse U quote r 200 \<lparr>health_Status = ''ok'', health_UnavailablePools = []\<rparr> w, s))"

text \<open>The source is absent or reads the unavailable pools from the state.\<close>

definition ReadinessHandler ::
  "unicode_case \<Rightarrow> (string \<Rightarrow> string) \<Rightarrow> ('s \<Rightarrow> string list) option \<Rightarrow> 's handler" where
  "ReadinessHandler U quote source r w s =
    (case allowsProbeMethod U r w of
       (False, w) \<Rightarrow> (Returned, w, s)
     | (True, w) \<Rightarrow>
         (case source of
            None \<Rightarrow>
              (Returned, writeHealthResponse U quote r 503
                \<lparr>health_Status = ''not_ready'', health_UnavailablePools = []\<rparr> w, s)
          | Some source_UnavailablePools \<Rightarrow>
              let unavailablePools = sort (source_UnavailablePools s)
              in if length unavailablePools > 0
                 then (Returned, writeHealthResponse U quote r 503
                   \<lparr>health_Status = ''not_ready'', health_UnavailablePools = unavailablePools\<rparr> w, s)
                 else (Returned, writeHealthResponse U quote r 200
                   \<lparr>health_Status = ''ready'', health_UnavailablePools = []\<rparr> w, s)))"

section \<open>Request metrics\<close>

text \<open>Every request that passes the recorder, whether it returns or panics, is counted once and
  timed once under the same labels: its method out of a fixed set, the route pattern an inner handler
  recorded or \<^verbatim>\<open>unmatched\<close>, and the status the wrapper has noted; it is counted as an error exactly when
  that status is 500 or more.\<close>

definition measurements :: "Request \<Rightarrow> string \<Rightarrow> int \<Rightarrow> duration \<Rightarrow> metric_call list" where
  "measurements r rt status duration =
    (let labels = (metricMethod (Method r), if rt = '''' then ''unmatched'' else rt, FormatInt status)
     in [RequestsInc labels, DurationObserve labels (Duration_Seconds duration)] @
        (if status \<ge> 500 then [ErrorsInc labels] else []))"

lemma observe_measurements: "observe r status d s = s\<lparr>metric_calls := metric_calls s @ measurements r (Route r s) status d\<rparr>"
  by (simp add: observe_def observe_calls_def metric_do_def measurements_def Let_def)

lemma Instrument_measures:
  assumes "calls_writer U nxt" "nxt r (Measuring new_measuring w) s = (ended, v, s1)"
  shows "\<exists>m w'. v = Measuring m w' \<and> Instrument startedAt finishedAt nxt r w s =
      (ended, w', s1\<lparr>metric_calls := metric_calls s1 @
        measurements r (Route r s1) (noted_status ended (met_wroteHeader m) (met_statusCode m)) (time_Sub finishedAt startedAt)\<rparr>)"
proof -
  obtain m w' where v: "v = Measuring m w'" using writes_wrapped(2) calls_writerD [OF assms] by blast
  have "(if ended \<noteq> Returned \<and> \<not> met_wroteHeader m then 500 else responseWriter_status m) =
      noted_status ended (met_wroteHeader m) (met_statusCode m)"
    by (simp add: noted_status_def responseWriter_status_def)
  then show ?thesis
    using assms(2) v by (intro exI [of _ m] exI [of _ w']) (simp add: Instrument_def measuring_of_def observe_measurements Let_def)
qed

lemma calls_Instrument:
  assumes "calls_writer U nxt"
  shows "calls_writer U (Instrument startedAt finishedAt nxt)"
  unfolding calls_writer_def
proof (intro allI)
  fix r w and s :: "'a measured_world_scheme"
  obtain ended v s1 where run: "nxt r (Measuring new_measuring w) s = (ended, v, s1)" using prod_cases3 by blast
  obtain m w' where "v = Measuring m w'" "writes U w w'"
    using writes_wrapped(2) [OF calls_writerD [OF assms run]] by blast
  moreover have "ended = Returned \<longrightarrow> refused (base_of v) = refused (base_of w)"
    using calls_writer_returns [OF assms] run by fastforce
  ultimately show "uses_writer U w (Instrument startedAt finishedAt nxt r w s)"
    using run by (simp add: Instrument_def measuring_of_def Let_def)
qed

text \<open>The recorder's writer stands directly on the logger's, so the two note the same status, whatever calls
  reach them and whether or not the server takes them.\<close>

definition in_step :: "writer \<Rightarrow> bool" where
  "in_step v =
    (case v of
       Measuring m (Logging l w) \<Rightarrow> met_wroteHeader m = log_wroteHeader l \<and> met_statusCode m = log_statusCode l
     | _ \<Rightarrow> False)"

lemma in_step_exec:
  assumes "in_step v"
  shows "in_step (writer_exec U v c)"
proof -
  obtain m l w where v: "v = Measuring m (Logging l w)" "met_wroteHeader m = log_wroteHeader l" "met_statusCode m = log_statusCode l"
    using assms by (auto simp: in_step_def split: writer.splits)
  show ?thesis
  proof (cases c)
    case (SendStatus status)
    then show ?thesis using v
      by (auto simp: in_step_def responseWriter_WriteHeader_def loggingResponseWriter_WriteHeader_def)
  next
    case (SendBody body)
    then show ?thesis using v
      by (cases "log_wroteHeader l")
        (auto simp: in_step_def opened_def responseWriter_WriteHeader_def loggingResponseWriter_WriteHeader_def
          loggingResponseWriter_Write_def is_informational_def split: prod.splits)
  qed (use v in \<open>simp_all add: in_step_def\<close>)
qed

lemma in_step_writes: "writes U v v' \<Longrightarrow> in_step v \<Longrightarrow> in_step v'"
proof -
  have "in_step v \<Longrightarrow> in_step (foldl (writer_exec U) v cs)" for cs
    by (induction cs arbitrary: v) (simp_all add: in_step_exec)
  then show "writes U v v' \<Longrightarrow> in_step v \<Longrightarrow> in_step v'" by (auto simp: writes_def)
qed

section \<open>Breaker states\<close>

text \<open>The breaker gauge is one-hot: for every pool a scrape reports exactly one sample per
  breaker state, 1 for the state the pool's breaker is in and 0 for the others.\<close>

theorem breaker_gauge_one_hot:
  assumes "gomap_wf states" "map_of states pool = Some st"
  shows "filter (\<lambda>(value, p, name). p = pool) (Collect_states states) =
    map (\<lambda>x. (if x = st then Fin 1 else Fin 0, pool, State_String x)) [StateClosed, StateOpen, StateHalfOpen]"
  using assms
proof (induction states)
  case (Cons x states)
  obtain p current where x: "x = (p, current)" by fastforce
  have rest: "filter (\<lambda>(value, q, name). q = pool) (Collect_states ss) = []" if "map_of ss pool = None" for ss
    using that by (induction ss) (auto simp: Collect_states_def circuitBreakerStates_def split: if_splits)
  show ?case
  proof (cases "p = pool")
    case True
    then have "map_of states pool = None" using Cons.prems(1) x by (simp add: gomap_wf_def map_of_eq_None_iff)
    with rest [OF this] True x Cons.prems(2) show ?thesis by (auto simp: Collect_states_def circuitBreakerStates_def)
  next
    case False
    with Cons x show ?thesis by (auto simp: Collect_states_def circuitBreakerStates_def gomap_wf_def)
  qed
qed simp

theorem breaker_gauge_one_hot_witness:
  "filter (\<lambda>(value, p, name). p = ''b'') (Collect_states [(''a'', StateClosed), (''b'', StateOpen)]) =
    [(Fin 0, ''b'', ''closed''), (Fin 1, ''b'', ''open''), (Fin 0, ''b'', ''half-open'')]"
  using breaker_gauge_one_hot [of "[(''a'', StateClosed), (''b'', StateOpen)]" "''b''" StateOpen]
  by (simp add: gomap_wf_def State_String_def StateClosed_def StateOpen_def StateHalfOpen_def)

end
