(* ===== verification/Reverse_Proxy.thy ===== *)
theory Reverse_Proxy
  imports Middleware Routing Upstream_Pool
begin

text \<open>
  The reverse proxy of an upstream: the three hooks that \<^verbatim>\<open>newReverseProxy\<close> in
  \<^verbatim>\<open>src/internal/proxy/gateway.go\<close> installs, and \<^verbatim>\<open>httputil.ReverseProxy\<close> around them.

  The exchange with the upstream is an argument: the informational responses that arrived first,
  whether the deadline of the request has passed when an error is handled, and a failure or a
  response, whose body comes in pieces and may break off. The timeout of the request is one of the ways in which
  an exchange fails. A body that cannot be copied to the end
  aborts the handler with a panic, as it does inside an HTTP server, and so does a status that the server's writer refuses. \<^verbatim>\<open>net.SplitHostPort\<close> and the
  cleaning of query strings are arguments too.
\<close>

section \<open>Hooks\<close>

text \<open>What becomes of a 101 response: it is refused before the client's connection is taken over, the
  protocol is switched, or the connection is taken over and the response cannot be sent on it.\<close>

datatype upgrade = UpgradeRefused | Upgraded | UpgradeBroken

record upstream_response =
  res_status :: int
  res_header :: Header
  res_trailer :: Header
  res_chunks :: "bytes list"
  res_broken :: bool
  res_upgrade :: upgrade

datatype round_trip = RoundTripFailed | RoundTripResponse upstream_response

record exchange =
  early :: "(int \<times> Header) list"
  deadline_exceeded :: bool
  result :: round_trip

record proxy_env =
  env_case :: unicode_case
  env_SplitHostPort :: "string \<Rightarrow> string option"
  env_cleanQueryParams :: "string \<Rightarrow> string"
  env_transport :: "Request \<Rightarrow> exchange"

definition SetXForwarded :: "proxy_env \<Rightarrow> Request \<Rightarrow> Header \<Rightarrow> Header" where
  "SetXForwarded E r h =
    (let prior = Header_Values h ''X-Forwarded-For'';
         h = (case env_SplitHostPort E (RemoteAddr r) of
                Some clientIP \<Rightarrow>
                  Header_Set ''X-Forwarded-For'' (if prior = [] then clientIP else Join prior '', '' @ '', '' @ clientIP) h
              | None \<Rightarrow> Header_Del ''X-Forwarded-For'' h);
         h = Header_Set ''X-Forwarded-Host'' (RequestHost r) h
     in Header_Set ''X-Forwarded-Proto'' (if overTLS r then ''https'' else ''http'') h)"

definition proxy_Rewrite :: "proxy_env \<Rightarrow> URL \<Rightarrow> string \<Rightarrow> Request \<Rightarrow> Request \<Rightarrow> Request" where
  "proxy_Rewrite E tgt requestID r out =
    (let out = out\<lparr>requestURL := rewriteRequestURL (requestURL out) tgt\<rparr>;
         out = out\<lparr>RequestHost := Host tgt\<rparr>;
         h = Header_Del APIKeyHeader (RequestHeader out);
         h = Header_Set IDHeader requestID h
     in out\<lparr>RequestHeader := SetXForwarded E r h\<rparr>)"

definition CacheStatusHeader :: string where
  "CacheStatusHeader = ''X-Cache''"

definition proxy_ModifyResponse :: "string \<Rightarrow> Header \<Rightarrow> Header" where
  "proxy_ModifyResponse requestID h =
    (let h = Header_Del CacheStatusHeader h;
         h = Header_Set IDHeader requestID h
     in Header_Set ''X-Gateway'' ''gatex'' h)"

definition proxy_ErrorHandler :: "proxy_env \<Rightarrow> string \<Rightarrow> bool \<Rightarrow> writer \<Rightarrow> writer" where
  "proxy_ErrorHandler E requestID deadline w =
    (let (status, message) =
       (if deadline then (504, ''upstream request timed out'') else (502, ''upstream request failed''))
     in http_Error (env_case E) message status (update_header (Header_Set IDHeader requestID) w))"

section \<open>httputil.ReverseProxy\<close>

definition is_ascii_space :: "char \<Rightarrow> bool" where
  "is_ascii_space c = (c = CHR '' '' \<or> c = CHR 0x09 \<or> c = CHR 0x0A \<or> c = CHR 0x0D)"

definition TrimString :: "string \<Rightarrow> string" where
  "TrimString s = rev (dropWhile is_ascii_space (rev (dropWhile is_ascii_space s)))"

definition header_tokens :: "string list \<Rightarrow> string list" where
  "header_tokens values = concat (map (\<lambda>v. map TrimString (Split v CHR '','')) values)"

definition hopHeaders :: "string list" where
  "hopHeaders = [''Connection'', ''Proxy-Connection'', ''Keep-Alive'', ''Proxy-Authenticate'', ''Proxy-Authorization'', ''Te'',
    ''Trailer'', ''Transfer-Encoding'', ''Upgrade'']"

definition removeHopByHopHeaders :: "Header \<Rightarrow> Header" where
  "removeHopByHopHeaders h =
    (let named = filter (\<lambda>t. t \<noteq> '''') (header_tokens (Header_Values h ''Connection''))
     in foldl (\<lambda>h name. Header_Del name h) h (named @ hopHeaders))"

definition has_token :: "string list \<Rightarrow> string \<Rightarrow> bool" where
  "has_token values token = list_ex (\<lambda>t. map ascii_lower t = map ascii_lower token) (header_tokens values)"

definition upgradeType :: "Header \<Rightarrow> string" where
  "upgradeType h = (if \<not> has_token (Header_Values h ''Connection'') ''Upgrade'' then '''' else Header_Get h ''Upgrade'')"

definition is_print :: "string \<Rightarrow> bool" where
  "is_print s = list_all (\<lambda>c. let n = of_char c :: nat in 32 \<le> n \<and> n \<le> 126) s"

definition outgoing_request :: "proxy_env \<Rightarrow> Request \<Rightarrow> Request" where
  "outgoing_request E r =
    (let up = upgradeType (RequestHeader r);
         h = removeHopByHopHeaders (RequestHeader r);
         h = (if has_token (Header_Values (RequestHeader r) ''Te'') ''trailers'' then Header_Set ''Te'' ''trailers'' h else h);
         h = (if up \<noteq> '''' then Header_Set ''Upgrade'' up (Header_Set ''Connection'' ''Upgrade'' h) else h);
         h = foldl (\<lambda>h name. Header_Del name h) h [''Forwarded'', ''X-Forwarded-For'', ''X-Forwarded-Host'', ''X-Forwarded-Proto'']
     in r\<lparr>RequestHeader := h,
          requestURL := (requestURL r)\<lparr>RawQuery := env_cleanQueryParams E (RawQuery (requestURL r))\<rparr>\<rparr>)"

definition default_user_agent :: "Header \<Rightarrow> Header" where
  "default_user_agent h = (if map_of h ''User-Agent'' = None then Header_Set ''User-Agent'' '''' h else h)"

definition upstream_request :: "proxy_env \<Rightarrow> URL \<Rightarrow> string \<Rightarrow> Request \<Rightarrow> Request" where
  "upstream_request E tgt requestID r =
    (let out = proxy_Rewrite E tgt requestID r (outgoing_request E r)
     in out\<lparr>RequestHeader := default_user_agent (RequestHeader out)\<rparr>)"

definition copyHeader :: "Header \<Rightarrow> Header \<Rightarrow> Header" where
  "copyHeader src dst = foldl (\<lambda>dst (k, vs). foldl (\<lambda>dst v. Header_Add k v dst) dst vs) dst src"

text \<open>An informational response, which the transport reports when it arrives, and it reports no others: its headers are
  sent with it, and the header map is emptied.\<close>

definition forward_early :: "unicode_case \<Rightarrow> writer \<Rightarrow> int \<times> Header \<Rightarrow> writer" where
  "forward_early U w e = update_header (\<lambda>_. []) (WriteHeader U (fst e) (update_header (copyHeader (snd e)) w))"

fun copy_body :: "unicode_case \<Rightarrow> bytes list \<Rightarrow> writer \<Rightarrow> bool \<times> writer" where
  "copy_body U [] w = (False, w)"
| "copy_body U (chunk # chunks) w =
    (if chunk = [] then copy_body U chunks w
     else
       (case Write U chunk w of
          (n, err, w) \<Rightarrow> if err \<or> n \<noteq> length chunk then (True, w) else copy_body U chunks w))"

definition announce_trailers :: "Header \<Rightarrow> Header \<Rightarrow> Header" where
  "announce_trailers trailer h = (if trailer = [] then h else Header_Add ''Trailer'' (Join (map fst trailer) '', '') h)"

text \<open>The hooks that were called, how the handler ended and the writer.\<close>

definition ReverseProxy_ServeHTTP ::
  "proxy_env \<Rightarrow> URL \<Rightarrow> string \<Rightarrow> Request \<Rightarrow> writer \<Rightarrow> ProxyOutcome \<times> flow \<times> writer" where
  "ReverseProxy_ServeHTTP E tgt requestID r w =
    (let U = env_case E in
     if \<not> is_print (upgradeType (RequestHeader r)) then
       (ProxyError, Returned, proxy_ErrorHandler E requestID False w)
     else
       let x = env_transport E (upstream_request E tgt requestID r);
           w = foldl (forward_early U) w (filter (\<lambda>e. is_informational (fst e)) (early x))
       in case result x of
            RoundTripFailed \<Rightarrow>
              (ProxyError, Returned, proxy_ErrorHandler E requestID (deadline_exceeded x) w)
          | RoundTripResponse res \<Rightarrow>
              if res_status res = 101 then
                (let switched = SwitchProtocols (update_header (copyHeader (proxy_ModifyResponse requestID (res_header res))) w)
                 in case res_upgrade res of
                      Upgraded \<Rightarrow> (ProxyResponse 101, Returned, switched)
                    | UpgradeBroken \<Rightarrow>
                        (ProxyUpgradeFailed 101, Returned, proxy_ErrorHandler E requestID (deadline_exceeded x) switched)
                    | UpgradeRefused \<Rightarrow>
                        (ProxyUpgradeFailed 101, Returned, proxy_ErrorHandler E requestID (deadline_exceeded x) w))
              else
                let h = proxy_ModifyResponse requestID (removeHopByHopHeaders (res_header res));
                    w = update_header (copyHeader h) w;
                    w = update_header (announce_trailers (res_trailer res)) w;
                    w' = WriteHeader U (res_status res) w
                in if header_refused w w'
                   then (ProxyResponse (res_status res), Panicked (invalid_code (res_status res)), w')
                   else
                     let (failed, w) = copy_body U (res_chunks res) w'
                     in if failed \<or> res_broken res then (ProxyResponse (res_status res), Panicked ErrAbortHandler, w)
                        else (ProxyResponse (res_status res), Returned, update_header (copyHeader (res_trailer res)) w))"

section \<open>The request that goes upstream\<close>

lemma Header_Values_default_user_agent:
  "CanonicalHeaderKey name \<noteq> ''User-Agent'' \<Longrightarrow> Header_Values (default_user_agent h) name = Header_Values h name"
  by (simp add: default_user_agent_def)

text \<open>C25 (safety). What an upstream receives does not depend on what a client may forge. The API key is gone,
  the request identifier is the gateway's, the host is the target's, and the forwarding headers name
  the client's address, host and protocol alone, whatever such headers the client sent.\<close>

theorem upstream_request_headers:
  "Header_Values (RequestHeader (upstream_request E tgt requestID r)) APIKeyHeader = []
    \<and> Header_Values (RequestHeader (upstream_request E tgt requestID r)) IDHeader = [requestID]
    \<and> RequestHost (upstream_request E tgt requestID r) = Host tgt
    \<and> Host (requestURL (upstream_request E tgt requestID r)) = Host tgt
    \<and> Scheme (requestURL (upstream_request E tgt requestID r)) = Scheme tgt
    \<and> Header_Values (RequestHeader (upstream_request E tgt requestID r)) ''X-Forwarded-For'' =
        (case env_SplitHostPort E (RemoteAddr r) of None \<Rightarrow> [] | Some ip \<Rightarrow> [ip])
    \<and> Header_Values (RequestHeader (upstream_request E tgt requestID r)) ''X-Forwarded-Host'' = [RequestHost r]
    \<and> Header_Values (RequestHeader (upstream_request E tgt requestID r)) ''X-Forwarded-Proto'' =
        [if overTLS r then ''https'' else ''http'']"
proof -
  have stripped: "Header_Values (RequestHeader (outgoing_request E r)) ''X-Forwarded-For'' = []"
    by (simp add: outgoing_request_def Let_def)
  have url: "Host (rewriteRequestURL u tgt) = Host tgt" "Scheme (rewriteRequestURL u tgt) = Scheme tgt" for u
    by (simp_all add: rewriteRequestURL_def Let_def)
  show ?thesis
    by (auto simp: upstream_request_def proxy_Rewrite_def SetXForwarded_def Let_def stripped url APIKeyHeader_def
      IDHeader_def Header_Values_default_user_agent split: option.splits)
qed

section \<open>The writer\<close>

lemma writes_update [intro]: "writes U w0 w \<Longrightarrow> writes U w0 (update_header f w)"
  and writes_status [intro]: "writes U w0 w \<Longrightarrow> writes U w0 (WriteHeader U c w)"
  and writes_error [intro]: "writes U w0 w \<Longrightarrow> writes U w0 (http_Error U m c w)"
  by (blast intro: writes_trans)+

lemma writes_switch [intro]: "writes U w0 w \<Longrightarrow> writes U w0 (SwitchProtocols w)"
  by (blast intro: writes_trans)

abbreviation reported :: "exchange \<Rightarrow> (int \<times> Header) list" where
  "reported x \<equiv> filter (\<lambda>e. is_informational (fst e)) (early x)"

lemma writes_early: "writes U w0 w \<Longrightarrow> writes U w0 (foldl (forward_early U) w es)"
  by (induction es arbitrary: w) (simp_all add: forward_early_def writes_update writes_status)

lemma refused_early:
  "\<forall>e \<in> set es. is_informational (fst e) \<Longrightarrow> refused (base_of (foldl (forward_early U) w es)) = refused (base_of w)"
  by (induction es arbitrary: w) (simp_all add: forward_early_def refused_WriteHeader is_informational_valid)

lemma writes_copy_body: "copy_body U chunks w = (failed, w') \<Longrightarrow> writes U w w' \<and> refused (base_of w') = refused (base_of w)"
proof (induction U chunks w rule: copy_body.induct)
  case (2 U chunk chunks w)
  then show ?case
    by (auto split: if_splits prod.splits dest: writes_Write refused_Write intro: writes_trans)
qed simp

lemma writes_ErrorHandler [intro]:
  "writes (env_case E) w0 w \<Longrightarrow> writes (env_case E) w0 (proxy_ErrorHandler E requestID deadline w)"
  by (auto simp: proxy_ErrorHandler_def Let_def)

lemma refused_ErrorHandler [simp]: "refused (base_of (proxy_ErrorHandler E requestID deadline w)) = refused (base_of w)"
  by (simp add: proxy_ErrorHandler_def refused_http_Error)

lemma refused_Switch [simp]: "refused (base_SwitchProtocols b) = refused b"
  by (simp add: base_SwitchProtocols_def)

lemma uses_ReverseProxy:
  assumes "ReverseProxy_ServeHTTP E tgt requestID r w = (outcome, ended, w')"
  shows "uses_writer (env_case E) w (ended, w', s)"
proof -
  let ?U = "env_case E"
  define x where "x = env_transport E (upstream_request E tgt requestID r)"
  define w1 where "w1 = foldl (forward_early ?U) w (reported x)"
  have w1: "writes ?U w w1" "refused (base_of w1) = refused (base_of w)"
    unfolding w1_def by (rule writes_early, simp) (rule refused_early, simp)
  show ?thesis
  proof (cases "is_print (upgradeType (RequestHeader r))")
    case False
    then show ?thesis using assms by (auto simp: ReverseProxy_ServeHTTP_def)
  next
    case True
    note unfold = ReverseProxy_ServeHTTP_def Let_def True x_def [symmetric] w1_def [symmetric]
    show ?thesis
    proof (cases "result x")
      case RoundTripFailed
      then show ?thesis using assms w1 by (auto simp: unfold)
    next
      case (RoundTripResponse res)
      define v where "v = update_header (announce_trailers (res_trailer res))
        (update_header (copyHeader (proxy_ModifyResponse requestID (removeHopByHopHeaders (res_header res)))) w1)"
      define w2 where "w2 = WriteHeader ?U (res_status res) v"
      obtain failed w3 where body: "copy_body ?U (res_chunks res) w2 = (failed, w3)" by fastforce
      have w2: "writes ?U w w2" using w1(1) by (auto simp: w2_def v_def)
      then have w3: "writes ?U w w3" "refused (base_of w3) = refused (base_of w2)"
        using writes_copy_body [OF body] by (auto intro: writes_trans)
      have "refused (base_of w2) = refused (base_of w)" if "\<not> header_refused v w2"
        using that w1(2) by (simp add: header_refused_def v_def)
      then show ?thesis using assms w1 w2 w3 RoundTripResponse body
        by (auto simp: unfold v_def [symmetric] w2_def [symmetric] split: if_splits upgrade.splits)
    qed
  qed
qed

section \<open>Copied headers\<close>

lemma Header_Values_cong: "CanonicalHeaderKey a = CanonicalHeaderKey b \<Longrightarrow> Header_Values h a = Header_Values h b"
  by (simp add: Header_Values_def)

lemma Header_Values_Adds:
  "Header_Values (foldl (\<lambda>dst v. Header_Add k v dst) dst vs) name =
    (if CanonicalHeaderKey name = CanonicalHeaderKey k then Header_Values dst name @ vs else Header_Values dst name)"
  by (induction vs arbitrary: dst) (auto intro: Header_Values_cong)

lemma Header_Values_copyHeader_general:
  "Header_Values (copyHeader src dst) name =
    Header_Values dst name @ concat (map snd (filter (\<lambda>(k, vs). CanonicalHeaderKey k = CanonicalHeaderKey name) src))"
  by (induction src arbitrary: dst) (auto simp: copyHeader_def Header_Values_Adds)

definition header_canonical :: "Header \<Rightarrow> bool" where
  "header_canonical h = (gomap_wf h \<and> (\<forall>(k, vs) \<in> set h. CanonicalHeaderKey k = k))"

lemma Header_Values_copyHeader:
  assumes "header_canonical src"
  shows "Header_Values (copyHeader src dst) name = Header_Values dst name @ Header_Values src name"
proof -
  have "concat (map snd (filter (\<lambda>(k, vs). CanonicalHeaderKey k = CanonicalHeaderKey name) src)) = Header_Values src name"
    using assms
  proof (induction src)
    case (Cons x src)
    obtain k vs where x: "x = (k, vs)" by fastforce
    with Cons.prems have k: "CanonicalHeaderKey k = k" "header_canonical src" "map_of src k = None"
      by (auto simp: header_canonical_def gomap_wf_def map_of_eq_None_iff)
    with Cons.IH x show ?case by (auto simp: Header_Values_def split: option.splits)
  qed (simp add: Header_Values_def)
  then show ?thesis by (simp add: Header_Values_copyHeader_general)
qed

section \<open>The response of the upstream\<close>

lemma copy_body_all:
  "writer_ok U w \<Longrightarrow> unfailed w \<Longrightarrow> base_status (base_of w) \<noteq> None \<Longrightarrow> copy_body U chunks w = (failed, w') \<Longrightarrow>
    \<not> failed \<and> base_body (base_of w') = base_body (base_of w) @ concat chunks \<and>
    base_status (base_of w') = base_status (base_of w) \<and> sent_header (base_of w') = sent_header (base_of w) \<and>
    informational (base_of w') = informational (base_of w)"
proof (induction U chunks w arbitrary: failed w' rule: copy_body.induct)
  case (2 U chunk chunks w)
  show ?case
  proof (cases "chunk = []")
    case True
    then show ?thesis using 2 by simp
  next
    case False
    obtain n err w1 where wr: "Write U chunk w = (n, err, w1)" using prod_cases3 by blast
    note f = unfailed_Write [OF 2(4) wr] and b = writer_Write [OF 2(3) wr]
    have eff: "base_body (base_of w1) = base_body (base_of w) @ chunk" "base_status (base_of w1) = base_status (base_of w)"
      "sent_header (base_of w1) = sent_header (base_of w)" "informational (base_of w1) = informational (base_of w)"
      using base_Write_effect [OF conjunct1 [OF b]] f 2(5) by auto
    have rest: "copy_body U chunks w1 = (failed, w')" using 2(6) False wr f by simp
    show ?thesis using 2(2) [OF False wr [symmetric] refl, of failed w'] f b eff rest 2(5) by simp
  qed
qed simp

lemma early_forwarded:
  assumes "\<forall>e \<in> set es. is_informational (fst e)" "writer_ok U w" "unwritten w" "unfailed w"
  shows "writer_ok U (foldl (forward_early U) w es) \<and> unwritten (foldl (forward_early U) w es)
    \<and> unfailed (foldl (forward_early U) w es)
    \<and> informational (base_of (foldl (forward_early U) w es)) = informational (base_of w) @ map fst es
    \<and> writer_Header (foldl (forward_early U) w es) = (if es = [] then writer_Header w else [])"
  using assms
proof (induction es arbitrary: w)
  case (Cons e es)
  let ?v = "update_header (copyHeader (snd e)) w"
  let ?w = "forward_early U w e"
  have info: "is_informational (fst e)" using Cons.prems(1) by simp
  have v: "base_of (WriteHeader U (fst e) ?v) = base_WriteHeader (fst e) (base_of ?v)" "writer_ok U (WriteHeader U (fst e) ?v)"
    using writer_WriteHeader [of U ?v "fst e"] Cons.prems(2) is_informational_valid [OF info] by simp_all
  have "writer_ok U ?w" "unwritten ?w" "unfailed ?w" "informational (base_of ?w) = informational (base_of w) @ [fst e]" "writer_Header ?w = []"
    using v info Cons.prems is_informational_valid [OF info]
    by (simp_all add: forward_early_def unwritten_def unfailed_WriteHeader base_WriteHeader_def writer_Header_def)
  with Cons.IH [of ?w] Cons.prems(1) show ?case by simp
qed simp

lemma proxy_delivers:
  assumes "is_print (upgradeType (RequestHeader r))"
    and "env_transport E (upstream_request E tgt requestID r) = x" "result x = RoundTripResponse res"
    and "200 \<le> res_status res" "res_status res \<le> 999"
    and "writer_ok (env_case E) w" "unwritten w" "unfailed w"
  shows "\<exists>w'. ReverseProxy_ServeHTTP E tgt requestID r w =
      (ProxyResponse (res_status res), if res_broken res then Panicked ErrAbortHandler else Returned, w')
    \<and> base_status (base_of w') = Some (res_status res) \<and> base_body (base_of w') = concat (res_chunks res)
    \<and> informational (base_of w') = informational (base_of w) @ map fst (reported x)
    \<and> sent_header (base_of w') = announce_trailers (res_trailer res)
        (copyHeader (proxy_ModifyResponse requestID (removeHopByHopHeaders (res_header res)))
          (if reported x = [] then writer_Header w else []))"
proof -
  let ?U = "env_case E"
  define w1 where "w1 = foldl (forward_early ?U) w (reported x)"
  have w1: "writer_ok ?U w1" "unwritten w1" "unfailed w1" "informational (base_of w1) = informational (base_of w) @ map fst (reported x)"
    "writer_Header w1 = (if reported x = [] then writer_Header w else [])"
    using early_forwarded [of "reported x" ?U w] assms(6-8) by (simp_all add: w1_def)
  let ?w = "update_header (announce_trailers (res_trailer res))
    (update_header (copyHeader (proxy_ModifyResponse requestID (removeHopByHopHeaders (res_header res)))) w1)"
  have valid: "valid_status (res_status res)" "\<not> is_informational (res_status res)" "res_status res \<noteq> 101"
    using assms(4,5) by (simp_all add: valid_status_def is_informational_def)
  obtain failed w3 where body: "copy_body ?U (res_chunks res) (WriteHeader ?U (res_status res) ?w) = (failed, w3)" by fastforce
  have base: "base_of (WriteHeader ?U (res_status res) ?w) = base_WriteHeader (res_status res) (base_of ?w)"
    "writer_ok ?U (WriteHeader ?U (res_status res) ?w)"
    using writer_WriteHeader [of ?U ?w "res_status res"] w1(1) valid(1) by simp_all
  have sent: "base_status (base_of (WriteHeader ?U (res_status res) ?w)) = Some (res_status res)"
    "sent_header (base_of (WriteHeader ?U (res_status res) ?w)) = writer_Header ?w"
    "base_body (base_of (WriteHeader ?U (res_status res) ?w)) = []"
    "informational (base_of (WriteHeader ?U (res_status res) ?w)) = informational (base_of w1)"
    "\<not> header_refused ?w (WriteHeader ?U (res_status res) ?w)"
    using valid w1(2) writer_ok_base [OF w1(1)]
    by (simp_all add: base unwritten_def base_ok_def base_WriteHeader_def writer_Header_def header_refused_def)
  have "unfailed (WriteHeader ?U (res_status res) ?w)" using w1(3) by (simp add: unfailed_WriteHeader)
  from copy_body_all [OF base(2) this _ body] have w3: "\<not> failed" "base_body (base_of w3) = concat (res_chunks res)"
    "base_status (base_of w3) = Some (res_status res)" "sent_header (base_of w3) = writer_Header ?w"
    "informational (base_of w3) = informational (base_of w1)"
    using sent by simp_all
  then show ?thesis
    using assms(1-3) valid(3) body sent(5) w1(4,5) by (simp add: ReverseProxy_ServeHTTP_def Let_def w1_def [symmetric])
qed

lemma header_canonical_Set:
  "header_canonical h \<Longrightarrow> CanonicalHeaderKey (CanonicalHeaderKey k) = CanonicalHeaderKey k \<Longrightarrow> header_canonical (Header_Set k v h)"
  by (auto simp: header_canonical_def Header_Set_def dest: set_alist_update)

lemma header_canonical_Del: "header_canonical h \<Longrightarrow> header_canonical (Header_Del k h)"
  by (auto simp: header_canonical_def Header_Del_def dest: subsetD [OF set_alist_delete])

lemma header_canonical_Dels: "header_canonical h \<Longrightarrow> header_canonical (foldl (\<lambda>h name. Header_Del name h) h names)"
  by (induction names arbitrary: h) (simp_all add: header_canonical_Del)

lemma header_canonical_ModifyResponse: "header_canonical h \<Longrightarrow> header_canonical (proxy_ModifyResponse requestID (removeHopByHopHeaders h))"
proof -
  have "CanonicalHeaderKey ''X-Request-Id'' = ''X-Request-Id''" by code_simp
  then show "header_canonical h \<Longrightarrow> ?thesis"
    by (simp add: proxy_ModifyResponse_def removeHopByHopHeaders_def Let_def IDHeader_def header_canonical_Set
      header_canonical_Del header_canonical_Dels)
qed

lemma proxy_ModifyResponse_values:
  "Header_Values (proxy_ModifyResponse requestID h) name =
    (if CanonicalHeaderKey name = CanonicalHeaderKey IDHeader then [requestID]
     else if CanonicalHeaderKey name = ''X-Gateway'' then [''gatex'']
     else if CanonicalHeaderKey name = ''X-Cache'' then [] else Header_Values h name)"
  by (auto simp: proxy_ModifyResponse_def Let_def CacheStatusHeader_def IDHeader_def)

lemma announce_trailers_values:
  "Header_Values (announce_trailers trailer h) name =
    Header_Values h name @ (if CanonicalHeaderKey name = ''Trailer'' \<and> trailer \<noteq> [] then [Join (map fst trailer) '', ''] else [])"
proof (cases "CanonicalHeaderKey name = ''Trailer''")
  case True
  then have "Header_Values h name = Header_Values h ''Trailer''" by (intro Header_Values_cong) simp
  then show ?thesis using True by (simp add: announce_trailers_def)
qed (simp add: announce_trailers_def)


definition sample_upstream_url :: URL where
  "sample_upstream_url =
    \<lparr>Scheme = ''http'', Opaque = '''', hasUser = False, Host = ''h'', Path = '''', RawPath = '''', ForceQuery = False,
     RawQuery = '''', Fragment = ''''\<rparr>"

definition sample_response :: upstream_response where
  "sample_response = \<lparr>res_status = 200, res_header = [(''Content-Type'', [''text/plain''])], res_trailer = [],
    res_chunks = [''he'', ''llo''], res_broken = False, res_upgrade = UpgradeRefused\<rparr>"

definition sample_exchange :: exchange where
  "sample_exchange = \<lparr>early = [], deadline_exceeded = False, result = RoundTripResponse sample_response\<rparr>"

definition sample_proxy_env :: proxy_env where
  "sample_proxy_env = \<lparr>env_case = sample_unicode, env_SplitHostPort = (\<lambda>_. Some ''192.0.2.1''), env_cleanQueryParams = id,
    env_transport = (\<lambda>_. sample_exchange)\<rparr>"

definition sample_client :: writer where
  "sample_client = Base (sample_server\<lparr>write_faults := []\<rparr>)"

lemma sample_client_facts [simp]: "writer_ok U sample_client" "unwritten sample_client" "unfailed sample_client"
  "Header_Values (writer_Header sample_client) name = []"
  by (simp_all add: sample_client_def sample_server_def base_ok_def unwritten_def writer_Header_def Header_Values_def)

lemma sample_proxy_facts:
  "is_print (upgradeType (RequestHeader (sample_get [])))" "env_transport sample_proxy_env q = sample_exchange"
  "result sample_exchange = RoundTripResponse sample_response" "200 \<le> res_status sample_response" "res_status sample_response \<le> 999"
  "header_canonical (res_header sample_response)" "reported sample_exchange = []" "\<not> res_broken sample_response"
  by (simp_all add: upgradeType_def has_token_def header_tokens_def Header_Values_def is_print_def sample_get_def sample_proxy_env_def
    sample_exchange_def sample_response_def header_canonical_def gomap_wf_def)

text \<open>A response with an early hint before it, a trailer, and a body that breaks off.\<close>

definition sample_hint :: exchange where
  "sample_hint = \<lparr>early = [(103, [(''Link'', [''</a.css>''])])], deadline_exceeded = False,
    result = RoundTripResponse (sample_response\<lparr>res_trailer := [(''Digest'', [])], res_broken := True\<rparr>)\<rparr>"


text \<open>The gateway has set the request identifier on the writer before the proxy runs, and copying the
  upstream's headers adds to the map: the client of a proxied response receives the identifier
  twice.\<close>

lemma request_id_sent_twice:
  assumes "is_print (upgradeType (RequestHeader r))"
    and "env_transport E (upstream_request E tgt requestID r) = x" "result x = RoundTripResponse res" "reported x = []"
    and "200 \<le> res_status res" "res_status res \<le> 999"
    and "writer_ok (env_case E) w" "unwritten w" "unfailed w" "header_canonical (res_header res)"
    and "Header_Values (writer_Header w) IDHeader = [requestID]"
    and "ReverseProxy_ServeHTTP E tgt requestID r w = (outcome, ended, w')"
  shows "Header_Values (sent_header (base_of w')) IDHeader = [requestID, requestID]"
proof -
  note copied = Header_Values_copyHeader [OF header_canonical_ModifyResponse [OF assms(10)]]
  show ?thesis
    using proxy_delivers [OF assms(1-3,5-9)] assms(4,11,12)
    by (auto simp: announce_trailers_def copied proxy_ModifyResponse_values IDHeader_def)
qed

text \<open>An informational response of the upstream empties the header map, so what the gateway's
  middleware had set before, the CORS headers and the cache marker included, is missing from the final
  response.\<close>

lemma early_response_clears_headers: "writer_Header (forward_early U w e) = []"
  by (simp add: forward_early_def writer_Header_def)

end
