(* ===== verification/Gateway.thy ===== *)
theory Gateway
  imports Reverse_Proxy Metrics Config
begin

text \<open>
  The gateway of \<^verbatim>\<open>src/internal/proxy/gateway.go\<close>: its construction from a configuration and the reports
  on its pools. \<^verbatim>\<open>url.Parse\<close> is the argument \<open>parse\<close>. The transport that is given to the constructor is nil, the
  standard one, or another implementation.
\<close>

section \<open>Construction\<close>

record http_transport =
  dialTimeout :: duration
  keepAlive :: duration
  ForceAttemptHTTP2 :: bool
  MaxIdleConns :: int
  MaxIdleConnsPerHost :: int
  IdleConnTimeout :: duration
  TLSHandshakeTimeout :: duration
  ResponseHeaderTimeout :: duration
  ExpectContinueTimeout :: duration

datatype RoundTripper = NilTransport | HTTPTransport http_transport | OtherTransport

definition NewTransport :: "Timeouts \<Rightarrow> http_transport" where
  "NewTransport timeouts =
    \<lparr>dialTimeout = withDefault (timeoutDial timeouts) (2 * Second),
     keepAlive = 30 * Second,
     ForceAttemptHTTP2 = True,
     MaxIdleConns = 1000,
     MaxIdleConnsPerHost = 500,
     IdleConnTimeout = withDefault (timeoutIdleConnection timeouts) (90 * Second),
     TLSHandshakeTimeout = withDefault (timeoutTLSHandshake timeouts) (3 * Second),
     ResponseHeaderTimeout = withDefault (timeoutResponseHeader timeouts) (5 * Second),
     ExpectContinueTimeout = Second\<rparr>"

text \<open>\<open>gw_apiKeys\<close> are the keys the authentication middleware of the routes was made with.\<close>

record Gateway =
  gw_routes :: "route list"
  gw_pools :: "(string, pool) gomap"
  requestTimeout :: duration
  gw_transport :: "http_transport option"
  gw_apiKeys :: "string list"

datatype GatewayError =
    ErrConfiguration ConfigError
  | ErrNilTransport
  | ErrBalancerPool string PoolError
  | ErrHealthChecker string HealthCheckError
  | ErrCircuitBreaker string BreakerError
  | ErrParseBackend string string
  | ErrRateLimiter string LimiterError
  | ErrResponseCache string CacheError

text \<open>A loop that builds a list and returns at the first error.\<close>

fun build_all :: "('a \<Rightarrow> 'e + 'b) \<Rightarrow> 'a list \<Rightarrow> 'e + 'b list" where
  "build_all f [] = Inr []"
| "build_all f (x # xs) =
    (case f x of
       Inl e \<Rightarrow> Inl e
     | Inr y \<Rightarrow> (case build_all f xs of Inl e \<Rightarrow> Inl e | Inr ys \<Rightarrow> Inr (y # ys)))"

definition gateway_pool :: "(string \<Rightarrow> URL option) \<Rightarrow> string \<Rightarrow> PoolConfig \<Rightarrow> GatewayError + pool" where
  "gateway_pool parse name configuredPool =
    (case NewPoolWithStrategy (poolBackends configuredPool) (poolStrategy configuredPool) of
       Inl e \<Rightarrow> Inl (ErrBalancerPool name e)
     | Inr balancingPool \<Rightarrow>
         (case NewHealthChecker (checkInterval (poolHealthCheck configuredPool))
             (checkTimeout (poolHealthCheck configuredPool)) (checkPath (poolHealthCheck configuredPool)) of
            Inl e \<Rightarrow> Inl (ErrHealthChecker name e)
          | Inr hc \<Rightarrow>
              (case NewWithConfig
                  \<lparr>FailureThreshold = cbFailureThreshold (poolCircuitBreaker configuredPool),
                   OpenTimeout = cbOpenTimeout (poolCircuitBreaker configuredPool),
                   HalfOpenMaxRequests = cbHalfOpenMaxRequests (poolCircuitBreaker configuredPool)\<rparr> of
                 Inl e \<Rightarrow> Inl (ErrCircuitBreaker name e)
               | Inr b \<Rightarrow>
                   (case build_all (\<lambda>u. case parse u of
                        None \<Rightarrow> Inl (ErrParseBackend u name) | Some t \<Rightarrow> Inr t) (poolBackends configuredPool) of
                      Inl e \<Rightarrow> Inl e
                    | Inr targets \<Rightarrow> Inr (build_pool balancingPool b hc targets)))))"

definition gateway_route :: "time \<Rightarrow> Config \<Rightarrow> RouteConfig \<Rightarrow> GatewayError + route" where
  "gateway_route now cfg configuredRoute =
    (let gatewayRoute = \<lparr>pathPrefix = PathPrefix configuredRoute, route_pool = BackendPool configuredRoute,
           limiter = None, responseCache = None, retryAfterHeader = '''', protected = Protected configuredRoute\<rparr>;
         limit = (case routeRateLimit configuredRoute of None \<Rightarrow> cfgRateLimit cfg | Some l \<Rightarrow> l)
     in case (if Fin 0 < RequestsPerSecond limit then
                (case NewClientLimiter (RequestsPerSecond limit) (Burst limit) now of
                   Inl e \<Rightarrow> Inl (ErrRateLimiter (PathPrefix configuredRoute) e)
                 | Inr l \<Rightarrow> Inr (gatewayRoute\<lparr>limiter := Some l,
                     retryAfterHeader := retryAfterValue (RequestsPerSecond limit)\<rparr>))
              else Inr gatewayRoute) of
          Inl e \<Rightarrow> Inl e
        | Inr gatewayRoute \<Rightarrow>
            (case routeCache configuredRoute of
               None \<Rightarrow> Inr gatewayRoute
             | Some c \<Rightarrow>
                 (case New (cacheTTL c) (cacheMaxEntries c) of
                    Inl e \<Rightarrow> Inl (ErrResponseCache (PathPrefix configuredRoute) e)
                  | Inr cache \<Rightarrow> Inr (gatewayRoute\<lparr>responseCache := Some cache\<rparr>))))"

definition NewGatewayWithTransport ::
  "(string \<Rightarrow> URL option) \<Rightarrow> unicode_case \<Rightarrow> time \<Rightarrow> Config \<Rightarrow> RoundTripper \<Rightarrow> GatewayError + Gateway" where
  "NewGatewayWithTransport parse U now cfg transport =
    (case Validate parse U cfg of
       Some e \<Rightarrow> Inl (ErrConfiguration e)
     | None \<Rightarrow>
         if transport = NilTransport then Inl ErrNilTransport
         else
           (case build_all (\<lambda>(name, pc). case gateway_pool parse name pc of Inl e \<Rightarrow> Inl e | Inr p \<Rightarrow> Inr (name, p))
               (BackendPools cfg) of
              Inl e \<Rightarrow> Inl e
            | Inr pools \<Rightarrow>
                (case build_all (gateway_route now cfg) (Routes cfg) of
                   Inl e \<Rightarrow> Inl e
                 | Inr routes \<Rightarrow>
                     Inr \<lparr>gw_routes = routes, gw_pools = pools,
                          requestTimeout = withDefault (timeoutRequest (cfgTimeouts cfg)) (15 * Second),
                          gw_transport = (case transport of HTTPTransport t \<Rightarrow> Some t | _ \<Rightarrow> None),
                          gw_apiKeys = APIKeys cfg\<rparr>)))"

definition NewGateway :: "(string \<Rightarrow> URL option) \<Rightarrow> unicode_case \<Rightarrow> time \<Rightarrow> Config \<Rightarrow> GatewayError + Gateway" where
  "NewGateway parse U now cfg = NewGatewayWithTransport parse U now cfg (HTTPTransport (NewTransport (cfgTimeouts cfg)))"

section \<open>Reports\<close>

definition CircuitBreakerStates :: "Gateway \<Rightarrow> (string, State) gomap" where
  "CircuitBreakerStates g = map (\<lambda>(name, p). (name, Breaker_State (circuitBreaker p))) (gw_pools g)"

definition UnavailablePools :: "Gateway \<Rightarrow> string list" where
  "UnavailablePools g = sort (map fst (filter (\<lambda>(name, p). pool_unavailable p) (gw_pools g)))"

section \<open>A validated configuration builds\<close>

lemma build_all_Inr: "build_all f xs = Inr ys \<longleftrightarrow> list_all2 (\<lambda>x y. f x = Inr y) xs ys"
  by (induction xs arbitrary: ys) (auto simp: list_all2_Cons1 split: sum.splits, metis sum.inject(2))

lemma build_all_total:
  assumes "\<And>x. x \<in> set xs \<Longrightarrow> \<exists>y. f x = Inr y"
  shows "\<exists>ys. build_all f xs = Inr ys"
  using assms by (induction xs) (force split: sum.splits)+

text \<open>A URL with a scheme is not blank.\<close>

definition parse_ok :: "(string \<Rightarrow> URL option) \<Rightarrow> bool" where
  "parse_ok parse = (\<forall>u p. parse u = Some p \<longrightarrow> Scheme p \<noteq> '''' \<longrightarrow> TrimSpace u \<noteq> '''')"

lemma gateway_pool_builds:
  assumes "validatePool parse name pc = None" "parse_ok parse"
  shows "\<exists>p. gateway_pool parse name pc = Inr p"
proof -
  note valid = assms(1) [unfolded validatePool_None]
  have urls: "\<exists>t. parse u = Some t \<and> TrimSpace u \<noteq> ''''" if "u \<in> set (poolBackends pc)" for u
    using valid that assms(2) unfolding parse_ok_def by blast
  then obtain bal where bal: "NewPoolWithStrategy (poolBackends pc) (poolStrategy pc) = Inr bal"
    using valid by (auto simp: NewPoolWithStrategy_def newBackends_eq RoundRobin_def LeastConnections_def)
  obtain hc where hc: "NewHealthChecker (checkInterval (poolHealthCheck pc)) (checkTimeout (poolHealthCheck pc))
      (checkPath (poolHealthCheck pc)) = Inr hc"
    using valid by (auto simp: NewHealthChecker_def validateHealthCheck_def)
  obtain b where b: "NewWithConfig \<lparr>FailureThreshold = cbFailureThreshold (poolCircuitBreaker pc),
      OpenTimeout = cbOpenTimeout (poolCircuitBreaker pc),
      HalfOpenMaxRequests = cbHalfOpenMaxRequests (poolCircuitBreaker pc)\<rparr> = Inr b"
    using valid by (auto simp: NewWithConfig_def newWithConfig_def Let_def)
  let ?f = "\<lambda>u. case parse u of None \<Rightarrow> Inl (ErrParseBackend u name) | Some t \<Rightarrow> Inr t"
  have "\<exists>y. ?f u = Inr y" if "u \<in> set (poolBackends pc)" for u using urls [OF that] by auto
  then obtain ts where "build_all ?f (poolBackends pc) = Inr ts" using build_all_total [of "poolBackends pc" ?f] by blast
  with bal hc b show ?thesis by (simp add: gateway_pool_def)
qed

lemma gateway_route_builds:
  assumes "validateRoute c rc = None" "validateRateLimit ''rate_limit'' (cfgRateLimit c) = None"
  shows "\<exists>r. gateway_route now c rc = Inr r"
proof -
  have limit: "\<exists>l. NewClientLimiter (RequestsPerSecond lim) (Burst lim) now = Inr l"
    if "validateRateLimit n lim = None" "Fin 0 < RequestsPerSecond lim" for n lim
  proof -
    have "validateBucketConfig (RequestsPerSecond lim) (Burst lim) = None"
      using that by (auto simp: validateRateLimit_def validateBucketConfig_def IsNaN_def IsInf_def float64_op_defs)
    then show ?thesis by (simp add: NewClientLimiter_def newClientLimiter_def defaultShardCount_def
      defaultClientIdleTTL_def defaultCleanupInterval_def Minute_def Second_def)
  qed
  have cache: "\<exists>ca. (New (cacheTTL cc) (cacheMaxEntries cc) :: CacheError + Header response_value Cache) = Inr ca"
    if "validateCache p cc = None" for p cc
    using that by (auto simp: validateCache_def New_def newWithClock_def)
  define lim where "lim = (case routeRateLimit rc of None \<Rightarrow> cfgRateLimit c | Some l \<Rightarrow> l)"
  have "\<exists>n. validateRateLimit n lim = None"
    using assms by (cases "routeRateLimit rc") (auto simp: lim_def validateRoute_def)
  then have lim: "Fin 0 < RequestsPerSecond lim \<Longrightarrow> \<exists>l. NewClientLimiter (RequestsPerSecond lim) (Burst lim) now = Inr l"
    using limit by blast
  have "\<exists>ca. (New (cacheTTL cc) (cacheMaxEntries cc) :: CacheError + Header response_value Cache) = Inr ca"
    if "routeCache rc = Some cc" for cc
    using assms(1) that cache [of "PathPrefix rc" cc] by (simp add: validateRoute_def)
  then show ?thesis
    using lim unfolding gateway_route_def lim_def [symmetric] Let_def
    by (cases "routeCache rc"; cases "Fin 0 < RequestsPerSecond lim") fastforce+
qed

text \<open>The pools and routes of a gateway, as the theorems on pools and routes need them.\<close>

definition breaker_config :: "PoolConfig \<Rightarrow> BreakerConfig" where
  "breaker_config pc =
    \<lparr>FailureThreshold = cbFailureThreshold (poolCircuitBreaker pc), OpenTimeout = cbOpenTimeout (poolCircuitBreaker pc),
     HalfOpenMaxRequests = cbHalfOpenMaxRequests (poolCircuitBreaker pc)\<rparr>"

definition pool_built :: "(string \<Rightarrow> URL option) \<Rightarrow> string \<times> PoolConfig \<Rightarrow> string \<times> pool \<Rightarrow> bool" where
  "pool_built parse x y =
    (fst y = fst x \<and> (\<exists>ts. map Some ts = map parse (poolBackends (snd x)) \<and>
       new_pool (breaker_config (snd x)) (poolBackends (snd x)) (poolStrategy (snd x)) ts (snd y)))"

definition route_built :: "(string, pool) gomap \<Rightarrow> RouteConfig \<Rightarrow> route \<Rightarrow> bool" where
  "route_built pools rc r =
    (pathPrefix r = PathPrefix rc \<and> route_pool r = BackendPool rc \<and> protected r = Protected rc \<and>
     (responseCache r \<noteq> None \<longleftrightarrow> routeCache rc \<noteq> None) \<and> map_of pools (route_pool r) \<noteq> None)"

definition gateway_wf :: "(string \<Rightarrow> URL option) \<Rightarrow> Config \<Rightarrow> Gateway \<Rightarrow> bool" where
  "gateway_wf parse cfg g =
    (list_all2 (pool_built parse)
      (BackendPools cfg) (gw_pools g) \<and>
     list_all2 (route_built (gw_pools g))
      (Routes cfg) (gw_routes g))"

lemma gateway_pool_wf:
  assumes "gateway_pool parse name pc = Inr p" "length (poolBackends pc) < 2 ^ 63"
  shows "pool_built parse (name, pc) (name, p)"
proof -
  obtain bal hc b ts where parts: "NewPoolWithStrategy (poolBackends pc) (poolStrategy pc) = Inr bal"
    "NewWithConfig \<lparr>FailureThreshold = cbFailureThreshold (poolCircuitBreaker pc),
      OpenTimeout = cbOpenTimeout (poolCircuitBreaker pc),
      HalfOpenMaxRequests = cbHalfOpenMaxRequests (poolCircuitBreaker pc)\<rparr> = Inr b"
    "build_all (\<lambda>u. case parse u of None \<Rightarrow> Inl (ErrParseBackend u name) | Some t \<Rightarrow> Inr t) (poolBackends pc) = Inr ts"
    "p = build_pool bal b hc ts"
    using assms(1) by (auto simp: gateway_pool_def split: sum.splits)
  have l2: "list_all2 (\<lambda>u t. parse u = Some t) (poolBackends pc) ts"
    using parts(3) unfolding build_all_Inr by (rule list_all2_mono) (auto split: option.splits)
  then have "map Some ts = map parse (poolBackends pc)"
    by (auto simp: list_all2_conv_all_nth intro!: nth_equalityI)
  moreover have "length ts = length (poolBackends pc)" using l2 by (simp add: list_all2_lengthD)
  ultimately show ?thesis using parts assms(2) unfolding pool_built_def new_pool_def breaker_config_def by auto
qed

lemma new_pool_limits:
  assumes "new_pool config urls strat targets p"
  shows "breaker_limits (circuitBreaker p) =
      (if FailureThreshold config = 0 then DefaultFailureThreshold else FailureThreshold config,
       if OpenTimeout config = 0 then DefaultOpenTimeout else OpenTimeout config,
       if HalfOpenMaxRequests config = 0 then DefaultHalfOpenMaxRequests else HalfOpenMaxRequests config)"
    and "target ` set (upstreams p) \<subseteq> set targets"
proof -
  obtain bal b hc where p: "NewWithConfig config = Inr b" "p = build_pool bal b hc targets" using assms by (auto simp: new_pool_def)
  then show "breaker_limits (circuitBreaker p) =
      (if FailureThreshold config = 0 then DefaultFailureThreshold else FailureThreshold config,
       if OpenTimeout config = 0 then DefaultOpenTimeout else OpenTimeout config,
       if HalfOpenMaxRequests config = 0 then DefaultHalfOpenMaxRequests else HalfOpenMaxRequests config)"
    by (auto simp: build_pool_def NewWithConfig_def newWithConfig_def breaker_of_config_def breaker_limits_def Let_def split: if_splits)
  show "target ` set (upstreams p) \<subseteq> set targets" using p(2) by (auto simp: build_pool_def dest: set_zip_rightD)
qed

lemma gateway_route_wf:
  assumes "gateway_route now c rc = Inr r" "map_of pools (BackendPool rc) \<noteq> None"
  shows "route_built pools rc r"
  unfolding route_built_def
  using assms by (auto simp: gateway_route_def Let_def split: if_splits option.splits sum.splits)

lemma map_of_pools:
  assumes "list_all2 (pool_built parse) xs ys"
  shows "map_of ys name = None \<longleftrightarrow> map_of xs name = None"
  using assms by (induction rule: list_all2_induct) (auto simp: pool_built_def)

lemma gateway_builds:
  assumes "parse_ok parse" "\<forall>(name, pc) \<in> set (BackendPools cfg). length (poolBackends pc) < 2 ^ 63"
    and "Validate parse U cfg = None" "transport \<noteq> NilTransport"
  shows "\<exists>g. NewGatewayWithTransport parse U now cfg transport = Inr g \<and> gateway_wf parse cfg g"
proof -
  note valid = assms(3) [unfolded Validate_None]
  let ?f = "\<lambda>(name, pc). case gateway_pool parse name pc of Inl e \<Rightarrow> Inl e | Inr p \<Rightarrow> Inr (name, p)"
  have "\<exists>y. ?f x = Inr y" if "x \<in> set (BackendPools cfg)" for x
  proof -
    obtain name pc where x: "x = (name, pc)" by fastforce
    then have "validatePool parse name pc = None" using valid that by blast
    from gateway_pool_builds [OF this assms(1)] show ?thesis using x by auto
  qed
  then obtain pools where pools: "build_all ?f (BackendPools cfg) = Inr pools"
    using build_all_total [of "BackendPools cfg" ?f] by blast
  have "\<exists>r. gateway_route now cfg rc = Inr r" if "rc \<in> set (Routes cfg)" for rc
    using that valid gateway_route_builds by blast
  then obtain routes where routes: "build_all (gateway_route now cfg) (Routes cfg) = Inr routes"
    using build_all_total [of "Routes cfg" "gateway_route now cfg"] by blast
  have pl: "list_all2 (pool_built parse)
      (BackendPools cfg) pools"
    using pools unfolding build_all_Inr
  proof (rule list.rel_mono_strong)
    fix x y
    assume x: "x \<in> set (BackendPools cfg)" and y: "?f x = Inr y"
    obtain name pc where n: "x = (name, pc)" by fastforce
    then obtain p where p: "gateway_pool parse name pc = Inr p" "y = (name, p)" using y by (auto split: sum.splits)
    have "length (poolBackends pc) < 2 ^ 63" using assms(2) x n by blast
    from gateway_pool_wf [OF p(1) this] show "pool_built parse x y" using n p(2) by simp
  qed
  have known: "map_of pools (BackendPool rc) \<noteq> None" if "rc \<in> set (Routes cfg)" for rc
    using map_of_pools [OF pl, of "BackendPool rc"] valid that by (simp add: validateRoute_def)
  have rl: "list_all2 (route_built pools) (Routes cfg) routes"
    using routes unfolding build_all_Inr
    by (rule list.rel_mono_strong) (rule gateway_route_wf [OF _ known])
  show ?thesis using assms(3,4) pools routes pl rl by (simp add: NewGatewayWithTransport_def gateway_wf_def)
qed

text \<open>C26 (error). Validation is complete: the gateway is built from a configuration exactly when validation
  accepts it and a transport is given. None of the constructors that run afterwards - balancer,
  health checker, breaker, URL parsing, limiter, cache - can fail. Every configured pool is there in
  its initial state with one upstream per backend, and every route with its prefix, its protection and
  a pool that exists.\<close>

theorem gateway_builds_iff_valid:
  assumes "parse_ok parse" "\<forall>(name, pc) \<in> set (BackendPools cfg). length (poolBackends pc) < 2 ^ 63"
  shows "if Validate parse U cfg = None \<and> transport \<noteq> NilTransport
    then \<exists>g. NewGatewayWithTransport parse U now cfg transport = Inr g \<and> gateway_wf parse cfg g
    else \<exists>e. NewGatewayWithTransport parse U now cfg transport = Inl e"
  using gateway_builds [OF assms, of U transport now]
  by (auto simp: NewGatewayWithTransport_def split: option.splits)

lemma sample_parse_ok: "parse_ok sample_parse"
  by (auto simp: parse_ok_def sample_parse_def TrimSpace_keep visible_def split: if_splits)

theorem gateway_builds_iff_valid_witness:
  "(\<exists>g. NewGatewayWithTransport sample_parse sample_case 0 sample_cfg OtherTransport = Inr g
      \<and> gateway_wf sample_parse sample_cfg g)
    \<and> (\<exists>e. NewGatewayWithTransport sample_parse sample_case 0 sample_cfg NilTransport = Inl e)"
proof -
  have small: "\<forall>(name, pc) \<in> set (BackendPools sample_cfg). length (poolBackends pc) < 2 ^ 63"
    by (simp add: sample_cfg_def sample_pool_config_def)
  show ?thesis
    using gateway_builds_iff_valid [OF sample_parse_ok small, of sample_case OtherTransport 0]
      gateway_builds_iff_valid [OF sample_parse_ok small, of sample_case NilTransport 0]
      sample_cfg_valid [of sample_case] by simp
qed

section \<open>Availability\<close>

lemma set_pools: "gomap_wf ps \<Longrightarrow> (name, p) \<in> set ps \<longleftrightarrow> map_of ps name = Some p"
  by (simp add: gomap_wf_def)

text \<open>The report of unavailable pools names, sorted and each once, exactly the pools whose breaker is not
  closed or that have no healthy backend, and it does not depend on the order in which Go iterates
  over the map of pools.\<close>

lemma pools_reported:
  assumes "gomap_wf (gw_pools g)"
  shows "sorted (UnavailablePools g)" "distinct (UnavailablePools g)"
    "name \<in> set (UnavailablePools g) \<longleftrightarrow>
      (\<exists>p. map_of (gw_pools g) name = Some p \<and>
        \<not> (state (circuitBreaker p) = StateClosed \<and> (\<exists>b \<in> set (backends (balancer p)). healthy b)))"
proof -
  show "sorted (UnavailablePools g)" by (simp add: UnavailablePools_def)
  show "distinct (UnavailablePools g)"
    using assms by (simp add: UnavailablePools_def gomap_wf_def distinct_map_filter)
  have "pool_unavailable p \<longleftrightarrow> \<not> (state (circuitBreaker p) = StateClosed \<and> (\<exists>b \<in> set (backends (balancer p)). healthy b))" for p
    by (auto simp: pool_unavailable_def hasHealthyBackend_def Breaker_State_def Pool_Backends_def Backend_Healthy_def list_ex_iff)
  moreover have "name \<in> set (UnavailablePools g) \<longleftrightarrow> (\<exists>p. (name, p) \<in> set (gw_pools g) \<and> pool_unavailable p)"
    by (force simp: UnavailablePools_def)
  ultimately show "name \<in> set (UnavailablePools g) \<longleftrightarrow>
      (\<exists>p. map_of (gw_pools g) name = Some p \<and>
        \<not> (state (circuitBreaker p) = StateClosed \<and> (\<exists>b \<in> set (backends (balancer p)). healthy b)))"
    by (simp add: set_pools [OF assms])
qed

lemma pools_order_irrelevant:
  assumes "mset (gw_pools h) = mset (gw_pools g)"
  shows "UnavailablePools h = UnavailablePools g"
proof -
  have "mset (map fst (filter (\<lambda>(name, p). pool_unavailable p) (gw_pools h))) =
      mset (map fst (filter (\<lambda>(name, p). pool_unavailable p) (gw_pools g)))"
    using assms by (simp add: mset_map mset_filter)
  then show ?thesis unfolding UnavailablePools_def by (metis properties_for_sort sorted_sort mset_sort)
qed

definition sample_empty_pool :: pool where
  "sample_empty_pool =
    \<lparr>balancer = \<lparr>backends = [], strategy = RoundRobin, pool_next = 0\<rparr>, circuitBreaker = NewBreaker, upstreams = [],
     healthChecker = \<lparr>interval = 1, timeout = 1, path = ''/''\<rparr>\<rparr>"

definition sample_gateway :: "string list \<Rightarrow> Gateway" where
  "sample_gateway names =
    \<lparr>gw_routes = [], gw_pools = map (\<lambda>n. (n, sample_empty_pool)) names, requestTimeout = 1, gw_transport = None,
     gw_apiKeys = []\<rparr>"

end
