(* ===== verification/Request_Path.thy ===== *)
theory Request_Path
  imports Gateway
begin

text \<open>
  The path of a request through the gateway: \<^verbatim>\<open>ServeHTTP\<close>, the rate limit and the cache of a route, and
  \<^verbatim>\<open>serveRoute\<close>, from \<^verbatim>\<open>src/internal/proxy/gateway.go\<close> and \<^verbatim>\<open>src/internal/proxy/cache.go\<close>.

  The model runs one request from start to end; how requests overlap is the subject of
  \<^verbatim>\<open>Upstream_Pool\<close> and \<^verbatim>\<open>Concurrent_Gateway\<close>. A request reads the clock at several places; the readings are in its environment,
  one for each place. Routes are named by their index. The handler of a route is assembled by the
  constructor; since a route never gains or loses its limiter or its cache, it is given here by the
  route's present fields.
\<close>

section \<open>Model\<close>

record gateway_world = measured_world +
  gateway :: Gateway

record request_env =
  env_proxy :: proxy_env
  env_Sum256 :: "bytes \<Rightarrow> bytes"
  env_ids :: id_source
  env_ParseAddrPort :: "string \<Rightarrow> string option"
  env_ParseAddr :: "string \<Rightarrow> string option"
  at_limit :: time
  at_lookup :: time
  at_acquire :: time
  at_report :: time
  at_store :: time

abbreviation env_U :: "request_env \<Rightarrow> unicode_case" where
  "env_U E \<equiv> env_case (env_proxy E)"

abbreviation route_at :: "nat \<Rightarrow> gateway_world \<Rightarrow> route" where
  "route_at i s \<equiv> gw_routes (gateway s) ! i"

definition set_route :: "nat \<Rightarrow> (route \<Rightarrow> route) \<Rightarrow> gateway_world \<Rightarrow> gateway_world" where
  "set_route i f s = s\<lparr>gateway := (gateway s)\<lparr>gw_routes := (gw_routes (gateway s))[i := f (route_at i s)]\<rparr>\<rparr>"

definition set_pool :: "string \<Rightarrow> pool \<Rightarrow> gateway_world \<Rightarrow> gateway_world" where
  "set_pool name p s = s\<lparr>gateway := (gateway s)\<lparr>gw_pools := AList.update name p (gw_pools (gateway s))\<rparr>\<rparr>"

definition rateLimit :: "request_env \<Rightarrow> nat \<Rightarrow> gateway_world middleware" where
  "rateLimit E i nxt r w s =
    (case limiter (route_at i s) of
       None \<Rightarrow> nxt r w s
     | Some l \<Rightarrow>
         let (allowed, l) = ClientLimiter_Allow (at_limit E)
               (clientKeyFromRemoteAddr (env_ParseAddrPort E) (env_ParseAddr E) (RemoteAddr r)) l;
             s = set_route i (limiter_update (\<lambda>_. Some l)) s
         in if \<not> allowed
            then (Returned,
                  http_Error (env_U E) ''rate limit exceeded'' 429
                    (update_header (Header_Set ''Retry-After'' (retryAfterHeader (route_at i s))) w), s)
            else nxt r w s)"

definition writeCachedResponse ::
  "unicode_case \<Rightarrow> Header response_value \<Rightarrow> string \<Rightarrow> writer \<Rightarrow> flow \<times> bool \<times> writer" where
  "writeCachedResponse U stored requestID w =
    (let (statusCode, header, body) = stored;
         w = update_header (\<lambda>h. foldl (\<lambda>h (name, values). AList.update name values h) h header) w;
         w = update_header (Header_Set IDHeader requestID) w;
         w = update_header (Header_Set CacheStatusHeader ''HIT'') w;
         w' = WriteHeader U statusCode w
     in if header_refused w w' then (Panicked (invalid_code statusCode), False, w')
        else let (n, err, w) = Write U body w' in (Returned, err, w))"

definition capturing_of :: "writer \<Rightarrow> cacheResponseWriter \<times> writer" where
  "capturing_of v = (case v of Capturing c w \<Rightarrow> (c, w) | _ \<Rightarrow> (new_capturing, v))"

definition cacheResponses :: "request_env \<Rightarrow> nat \<Rightarrow> gateway_world middleware" where
  "cacheResponses E i nxt r w s =
    (if \<not> isCacheableRequest (env_U E) r then nxt r w s
     else
       let requestID = RequestID r s;
           key = responseCacheKey (env_U E) r
       in case responseCache (route_at i s) of
            None \<Rightarrow> nxt r w s
          | Some c \<Rightarrow>
              (case Cache_Get (at_lookup E) key c of
                 (Some cached, c) \<Rightarrow>
                   let s = set_route i (responseCache_update (\<lambda>_. Some c)) s;
                       (ended, err, w) = writeCachedResponse (env_U E) cached requestID w
                   in (ended, w, if err then emit (CachedWriteFailed requestID) s else s)
               | (None, c) \<Rightarrow>
                   let s = set_route i (responseCache_update (\<lambda>_. Some c)) s;
                       w = update_header (Header_Set CacheStatusHeader ''MISS'') w;
                       (ended, v, s) = nxt r (Capturing new_capturing w) s;
                       (capture, w) = capturing_of v
                   in if ended \<noteq> Returned then (ended, w, s)
                      else
                        (case cacheResponseWriter_response (env_U E) (writer_Header w) capture of
                           None \<Rightarrow> (Returned, w, s)
                         | Some (statusCode, header, body) \<Rightarrow>
                             let header = Header_Del CacheStatusHeader (Header_Del IDHeader header)
                             in (Returned, w,
                                 set_route i (\<lambda>rt. rt\<lparr>responseCache := map_option
                                   (Cache_Set (at_store E) key (statusCode, header, body)) (responseCache rt)\<rparr>) s))))"

definition serveRoute :: "request_env \<Rightarrow> nat \<Rightarrow> gateway_world handler" where
  "serveRoute E i r w s =
    (let name = route_pool (route_at i s)
     in case map_of (gw_pools (gateway s)) name of
          None \<Rightarrow> (Panicked (PanicValue ''nil pool''), w, s)
        | Some p \<Rightarrow>
            (case pool_acquire (at_acquire E) p of
               (Inl e, p) \<Rightarrow>
                 let (message, code) = serveRoute_rejection e
                 in (Returned, http_Error (env_U E) message code w, set_pool name p s)
             | (Inr (u, permit), p) \<Rightarrow>
                 let s = SetBackend r (backendLogValue (target u)) s;
                     (outcome, ended, w) = ReverseProxy_ServeHTTP (env_proxy E) (target u) (RequestID r s) r w
                 in (ended, w, set_pool name (serveRoute_finish outcome (at_report E) u permit p) s)))"

definition route_handler :: "request_env \<Rightarrow> nat \<Rightarrow> gateway_world handler" where
  "route_handler E i r w s =
    (let rt = route_at i s;
         routeMiddleware =
           (if protected rt then [APIKeyAuth (env_U E) (env_Sum256 E) (gw_apiKeys (gateway s))] else []) @
           (if limiter rt \<noteq> None then [rateLimit E i] else []) @
           (if responseCache rt \<noteq> None then [cacheResponses E i] else [])
     in Chain routeMiddleware (serveRoute E i) r w s)"

definition ServeHTTP :: "request_env \<Rightarrow> gateway_world handler" where
  "ServeHTTP E r w s =
    (let (r, s) = Ensure (env_ids E) r s;
         w = update_header (Header_Set IDHeader (RequestID r s)) w
     in case matchRoute (gw_routes (gateway s)) (Path (requestURL r)) of
          None \<Rightarrow> (Returned, http_Error (env_U E) ''no route configured for request path'' 404 w, s)
        | Some i \<Rightarrow> route_handler E i r w (SetRoute r (pathPrefix (route_at i s)) s))"

section \<open>What a request changes\<close>

lemma gateway_other [simp]:
  "gateway (SetBackend r b s) = gateway s" "gateway (SetRoute r rt s) = gateway s"
  "gateway (emit e s) = gateway s"
  "gw_pools (gateway (set_route i f s)) = gw_pools (gateway s)"
  "gw_routes (gateway (set_pool name p s)) = gw_routes (gateway s)"
  "gw_pools (gateway (set_pool name p s)) = AList.update name p (gw_pools (gateway s))"
  by (simp_all add: SetBackend_def SetRoute_def emit_def set_route_def set_pool_def split: option.splits)

lemma gateway_Ensure: "Ensure src r s = (r', s') \<Longrightarrow> gateway s' = gateway s"
  by (auto simp: Ensure_def Let_def split: if_splits)

text \<open>One request performs at most one run of two traffic events on each pool and leaves nothing in
  flight.\<close>

definition pool_ran :: "pool option \<Rightarrow> pool option \<Rightarrow> bool" where
  "pool_ran p p' =
    (case p of
       None \<Rightarrow> p' = None
     | Some q \<Rightarrow> \<exists>es. length es \<le> 2 \<and> flights (foldl traffic_exec (traffic_start q) es) = [] \<and>
         p' = Some (tpool (foldl traffic_exec (traffic_start q) es)))"

definition pools_ran :: "gateway_world \<Rightarrow> gateway_world \<Rightarrow> bool" where
  "pools_ran s s' = (\<forall>name. pool_ran (map_of (gw_pools (gateway s)) name) (map_of (gw_pools (gateway s')) name))"

definition runs_pools :: "gateway_world handler \<Rightarrow> bool" where
  "runs_pools h = (\<forall>r w s. pools_ran s (snd (snd (h r w s))))"

lemma pool_ran_refl [simp]: "pool_ran p p"
  by (auto simp: pool_ran_def traffic_start_def split: option.splits intro: exI [of _ "[]"])

lemma pools_ran_same: "gw_pools (gateway s) = gw_pools (gateway s') \<Longrightarrow> pools_ran s s'"
  by (simp add: pools_ran_def)

lemma runs_poolsD: "runs_pools h \<Longrightarrow> h r w s = (ended, w', s') \<Longrightarrow> gw_pools (gateway s0) = gw_pools (gateway s) \<Longrightarrow> pools_ran s0 s'"
  unfolding runs_pools_def pools_ran_def by (metis snd_conv)

lemma serveRoute_traffic:
  assumes "map_of (gw_pools (gateway s)) (route_pool (route_at i s)) = Some p" "serveRoute E i r w s = (ended, w', s')"
  shows "\<exists>outcome t. t = foldl traffic_exec (traffic_start p) [BeginRequest (at_acquire E), FinishRequest 0 outcome (at_report E)]
    \<and> flights t = [] \<and> gw_pools (gateway s') = AList.update (route_pool (route_at i s)) (tpool t) (gw_pools (gateway s))
    \<and> gw_routes (gateway s') = gw_routes (gateway s)"
proof -
  obtain a q where acq: "pool_acquire (at_acquire E) p = (a, q)" by fastforce
  show ?thesis
  proof (cases a)
    case (Inl e)
    then show ?thesis using assms acq
      by (auto simp: serveRoute_def traffic_start_def Let_def split: prod.splits)
  next
    case (Inr f)
    obtain u permit where f: "f = (u, permit)" by fastforce
    obtain outcome en v where px: "ReverseProxy_ServeHTTP (env_proxy E) (target u)
        (RequestID r (SetBackend r (backendLogValue (target u)) s)) r w = (outcome, en, v)" using prod_cases3 by blast
    show ?thesis
      by (rule exI [of _ outcome]) (use assms acq Inr f px in \<open>auto simp: serveRoute_def traffic_start_def\<close>)
  qed
qed

lemma runs_serveRoute: "runs_pools (serveRoute E i)"
  unfolding runs_pools_def
proof (intro allI)
  fix r w s
  obtain ended w' s' where run: "serveRoute E i r w s = (ended, w', s')" using prod_cases3 by blast
  let ?name = "route_pool (route_at i s)"
  show "pools_ran s (snd (snd (serveRoute E i r w s)))"
  proof (cases "map_of (gw_pools (gateway s)) ?name")
    case None
    then show ?thesis by (simp add: serveRoute_def pools_ran_same)
  next
    case (Some p)
    from serveRoute_traffic [OF Some run] obtain outcome where
      t: "flights (foldl traffic_exec (traffic_start p) [BeginRequest (at_acquire E), FinishRequest 0 outcome (at_report E)]) = []"
      "gw_pools (gateway s') = AList.update ?name
        (tpool (foldl traffic_exec (traffic_start p) [BeginRequest (at_acquire E), FinishRequest 0 outcome (at_report E)]))
        (gw_pools (gateway s))" by blast
    have "pool_ran (map_of (gw_pools (gateway s)) name) (map_of (gw_pools (gateway s')) name)" for name
    proof (cases "name = ?name")
      case True
      then show ?thesis using Some t unfolding pool_ran_def
        by (auto simp: update_conv' simp del: foldl_Cons traffic_exec.simps
          intro!: exI [of _ "[BeginRequest (at_acquire E), FinishRequest 0 outcome (at_report E)]"])
    qed (simp add: t(2) update_conv')
    then show ?thesis using run by (simp add: pools_ran_def)
  qed
qed

lemma runs_pools_from: "runs_pools h \<Longrightarrow> gw_pools (gateway s') = gw_pools (gateway s) \<Longrightarrow> pools_ran s (snd (snd (h r w s')))"
  unfolding runs_pools_def pools_ran_def by metis

lemma runs_APIKeyAuth: "runs_pools nxt \<Longrightarrow> runs_pools (APIKeyAuth U Sum256 keys nxt)"
  by (auto simp: runs_pools_def APIKeyAuth_def Let_def pools_ran_same)

lemma runs_rateLimit:
  assumes "runs_pools nxt"
  shows "runs_pools (rateLimit E i nxt)"
  unfolding runs_pools_def
proof (intro allI)
  fix r w s
  show "pools_ran s (snd (snd (rateLimit E i nxt r w s)))"
  proof (cases "limiter (route_at i s)")
    case None
    then show ?thesis using assms by (simp add: rateLimit_def runs_pools_def)
  next
    case (Some l)
    obtain allowed l' where "ClientLimiter_Allow (at_limit E)
        (clientKeyFromRemoteAddr (env_ParseAddrPort E) (env_ParseAddr E) (RemoteAddr r)) l = (allowed, l')" by fastforce
    moreover have "pools_ran s (snd (snd (nxt r w (set_route i f s))))" for f
      by (rule runs_pools_from [OF assms]) simp
    ultimately show ?thesis using Some by (simp add: rateLimit_def pools_ran_same Let_def)
  qed
qed

lemma runs_cacheResponses:
  assumes "runs_pools nxt"
  shows "runs_pools (cacheResponses E i nxt)"
  unfolding runs_pools_def
proof (intro allI)
  fix r w s
  show "pools_ran s (snd (snd (cacheResponses E i nxt r w s)))"
  proof (cases "isCacheableRequest (env_U E) r \<and> responseCache (route_at i s) \<noteq> None")
    case False
    then show ?thesis using assms by (auto simp: cacheResponses_def runs_pools_def Let_def)
  next
    case True
    then obtain c where c: "responseCache (route_at i s) = Some c" by blast
    obtain hit c' where get: "Cache_Get (at_lookup E) (responseCacheKey (env_U E) r) c = (hit, c')" by fastforce
    let ?s = "set_route i (responseCache_update (\<lambda>_. Some c')) s"
    have ran: "pools_ran s s1" if "nxt r v ?s = (ended, v', s1)" for v ended v' s1
      using runs_pools_from [OF assms, of ?s s r v] that by simp
    show ?thesis
    proof (cases hit)
      case (Some v)
      then show ?thesis using True c get by (simp add: cacheResponses_def Let_def pools_ran_same split: prod.splits)
    next
      case None
      then show ?thesis using True c get
        by (auto simp: cacheResponses_def Let_def pools_ran_def split: prod.splits option.splits dest!: ran [unfolded pools_ran_def])
    qed
  qed
qed

lemma runs_route_handler: "runs_pools (route_handler E i)"
  unfolding runs_pools_def [of "route_handler E i"]
proof (intro allI)
  fix r w s
  define ms where "ms =
    (if protected (route_at i s) then [APIKeyAuth (env_U E) (env_Sum256 E) (gw_apiKeys (gateway s))] else []) @
    (if limiter (route_at i s) \<noteq> None then [rateLimit E i] else []) @
    (if responseCache (route_at i s) \<noteq> None then [cacheResponses E i] else [])"
  have "runs_pools (Chain ms (serveRoute E i))"
    by (simp add: ms_def runs_APIKeyAuth runs_rateLimit runs_cacheResponses runs_serveRoute)
  then show "pools_ran s (snd (snd (route_handler E i r w s)))"
    unfolding route_handler_def Let_def ms_def [symmetric] runs_pools_def by blast
qed

lemma runs_ServeHTTP: "runs_pools (ServeHTTP E)"
  unfolding runs_pools_def [of "ServeHTTP E"]
proof (intro allI)
  fix r w and s :: gateway_world
  obtain r' s' where e: "Ensure (env_ids E) r s = (r', s')" by fastforce
  show "pools_ran s (snd (snd (ServeHTTP E r w s)))"
    using gateway_Ensure [OF e]
    by (auto simp: ServeHTTP_def e Let_def pools_ran_same split: option.splits intro: runs_pools_from [OF runs_route_handler])
qed

section \<open>Sequences of requests\<close>

lemma traffic_restart: "flights t = [] \<Longrightarrow> traffic_start (tpool t) = t"
  by (simp add: traffic_start_def)

lemma pool_ran_Some:
  "pool_ran (Some q) p' \<Longrightarrow> \<exists>es. length es \<le> 2 \<and> flights (foldl traffic_exec (traffic_start q) es) = [] \<and>
    p' = Some (tpool (foldl traffic_exec (traffic_start q) es))"
  by (simp add: pool_ran_def)

lemma map_of_built:
  assumes "list_all2 (pool_built parse) xs ys" "gomap_wf xs" "map_of ys name = Some p"
  shows "\<exists>pc ts. map_of xs name = Some pc \<and> map Some ts = map parse (poolBackends pc)
    \<and> new_pool (breaker_config pc) (poolBackends pc) (poolStrategy pc) ts p"
  using assms by (induction rule: list_all2_induct) (auto simp: pool_built_def gomap_wf_def split: if_splits)

text \<open>A server of requests, each of which runs the pools as one request does.\<close>

locale request_server =
  fixes serve :: "gateway_world \<Rightarrow> 'q \<Rightarrow> gateway_world" and ok :: "'q \<Rightarrow> bool"
  assumes serve_pools: "ok q \<Longrightarrow> pools_ran s (serve s q)"
begin

lemma serve_step:
  assumes "ok q"
  shows "pool_ran (map_of (gw_pools (gateway (foldl serve s reqs))) name)
    (map_of (gw_pools (gateway (foldl serve s (reqs @ [q])))) name)"
  using serve_pools [OF assms, of "foldl serve s reqs"] by (simp add: pools_ran_def)

lemma pools_absent_after:
  "list_all ok reqs \<Longrightarrow> map_of (gw_pools (gateway s)) name = None \<Longrightarrow> map_of (gw_pools (gateway (foldl serve s reqs))) name = None"
proof (induction reqs rule: rev_induct)
  case (snoc q reqs)
  then show ?case using serve_step [of q s reqs name] by (simp add: pool_ran_def)
qed simp

lemma pools_after_requests:
  assumes "list_all ok reqs" "map_of (gw_pools (gateway s)) name = Some p"
  shows "\<exists>es. length es \<le> 2 * length reqs \<and> flights (foldl traffic_exec (traffic_start p) es) = [] \<and>
    map_of (gw_pools (gateway (foldl serve s reqs))) name = Some (tpool (foldl traffic_exec (traffic_start p) es))"
  using assms(1)
proof (induction reqs rule: rev_induct)
  case Nil
  then show ?case using assms(2) by (intro exI [of _ "[]"]) (simp add: traffic_start_def)
next
  case (snoc q reqs)
  then obtain es where es: "length es \<le> 2 * length reqs" "flights (foldl traffic_exec (traffic_start p) es) = []"
    "map_of (gw_pools (gateway (foldl serve s reqs))) name = Some (tpool (foldl traffic_exec (traffic_start p) es))" by auto
  have "pool_ran (Some (tpool (foldl traffic_exec (traffic_start p) es)))
      (map_of (gw_pools (gateway (foldl serve s (reqs @ [q])))) name)"
    using serve_step [of q s reqs name] snoc.prems unfolding es(3) by simp
  from pool_ran_Some [OF this] obtain es' where "length es' \<le> 2" "flights (foldl traffic_exec (traffic_start p) (es @ es')) = []"
    "map_of (gw_pools (gateway (foldl serve s (reqs @ [q])))) name = Some (tpool (foldl traffic_exec (traffic_start p) (es @ es')))"
    unfolding traffic_restart [OF es(2)] by auto
  then show ?case using es(1) by (intro exI [of _ "es @ es'"]) (simp del: foldl_append)
qed

lemma same_pools_after:
  assumes "list_all ok reqs"
  shows "dom (map_of (gw_pools (gateway (foldl serve s reqs)))) = dom (map_of (gw_pools (gateway s)))"
proof -
  have "map_of (gw_pools (gateway (foldl serve s reqs))) name = None \<longleftrightarrow> map_of (gw_pools (gateway s)) name = None" for name
    using pools_absent_after [OF assms, of s name] pools_after_requests [OF assms, of s name]
    by (cases "map_of (gw_pools (gateway s)) name") auto
  then show ?thesis by (auto simp: dom_def)
qed

lemma nothing_in_flight:
  assumes "list_all2 (pool_built parse) ps (gw_pools (gateway s))" "gomap_wf ps"
    and "list_all ok reqs" "2 * int (length reqs) < maxInt64"
    and "map_of (gw_pools (gateway (foldl serve s reqs))) name = Some p"
  shows "(\<forall>b \<in> set (backends (balancer p)). activeConnections b = 0)
    \<and> (\<exists>p0 es. map_of (gw_pools (gateway s)) name = Some p0 \<and> p = tpool (foldl traffic_exec (traffic_start p0) es))"
proof -
  obtain p0 where p0: "map_of (gw_pools (gateway s)) name = Some p0"
    using same_pools_after [OF assms(3), of s] assms(5) by blast
  from pools_after_requests [OF assms(3) this] obtain es where es: "length es \<le> 2 * length reqs"
    "flights (foldl traffic_exec (traffic_start p0) es) = []" "p = tpool (foldl traffic_exec (traffic_start p0) es)"
    using assms(5) by auto
  obtain pc :: PoolConfig and ts config where "new_pool config (poolBackends pc) (poolStrategy pc) ts p0"
    using map_of_built [OF assms(1,2) p0] by blast
  from active_counts_flights [OF this _ refl, of es] have "\<forall>i < length (backends (balancer p)). active_at (balancer p) i = 0"
    using es assms(4) by simp
  then have "\<forall>b \<in> set (backends (balancer p)). activeConnections b = 0" by (auto simp: in_set_conv_nth)
  with p0 es(3) show ?thesis by blast
qed

end

definition sample_env :: request_env where
  "sample_env =
    \<lparr>env_proxy = sample_proxy_env,
     env_Sum256 = id, env_ids = sample_source, env_ParseAddrPort = (\<lambda>_. Some ''192.0.2.1''), env_ParseAddr = (\<lambda>_. None),
     at_limit = 1, at_lookup = 2, at_acquire = 3, at_report = 4, at_store = 5\<rparr>"

definition sample_gateway_world :: "Gateway \<Rightarrow> gateway_world" where
  "sample_gateway_world g = \<lparr>metadata_store = [], log_events = [], metric_calls = [], gateway = g\<rparr>"

section \<open>The gateway only calls its writer\<close>

lemma rejection_valid: "serveRoute_rejection e = (message, code) \<Longrightarrow> valid_status code"
  by (auto simp: serveRoute_rejection_def split: AcquireError.splits BreakerError.splits)

lemma uses_http_Error [simp]: "valid_status code \<Longrightarrow> uses_writer U w (ended, http_Error U message code (update_header f w), s)"
  "valid_status code \<Longrightarrow> uses_writer U w (ended, http_Error U message code w, s)"
  by (auto simp: refused_http_Error intro: writes_trans)

lemma calls_serveRoute: "calls_writer (env_U E) (serveRoute E i)"
  unfolding calls_writer_def
proof (intro allI)
  fix r w s
  have proxied: "uses_writer (env_U E) w (ended, v, t)"
    if "ReverseProxy_ServeHTTP (env_proxy E) tgt ident r w = (outcome, ended, v)" for tgt ident outcome ended v t
    using uses_ReverseProxy [OF that] .
  show "uses_writer (env_U E) w (serveRoute E i r w s)"
    by (auto simp: serveRoute_def Let_def simp del: uses_writer_iff dest: proxied rejection_valid
        split: option.splits prod.splits sum.splits)
      (simp add: uses_writer_iff)
qed

lemma calls_APIKeyAuth: "calls_writer U nxt \<Longrightarrow> calls_writer U (APIKeyAuth U Sum256 keys nxt)"
  by (auto simp: calls_writer_def APIKeyAuth_def Let_def simp del: uses_writer_iff)

lemma calls_rateLimit: "calls_writer (env_U E) nxt \<Longrightarrow> calls_writer (env_U E) (rateLimit E i nxt)"
  by (auto simp: calls_writer_def rateLimit_def Let_def simp del: uses_writer_iff split: option.splits prod.splits)

lemma uses_writeCachedResponse: "writeCachedResponse U v ident w = (ended, err, w') \<Longrightarrow> uses_writer U w (ended, w', s)"
proof -
  assume hit: "writeCachedResponse U v ident w = (ended, err, w')"
  obtain code h body where v: "v = (code, h, body)" using prod_cases3 by blast
  let ?w = "update_header (Header_Set CacheStatusHeader ''HIT'') (update_header (Header_Set IDHeader ident)
    (update_header (\<lambda>m. foldl (\<lambda>m (name, values). AList.update name values m) m h) w))"
  obtain n e w2 where wr: "Write U body (WriteHeader U code ?w) = (n, e, w2)" using prod_cases3 by blast
  have w: "writes U w ?w" "writes U ?w (WriteHeader U code ?w)" by (auto intro: writes_trans)
  note w2 = writes_Write [OF wr] refused_Write [OF wr]
  show ?thesis
    using hit w w2 wr
    by (auto simp: writeCachedResponse_def v Let_def header_refused_def split: if_splits intro: writes_trans)
qed

lemma calls_cacheResponses:
  assumes "calls_writer (env_U E) nxt"
  shows "calls_writer (env_U E) (cacheResponses E i nxt)"
  unfolding calls_writer_def
proof (intro allI)
  fix r w s
  let ?U = "env_U E"
  have inner: "uses_writer ?U w (ended, snd (capturing_of v), s2)"
    if run: "nxt r (Capturing new_capturing (update_header f w)) s' = (ended, v, s1)" for f s' ended v s1 s2
  proof -
    obtain k w' where v: "v = Capturing k w'" "writes ?U (update_header f w) w'"
      using writes_wrapped(3) [OF calls_writerD [OF assms run]] by blast
    moreover have "ended = Returned \<longrightarrow> refused (base_of v) = refused (base_of w)"
      using calls_writer_returns [OF assms] run by fastforce
    ultimately show ?thesis by (auto simp: capturing_of_def intro: writes_trans)
  qed
  have plain: "uses_writer ?U w (nxt r w s)" using assms by (simp add: calls_writer_def)
  show "uses_writer ?U w (cacheResponses E i nxt r w s)"
    using plain inner
    by (fastforce simp: cacheResponses_def Let_def simp del: uses_writer_iff dest: uses_writeCachedResponse
      split: option.splits prod.splits)
qed

lemma calls_route_handler: "calls_writer (env_U E) (route_handler E i)"
  unfolding calls_writer_def [of "env_U E" "route_handler E i"]
proof (intro allI)
  fix r w s
  define ms where "ms =
    (if protected (route_at i s) then [APIKeyAuth (env_U E) (env_Sum256 E) (gw_apiKeys (gateway s))] else []) @
    (if limiter (route_at i s) \<noteq> None then [rateLimit E i] else []) @
    (if responseCache (route_at i s) \<noteq> None then [cacheResponses E i] else [])"
  have "calls_writer (env_U E) (Chain ms (serveRoute E i))"
    by (simp add: ms_def calls_APIKeyAuth calls_rateLimit calls_cacheResponses calls_serveRoute)
  then show "uses_writer (env_U E) w (route_handler E i r w s)"
    unfolding route_handler_def Let_def ms_def [symmetric] calls_writer_def by blast
qed

lemma calls_ServeHTTP: "calls_writer (env_U E) (ServeHTTP E)"
  unfolding calls_writer_def [of "env_U E" "ServeHTTP E"]
proof (intro allI)
  fix r w and s :: gateway_world
  have route: "uses_writer (env_U E) w (route_handler E i r' (update_header f w) s')" for i r' f s'
    by (rule uses_writer_start [OF calls_writer_use [OF calls_route_handler]]) auto
  show "uses_writer (env_U E) w (ServeHTTP E r w s)"
    using route by (auto simp: ServeHTTP_def Let_def simp del: uses_writer_iff split: option.splits prod.splits)
qed

section \<open>A cached response is the response\<close>

lemma serveRoute_routes: "serveRoute E i r w s = (ended, w', s') \<Longrightarrow> gw_routes (gateway s') = gw_routes (gateway s)"
  by (auto simp: serveRoute_def Let_def split: option.splits prod.splits sum.splits)

lemma route_at_set_route: "i < length (gw_routes (gateway s)) \<Longrightarrow> route_at i (set_route i f s) = f (route_at i s)"
  by (simp add: set_route_def)

lemma cacheResponses_miss:
  assumes "isCacheableRequest (env_U E) r" "responseCache (route_at i s) = Some c"
    and "Cache_Get (at_lookup E) (responseCacheKey (env_U E) r) c = (None, c1)"
    and "nxt r (Capturing new_capturing (update_header (Header_Set CacheStatusHeader ''MISS'') w))
      (set_route i (responseCache_update (\<lambda>_. Some c1)) s) = (ended, Capturing k w1, s1)"
  shows "cacheResponses E i nxt r w s =
      (if ended \<noteq> Returned then (ended, w1, s1)
       else (case cacheResponseWriter_response (env_U E) (writer_Header w1) k of
           None \<Rightarrow> (Returned, w1, s1)
         | Some (statusCode, header, body) \<Rightarrow> (Returned, w1,
             set_route i (\<lambda>rt. rt\<lparr>responseCache := map_option (Cache_Set (at_store E) (responseCacheKey (env_U E) r)
               (statusCode, Header_Del CacheStatusHeader (Header_Del IDHeader header), body)) (responseCache rt)\<rparr>) s1)))"
  using assms unfolding cacheResponses_def Let_def by (simp add: capturing_of_def)

text \<open>A cacheable response that was sent in full is stored as it was sent, without the two headers that
  belong to one request.\<close>

lemma miss_stores:
  assumes "isCacheableRequest (env_U E) r" "i < length (gw_routes (gateway s))"
    and "responseCache (route_at i s) = Some c" "Cache_Get (at_lookup E) (responseCacheKey (env_U E) r) c = (None, c1)"
    and "writer_ok (env_U E) w" "unwritten w" "unfailed w"
    and "cacheResponses E i (serveRoute E i) r w s = (Returned, w', s')" "base_status (base_of w') = Some 200"
    and "\<not> responseHeadersPreventCaching (env_U E) (sent_header (base_of w'))"
    and "length (base_body (base_of w')) \<le> maxCacheableResponseBytes"
  shows "i < length (gw_routes (gateway s')) \<and> responseCache (route_at i s') =
    Some (Cache_Set (at_store E) (responseCacheKey (env_U E) r)
      (200, Header_Del CacheStatusHeader (Header_Del IDHeader (sent_header (base_of w'))), base_body (base_of w')) c1)"
proof -
  let ?s = "set_route i (responseCache_update (\<lambda>_. Some c1)) s"
  let ?w = "Capturing new_capturing (update_header (Header_Set CacheStatusHeader ''MISS'') w)"
  obtain ended v s1 where run: "serveRoute E i r ?w ?s = (ended, v, s1)" using prod_cases3 by blast
  have wr: "writes (env_U E) ?w v" using calls_serveRoute run by (rule calls_writerD)
  then obtain k w1 where v: "v = Capturing k w1" using writes_wrapped(3) by blast
  have "writer_ok (env_U E) ?w"
    by (rule new_wrappers_ok) (use assms(5,6) in \<open>simp_all add: unwritten_def\<close>)
  moreover have "unfailed ?w" using assms(7) by (simp add: new_capturing_def)
  ultimately have start: "writer_ok (env_U E) ?w" "unfailed ?w" .
  note unfold = cacheResponses_miss [where nxt = "serveRoute E i", OF assms(1,3,4) run [unfolded v]]
  have w1: "w1 = w'" "ended = Returned"
    using assms(8) unfolding unfold by (auto split: if_splits option.splits prod.splits)
  have "\<not> hijacked (base_of ?w)" using writer_ok_base [OF start(1)] by (simp add: base_ok_def)
  then have rec: "on_record (base_of ?w) (base_of v)"
    using writes_taken_over [OF wr] calls_writer_returns [OF calls_serveRoute, of E i r ?w ?s v s1] run w1 v assms(9)
    by (simp add: on_record_def)
  have ok: "capturing_ok (env_U E) k (base_of w1)" "\<not> writeFailed k"
    using writes_ok [OF wr start(1) rec] unfailed_writes [OF wr start(2)] rec v by (simp_all add: on_record_def)
  have "cacheResponseWriter_response (env_U E) (writer_Header w1) k = Some (200, sent_header (base_of w'), base_body (base_of w'))"
    using ok assms(9-11) w1(1) by (auto simp: cacheResponseWriter_response_def capturing_ok_def Let_def split: if_splits)
  then have s': "s' = set_route i (\<lambda>rt. rt\<lparr>responseCache := map_option (Cache_Set (at_store E) (responseCacheKey (env_U E) r)
      (200, Header_Del CacheStatusHeader (Header_Del IDHeader (sent_header (base_of w'))), base_body (base_of w')))
        (responseCache rt)\<rparr>) s1"
    using assms(8) w1(2) unfolding unfold by simp
  have routes: "gw_routes (gateway s1) = gw_routes (gateway ?s)" using serveRoute_routes [OF run] .
  then have "i < length (gw_routes (gateway s1))" "route_at i s1 = (route_at i s)\<lparr>responseCache := Some c1\<rparr>"
    using assms(2) route_at_set_route [OF assms(2)] by (simp_all add: set_route_def)
  then show ?thesis using route_at_set_route [of i s1] unfolding s' by (simp add: set_route_def)
qed

lemma map_of_assign_all:
  assumes "gomap_wf xs"
  shows "map_of (foldl (\<lambda>h (name, vs). AList.update name vs h) h xs) k =
    (case map_of xs k of Some vs \<Rightarrow> Some vs | None \<Rightarrow> map_of h k)"
  using assms
proof (induction xs arbitrary: h)
  case (Cons x xs)
  obtain n vs where x: "x = (n, vs)" by fastforce
  with Cons.prems have "gomap_wf xs" "map_of xs n = None" by (auto simp: gomap_wf_def map_of_eq_None_iff)
  with Cons.IH [of "AList.update n vs h"] x show ?case by (auto simp: update_conv' split: option.splits)
qed simp

lemma hit_replays:
  assumes "writer_ok U w" "unwritten w" "unfailed w" "gomap_wf h" "writeCachedResponse U (200, h, body) ident w = (ended, err, w')"
  shows "ended = Returned \<and> \<not> err \<and> base_status (base_of w') = Some 200 \<and> base_body (base_of w') = body \<and>
    Header_Values (sent_header (base_of w')) name =
      (if CanonicalHeaderKey name = CanonicalHeaderKey CacheStatusHeader then [''HIT'']
       else if CanonicalHeaderKey name = CanonicalHeaderKey IDHeader then [ident]
       else case map_of h (CanonicalHeaderKey name) of Some vs \<Rightarrow> vs | None \<Rightarrow> Header_Values (writer_Header w) name)"
proof -
  let ?f = "\<lambda>m. foldl (\<lambda>m (name, vs). AList.update name vs m) m h"
  let ?w = "update_header (Header_Set CacheStatusHeader ''HIT'') (update_header (Header_Set IDHeader ident) (update_header ?f w))"
  obtain n e v where wr: "Write U body (WriteHeader U 200 ?w) = (n, e, v)" using prod_cases3 by blast
  have w': "ended = Returned" "e = err" "v = w'"
    using assms(5) wr by (simp_all add: writeCachedResponse_def Let_def header_refused_def refused_WriteHeader)
  have ok: "writer_ok U ?w" "unfailed ?w" using assms(1,3) by simp_all
  have base: "base_of (WriteHeader U 200 ?w) = base_WriteHeader 200 (base_of ?w)" "writer_ok U (WriteHeader U 200 ?w)"
    using writer_WriteHeader [OF ok(1)] by simp_all
  have fail: "n = length body" "\<not> e" using unfailed_Write [OF unfailed_WriteHeader [OF ok(2)] wr] by simp_all
  have "base_Write body (base_WriteHeader 200 (base_of ?w)) = (n, e, base_of v)"
    using writer_Write [OF base(2) wr] base(1) by simp
  from base_Write_effect [OF this] have eff: "base_status (base_of v) = Some 200" "base_body (base_of v) = body"
    "sent_header (base_of v) = writer_Header ?w"
    using assms(2) writer_ok_base [OF assms(1)] fail
    by (auto simp: unwritten_def base_ok_def base_WriteHeader_def is_informational_def writer_Header_def)
  have "Header_Values (?f m) name = (case map_of h (CanonicalHeaderKey name) of Some vs \<Rightarrow> vs | None \<Rightarrow> Header_Values m name)" for m
    by (simp add: Header_Values_def map_of_assign_all [OF assms(4)] split: option.splits)
  then show ?thesis using eff fail w' by simp
qed

text \<open>C2 (roundtrip). What the cache replays is what was sent. When a cacheable response with status 200 was sent
  in full by the upstream of a route, the next request with the same key within the time to live is
  answered without touching any pool, with the same status and body and with the same value of every
  header of that response except the request identifier, which is the new request's, and the cache
  marker, which says \<^verbatim>\<open>HIT\<close>.\<close>

theorem cached_response_replayed:
  assumes "isCacheableRequest (env_U E) r" "i < length (gw_routes (gateway s))"
    and "responseCache (route_at i s) = Some c" "cache_wf c"
    and "fst (Cache_Get (at_lookup E) (responseCacheKey (env_U E) r) c) = None"
    and "writer_ok (env_U E) w" "unwritten w" "unfailed w"
    and "cacheResponses E i (serveRoute E i) r w s = (Returned, w', s')" "base_status (base_of w') = Some 200"
    and "\<not> responseHeadersPreventCaching (env_U E) (sent_header (base_of w'))"
    and "length (base_body (base_of w')) \<le> maxCacheableResponseBytes" "gomap_wf (sent_header (base_of w'))"
    and "isCacheableRequest (env_U F) q" "responseCacheKey (env_U F) q = responseCacheKey (env_U E) r"
    and "at_lookup F < at_store E + ttl c" "writer_ok (env_U F) v" "unwritten v" "unfailed v"
  shows "\<exists>v' t. cacheResponses F i nxt q v s' = (Returned, v', t) \<and> gw_pools (gateway t) = gw_pools (gateway s')
    \<and> base_status (base_of v') = Some 200 \<and> base_body (base_of v') = base_body (base_of w')
    \<and> (\<forall>name. Header_Values (sent_header (base_of v')) name =
        (if CanonicalHeaderKey name = CanonicalHeaderKey CacheStatusHeader then [''HIT'']
         else if CanonicalHeaderKey name = CanonicalHeaderKey IDHeader then [RequestID q s']
         else case map_of (sent_header (base_of w')) (CanonicalHeaderKey name) of
                Some vs \<Rightarrow> vs | None \<Rightarrow> Header_Values (writer_Header v) name))"
proof -
  let ?key = "responseCacheKey (env_U E) r"
  obtain c1 where c1: "Cache_Get (at_lookup E) ?key c = (None, c1)" using assms(5) by (metis prod.collapse)
  then have wf1: "cache_wf c1" "ttl c1 = ttl c" using Get_refines(1) [OF assms(4)] Get_fields(1) by (metis snd_conv)+
  let ?h = "Header_Del CacheStatusHeader (Header_Del IDHeader (sent_header (base_of w')))"
  let ?stored = "(200, ?h, base_body (base_of w'))"
  have s': "i < length (gw_routes (gateway s'))" "responseCache (route_at i s') = Some (Cache_Set (at_store E) ?key ?stored c1)"
    using miss_stores [OF assms(1-3) c1 assms(6-12)] by simp_all
  have "fst (Cache_Get (at_lookup F) ?key (Cache_Set (at_store E) ?key ?stored c1)) = Some ?stored"
    using cache_store.put_same [OF wf1(1)] assms(16) wf1(2) by simp
  then obtain c2 where c2: "Cache_Get (at_lookup F) ?key (Cache_Set (at_store E) ?key ?stored c1) = (Some ?stored, c2)"
    by (metis prod.collapse)
  obtain ended err v' where wr: "writeCachedResponse (env_U F) ?stored (RequestID q s') v = (ended, err, v')"
    using prod_cases3 by blast
  have wfh: "gomap_wf ?h" using assms(13) by auto
  note replay = hit_replays [OF assms(17-19) wfh wr]
  have "cacheResponses F i nxt q v s' = (Returned, v', set_route i (responseCache_update (\<lambda>_. Some c2)) s')"
    using assms(14,15) s'(2) c2 wr replay by (simp add: cacheResponses_def Let_def)
  moreover have "Header_Values (sent_header (base_of v')) name =
      (if CanonicalHeaderKey name = CanonicalHeaderKey CacheStatusHeader then [''HIT'']
       else if CanonicalHeaderKey name = CanonicalHeaderKey IDHeader then [RequestID q s']
       else case map_of (sent_header (base_of w')) (CanonicalHeaderKey name) of
              Some vs \<Rightarrow> vs | None \<Rightarrow> Header_Values (writer_Header v) name)" for name
    using replay [of name] by (simp add: Header_Del_def delete_conv')
  ultimately show ?thesis using replay by simp
qed

definition sample_cached_gateway :: Gateway where
  "sample_cached_gateway =
    \<lparr>gw_routes = [\<lparr>pathPrefix = ''/'', route_pool = ''a'', limiter = None,
       responseCache = Some \<lparr>ttl = 10, maxEntries = 2, entries = [], recency = []\<rparr>, retryAfterHeader = '''', protected = False\<rparr>],
     gw_pools = [(''a'', \<lparr>balancer = \<lparr>backends = [\<lparr>url = ''http://h'', healthy = True, activeConnections = 0\<rparr>],
         strategy = RoundRobin, pool_next = 0\<rparr>, circuitBreaker = NewBreaker,
       upstreams = [\<lparr>backend_index = 0, target = sample_upstream_url\<rparr>],
       healthChecker = \<lparr>interval = 1, timeout = 1, path = ''/''\<rparr>\<rparr>)],
     requestTimeout = 1, gw_transport = None, gw_apiKeys = []\<rparr>"

lemma serveRoute_delivers:
  assumes "map_of (gw_pools (gateway s)) (route_pool (route_at i s)) = Some p"
    and "pool_acquire (at_acquire E) p = (Inr (u, permit), p')"
    and "ReverseProxy_ServeHTTP (env_proxy E) (target u) (RequestID r (SetBackend r (backendLogValue (target u)) s)) r w
      = (outcome, ended, w')"
  shows "\<exists>s'. serveRoute E i r w s = (ended, w', s')"
  using assms by (simp add: serveRoute_def Let_def)

lemma sample_pool_acquires:
  "\<exists>u permit p'. target u = sample_upstream_url \<and>
    pool_acquire 3 (snd (hd (gw_pools sample_cached_gateway))) = (Inr (u, permit), p')"
proof -
  have "case fst (pool_acquire 3 (snd (hd (gw_pools sample_cached_gateway)))) of Inr (u, permit) \<Rightarrow> target u = sample_upstream_url | Inl e \<Rightarrow> False"
    by code_simp
  then show ?thesis by (auto split: sum.splits prod.splits) (metis prod.collapse)
qed


lemma sample_miss_run:
  "\<exists>w' s'. cacheResponses sample_env 0 (serveRoute sample_env 0) (sample_get []) sample_client (sample_gateway_world sample_cached_gateway)
      = (Returned, w', s') \<and> base_status (base_of w') = Some 200 \<and> base_body (base_of w') = ''hello''
    \<and> map fst (sent_header (base_of w')) = [''X-Cache'', ''Content-Type'', ''X-Request-Id'', ''X-Gateway'']"
proof -
  let ?r = "sample_get []" and ?c = "\<lparr>ttl = 10, maxEntries = 2, entries = [], recency = []\<rparr> :: Header response_value Cache"
  let ?w = "Capturing new_capturing (update_header (Header_Set CacheStatusHeader ''MISS'') sample_client)"
  let ?s = "set_route 0 (responseCache_update (\<lambda>_. Some ?c)) (sample_gateway_world sample_cached_gateway)"
  have cacheable: "isCacheableRequest (env_U sample_env) ?r" by code_simp
  have cache: "responseCache (route_at 0 (sample_gateway_world sample_cached_gateway)) = Some ?c"
    by (simp add: sample_gateway_world_def sample_cached_gateway_def)
  have get: "Cache_Get (at_lookup sample_env) key ?c = (None, ?c)" for key by (simp add: Cache_Get_def)
  obtain u permit p' where u: "target u = sample_upstream_url"
    "pool_acquire 3 (snd (hd (gw_pools sample_cached_gateway))) = (Inr (u, permit), p')" using sample_pool_acquires by blast
  have pool: "map_of (gw_pools (gateway ?s)) (route_pool (route_at 0 ?s)) = Some (snd (hd (gw_pools sample_cached_gateway)))"
    by (simp add: set_route_def sample_gateway_world_def sample_cached_gateway_def)
  have w: "writer_ok (env_case sample_proxy_env) ?w" "unwritten ?w" "unfailed ?w"
    by (rule new_wrappers_ok) (simp_all add: unwritten_def sample_client_def sample_server_def base_ok_def new_capturing_def)
  have env: "env_proxy sample_env = sample_proxy_env" "at_acquire sample_env = 3" by (simp_all add: sample_env_def)
  obtain v where v: "ReverseProxy_ServeHTTP sample_proxy_env sample_upstream_url
      (RequestID ?r (SetBackend ?r (backendLogValue sample_upstream_url) ?s)) ?r ?w = (ProxyResponse 200, Returned, v)"
    "base_status (base_of v) = Some 200" "base_body (base_of v) = ''hello''"
    "sent_header (base_of v) = copyHeader (proxy_ModifyResponse (RequestID ?r (SetBackend ?r (backendLogValue sample_upstream_url) ?s))
      (removeHopByHopHeaders (res_header sample_response))) (writer_Header ?w)"
    using proxy_delivers [OF sample_proxy_facts(1,2) sample_proxy_facts(3-5) w,
      of sample_upstream_url "RequestID ?r (SetBackend ?r (backendLogValue sample_upstream_url) ?s)"] sample_proxy_facts(7,8)
    by (auto simp: sample_response_def announce_trailers_def)
  have id: "RequestID ?r t = ''''" for t by (simp add: RequestID_def current_def sample_get_def)
  have "map fst (copyHeader (proxy_ModifyResponse '''' (removeHopByHopHeaders (res_header sample_response))) (writer_Header ?w))
      = [''X-Cache'', ''Content-Type'', ''X-Request-Id'', ''X-Gateway'']" by code_simp
  then have keys: "map fst (sent_header (base_of v)) = [''X-Cache'', ''Content-Type'', ''X-Request-Id'', ''X-Gateway'']"
    using v(4) unfolding id by simp
  have "\<exists>s'. serveRoute sample_env 0 ?r ?w ?s = (Returned, v, s')"
    by (rule serveRoute_delivers [OF pool, of sample_env u permit p' ?r ?w "ProxyResponse 200"]) (use u v(1) env in simp_all)
  then obtain s' where run: "serveRoute sample_env 0 ?r ?w ?s = (Returned, v, s')" ..
  obtain k w1 where k: "v = Capturing k w1"
    using writes_wrapped(3) [OF calls_writerD [OF calls_serveRoute run]] by blast
  show ?thesis
    using cacheResponses_miss [OF cacheable cache get, of "serveRoute sample_env 0"] run v(2,3) keys k
    by (auto split: option.splits)
qed

theorem cached_response_replayed_witness:
  "\<exists>w' s' v' t. cacheResponses sample_env 0 (serveRoute sample_env 0) (sample_get []) sample_client (sample_gateway_world sample_cached_gateway)
      = (Returned, w', s')
    \<and> cacheResponses (sample_env\<lparr>at_lookup := 7\<rparr>) 0 (\<lambda>r w s. (Panicked ErrAbortHandler, w, s)) (sample_get []) sample_client s'
      = (Returned, v', t)
    \<and> base_body (base_of v') = ''hello'' \<and> Header_Values (sent_header (base_of v')) ''X-Cache'' = [''HIT'']"
proof -
  let ?c = "\<lparr>ttl = 10, maxEntries = 2, entries = [], recency = []\<rparr> :: Header response_value Cache"
  obtain w' s' where run: "cacheResponses sample_env 0 (serveRoute sample_env 0) (sample_get []) sample_client (sample_gateway_world sample_cached_gateway)
      = (Returned, w', s')" "base_status (base_of w') = Some 200" "base_body (base_of w') = ''hello''"
    "map fst (sent_header (base_of w')) = [''X-Cache'', ''Content-Type'', ''X-Request-Id'', ''X-Gateway'']"
    using sample_miss_run by (elim exE conjE) (rule that)
  have none: "map_of (sent_header (base_of w')) k = None" if "k \<notin> {''X-Cache'', ''Content-Type'', ''X-Request-Id'', ''X-Gateway''}" for k
    unfolding map_of_eq_None_iff set_map [symmetric] run(4) using that by simp
  have absent: "Header_Values (sent_header (base_of w')) k = []" if "CanonicalHeaderKey k \<notin> {''X-Cache'', ''Content-Type'', ''X-Request-Id'', ''X-Gateway''}" for k
    using none [OF that] by (simp add: Header_Values_def)
  have names: "CanonicalHeaderKey ''Set-Cookie'' = ''Set-Cookie''" "CanonicalHeaderKey ''Content-Range'' = ''Content-Range''"
    "CanonicalHeaderKey ''Content-Encoding'' = ''Content-Encoding''" by code_simp+
  have free: "\<not> responseHeadersPreventCaching (env_U sample_env) (sent_header (base_of w'))"
    by (simp add: responseHeadersPreventCaching_def cacheControlPreventsCaching_def Header_Get_def absent names)
  have cacheable: "isCacheableRequest (env_U (sample_env\<lparr>at_lookup := n\<rparr>)) (sample_get [])" "isCacheableRequest (env_U sample_env) (sample_get [])" for n
    by (simp add: sample_env_def sample_proxy_env_def) code_simp+
  have start: "0 < length (gw_routes (gateway (sample_gateway_world sample_cached_gateway)))"
    "responseCache (route_at 0 (sample_gateway_world sample_cached_gateway)) = Some ?c" "cache_wf ?c"
    "fst (Cache_Get (at_lookup sample_env) (responseCacheKey (env_U sample_env) (sample_get [])) ?c) = None"
    by (simp_all add: sample_gateway_world_def sample_cached_gateway_def cache_wf_def Cache_Get_def)
  have small: "length (base_body (base_of w')) \<le> maxCacheableResponseBytes" "gomap_wf (sent_header (base_of w'))"
    using run(3,4) by (simp_all add: maxCacheableResponseBytes_def gomap_wf_def)
  have key: "responseCacheKey (env_U (sample_env\<lparr>at_lookup := 7\<rparr>)) (sample_get []) = responseCacheKey (env_U sample_env) (sample_get [])"
    "at_lookup (sample_env\<lparr>at_lookup := 7\<rparr>) < at_store sample_env + ttl ?c"
    by (simp_all add: sample_env_def)
  note replay = cached_response_replayed [OF cacheable(2) start sample_client_facts(1-3) run(1,2) free small
    cacheable(1) [of 7] key sample_client_facts(1-3), of "\<lambda>r w s. (Panicked ErrAbortHandler, w, s)"]
  show ?thesis
    by (rule exI [of _ w'], rule exI [of _ s'], rule ex_forward [OF replay], elim ex_forward)
      (simp add: run(1,3) CacheStatusHeader_def)
qed

section \<open>Route policy\<close>

definition authorized :: "Gateway \<Rightarrow> Request \<Rightarrow> bool" where
  "authorized g r =
    (Header_Get (RequestHeader r) APIKeyHeader \<noteq> '''' \<and> Header_Get (RequestHeader r) APIKeyHeader \<in> set (gw_apiKeys g))"

definition limit_decision :: "request_env \<Rightarrow> Request \<Rightarrow> ClientLimiter \<Rightarrow> bool \<times> ClientLimiter" where
  "limit_decision E r l =
    ClientLimiter_Allow (at_limit E) (clientKeyFromRemoteAddr (env_ParseAddrPort E) (env_ParseAddr E) (RemoteAddr r)) l"

lemma Ensure_request:
  assumes "Ensure src r s = (r', s')"
  shows "RemoteAddr r' = RemoteAddr r" "requestURL r' = requestURL r" "Method r' = Method r"
    "Header_Get (RequestHeader r') APIKeyHeader = Header_Get (RequestHeader r) APIKeyHeader"
proof -
  have "CanonicalHeaderKey APIKeyHeader \<noteq> CanonicalHeaderKey IDHeader" by code_simp
  then show "RemoteAddr r' = RemoteAddr r" "requestURL r' = requestURL r" "Method r' = Method r"
    "Header_Get (RequestHeader r') APIKeyHeader = Header_Get (RequestHeader r) APIKeyHeader"
    using assms by (auto simp: Ensure_def Let_def split: if_splits)
qed

lemma rateLimit_refuses:
  assumes "limiter (route_at i s) = Some l" "\<not> fst (limit_decision E r l)"
    and "writer_ok (env_U E) w" "unwritten w" "write_faults (base_of w) = []"
  shows "\<exists>w'. rateLimit E i nxt r w s = (Returned, w', set_route i (limiter_update (\<lambda>_. Some (snd (limit_decision E r l)))) s)
    \<and> base_status (base_of w') = Some 429
    \<and> Header_Get (sent_header (base_of w')) ''Retry-After'' = retryAfterHeader (route_at i s)"
proof -
  let ?s = "set_route i (limiter_update (\<lambda>_. Some (snd (limit_decision E r l)))) s"
  have same: "retryAfterHeader (route_at i ?s) = retryAfterHeader (route_at i s)"
    by (cases "i < length (gw_routes (gateway s))") (simp_all add: set_route_def list_update_beyond)
  let ?w = "update_header (Header_Set ''Retry-After'' (retryAfterHeader (route_at i s))) w"
  have w: "writer_ok (env_U E) ?w" "unwritten ?w" "write_faults (base_of ?w) = []"
    using assms(3-5) by (auto simp: unwritten_def)
  have names: "CanonicalHeaderKey ''Retry-After'' \<noteq> CanonicalHeaderKey ''X-Content-Type-Options''"
    "CanonicalHeaderKey ''Retry-After'' \<noteq> CanonicalHeaderKey ''Content-Type''"
    "CanonicalHeaderKey ''Retry-After'' \<noteq> CanonicalHeaderKey ''Content-Length''" by code_simp+
  have "rateLimit E i nxt r w s = (Returned, http_Error (env_U E) ''rate limit exceeded'' 429 ?w, ?s)"
    using assms(1,2) same by (auto simp: rateLimit_def limit_decision_def Let_def split: prod.splits)
  then show ?thesis
    using http_Error_response [OF w(1,2) _ w(3), of 429 "''rate limit exceeded''"]
    by (simp add: error_headers_def writer_Header_def names)
qed

definition digests_distinct :: "request_env \<Rightarrow> Gateway \<Rightarrow> string \<Rightarrow> bool" where
  "digests_distinct E g key = (\<forall>k \<in> set (gw_apiKeys g). env_Sum256 E k = env_Sum256 E key \<longrightarrow> k = key)"

text \<open>The handler of a route without its authentication.\<close>

definition open_handler :: "request_env \<Rightarrow> nat \<Rightarrow> gateway_world \<Rightarrow> gateway_world handler" where
  "open_handler E i s =
    Chain ((if limiter (route_at i s) \<noteq> None then [rateLimit E i] else []) @
      (if responseCache (route_at i s) \<noteq> None then [cacheResponses E i] else [])) (serveRoute E i)"

lemma route_handler_open:
  "route_handler E i r w s =
    (if protected (route_at i s) then APIKeyAuth (env_U E) (env_Sum256 E) (gw_apiKeys (gateway s)) (open_handler E i s)
     else open_handler E i s) r w s"
  by (simp add: route_handler_def open_handler_def Let_def)

lemma unauthorized_refused:
  assumes "protected (route_at i s)" "\<not> authorized (gateway s) r"
    and "digests_distinct E (gateway s) (Header_Get (RequestHeader r) APIKeyHeader)"
    and "writer_ok (env_U E) w" "unwritten w" "write_faults (base_of w) = []"
  shows "\<exists>w'. route_handler E i r w s = (Returned, w', s) \<and> base_status (base_of w') = Some 401"
proof -
  have no_collision: "\<And>k. k \<in> set (gw_apiKeys (gateway s)) \<Longrightarrow>
      env_Sum256 E k = env_Sum256 E (Header_Get (RequestHeader r) APIKeyHeader) \<Longrightarrow> k = Header_Get (RequestHeader r) APIKeyHeader"
    using assms(3) by (simp add: digests_distinct_def)
  show ?thesis
    using api_key_required [where keys = "gw_apiKeys (gateway s)" and ?Sum256.0 = "env_Sum256 E" and r = r and nxt = "open_handler E i s" and s = s,
        OF assms(4-6) no_collision] assms(1,2)
    by (auto simp: route_handler_open authorized_def)
qed

lemma over_limit_refused:
  assumes "protected (route_at i s) \<longrightarrow> authorized (gateway s) r" "limiter (route_at i s) = Some l" "\<not> fst (limit_decision E r l)"
    and "digests_distinct E (gateway s) (Header_Get (RequestHeader r) APIKeyHeader)"
    and "writer_ok (env_U E) w" "unwritten w" "write_faults (base_of w) = []"
  shows "\<exists>w'. route_handler E i r w s = (Returned, w', set_route i (limiter_update (\<lambda>_. Some (snd (limit_decision E r l)))) s)
    \<and> base_status (base_of w') = Some 429
    \<and> Header_Get (sent_header (base_of w')) ''Retry-After'' = retryAfterHeader (route_at i s)"
proof -
  have no_collision: "\<And>k. k \<in> set (gw_apiKeys (gateway s)) \<Longrightarrow>
      env_Sum256 E k = env_Sum256 E (Header_Get (RequestHeader r) APIKeyHeader) \<Longrightarrow> k = Header_Get (RequestHeader r) APIKeyHeader"
    using assms(4) by (simp add: digests_distinct_def)
  obtain q where q: "route_handler E i r w s = open_handler E i s q w s" "RemoteAddr q = RemoteAddr r"
  proof (cases "protected (route_at i s)")
    case True
    then obtain q where "route_handler E i r w s = open_handler E i s q w s" "q\<lparr>RequestHeader := RequestHeader r\<rparr> = r"
      using api_key_required [where keys = "gw_apiKeys (gateway s)" and ?Sum256.0 = "env_Sum256 E" and r = r and nxt = "open_handler E i s" and s = s,
        OF assms(5-7) no_collision] assms(1)
      by (auto simp: route_handler_open authorized_def)
    moreover from this(2) have "RemoteAddr q = RemoteAddr r"
      by (metis Request.select_convs(7) Request.surjective Request.update_convs(3))
    ultimately show ?thesis using that by blast
  qed (use that in \<open>simp add: route_handler_open\<close>)
  have same: "limit_decision E q l = limit_decision E r l" using q(2) by (simp add: limit_decision_def)
  then show ?thesis
    using rateLimit_refuses [OF assms(2) _ assms(5-7), of q
        "Chain (if responseCache (route_at i s) \<noteq> None then [cacheResponses E i] else []) (serveRoute E i)"]
      assms(2,3) q(1) by (simp add: open_handler_def)
qed

text \<open>C7 (safety). The policy of a route comes before the route's resources. A request without a route is answered
  with 404; one without a valid key for a protected route with 401, and neither changes anything: no
  quota is used, no cache is read, no pool is touched. An authorized request over its client's limit is answered with
  429 and the time to wait, and changes only the limiter of its route.\<close>

theorem policy_before_resources:
  assumes "ServeHTTP E r w s = (ended, w', s')" "route = matchRoute (gw_routes (gateway s)) (Path (requestURL r))"
    and "writer_ok (env_U E) w" "unwritten w" "write_faults (base_of w) = []"
    and "digests_distinct E (gateway s) (Header_Get (RequestHeader r) APIKeyHeader)"
  shows "(route = None \<longrightarrow> ended = Returned \<and> base_status (base_of w') = Some 404 \<and> gateway s' = gateway s)
    \<and> (\<forall>i. route = Some i \<and> protected (route_at i s) \<and> \<not> authorized (gateway s) r \<longrightarrow>
        ended = Returned \<and> base_status (base_of w') = Some 401 \<and> gateway s' = gateway s)
    \<and> (\<forall>i l. route = Some i \<and> (protected (route_at i s) \<longrightarrow> authorized (gateway s) r) \<and>
          limiter (route_at i s) = Some l \<and> \<not> fst (limit_decision E r l) \<longrightarrow>
        ended = Returned \<and> base_status (base_of w') = Some 429
        \<and> Header_Get (sent_header (base_of w')) ''Retry-After'' = retryAfterHeader (route_at i s)
        \<and> gateway s' = (gateway s)\<lparr>gw_routes := (gw_routes (gateway s))[i := (route_at i s)\<lparr>limiter := Some (snd (limit_decision E r l))\<rparr>]\<rparr>)"
proof -
  obtain r0 s0 where e: "Ensure (env_ids E) r s = (r0, s0)" by fastforce
  note g = gateway_Ensure [OF e] and r0 = Ensure_request [OF e]
  let ?w = "update_header (Header_Set IDHeader (RequestID r0 s0)) w"
  let ?s = "\<lambda>i. SetRoute r0 (pathPrefix (route_at i s)) s0"
  have w: "writer_ok (env_U E) ?w" "unwritten ?w" "write_faults (base_of ?w) = []"
    using assms(3-5) by (auto simp: unwritten_def)
  have run: "ServeHTTP E r w s = (case route of
      None \<Rightarrow> (Returned, http_Error (env_U E) ''no route configured for request path'' 404 ?w, s0)
    | Some i \<Rightarrow> route_handler E i r0 ?w (?s i))"
    by (simp add: ServeHTTP_def e g r0 assms(2) split: option.split)
  have none: "ended = Returned \<and> base_status (base_of w') = Some 404 \<and> gateway s' = gateway s" if "route = None"
    using assms(1) that http_Error_response(1) [OF w(1,2) _ w(3), of 404] g by (auto simp: run is_informational_def)
  have same: "digests_distinct E (gateway (?s i)) (Header_Get (RequestHeader r0) APIKeyHeader)"
    "authorized (gateway s) r0 = authorized (gateway s) r" "route_at j (?s i) = route_at j s"
    "limit_decision E r0 l = limit_decision E r l" for i j l
    using assms(6) by (simp_all add: g r0 authorized_def limit_decision_def)
  have refused: "ended = Returned \<and> base_status (base_of w') = Some 401 \<and> gateway s' = gateway s"
    if "route = Some i" "protected (route_at i s)" "\<not> authorized (gateway s) r" for i
    using unauthorized_refused [OF _ _ same(1) w, of i i] that assms(1) g by (auto simp: run same)
  have limited: "ended = Returned \<and> base_status (base_of w') = Some 429
      \<and> Header_Get (sent_header (base_of w')) ''Retry-After'' = retryAfterHeader (route_at i s)
      \<and> gateway s' = (gateway s)\<lparr>gw_routes := (gw_routes (gateway s))[i := (route_at i s)\<lparr>limiter := Some (snd (limit_decision E r l))\<rparr>]\<rparr>"
    if "route = Some i" "protected (route_at i s) \<longrightarrow> authorized (gateway s) r" "limiter (route_at i s) = Some l"
      "\<not> fst (limit_decision E r l)" for i l
    using over_limit_refused [OF _ _ _ same(1) w, of i i l] that assms(1) g
    by (auto simp: run same set_route_def)
  show ?thesis using none refused limited by blast
qed


definition sample_protected_gateway :: Gateway where
  "sample_protected_gateway =
    \<lparr>gw_routes = [\<lparr>pathPrefix = ''/'', route_pool = ''a'', limiter = Some sample_limiter, responseCache = None,
       retryAfterHeader = ''1'', protected = True\<rparr>],
     gw_pools = [], requestTimeout = 1, gw_transport = None, gw_apiKeys = [''k'']\<rparr>"

theorem policy_before_resources_witness:
  "\<exists>w' s'. ServeHTTP sample_env (sample_get []) (Base (sample_server\<lparr>write_faults := []\<rparr>))
      (sample_gateway_world sample_protected_gateway) = (Returned, w', s')
    \<and> base_status (base_of w') = Some 401 \<and> gateway s' = sample_protected_gateway"
proof -
  let ?s = "sample_gateway_world sample_protected_gateway"
  let ?w = "Base (sample_server\<lparr>write_faults := []\<rparr>)"
  obtain ended w' s' where run: "ServeHTTP sample_env (sample_get []) ?w ?s = (ended, w', s')" using prod_cases3 by blast
  have w: "writer_ok (env_U sample_env) ?w" "unwritten ?w" "write_faults (base_of ?w) = []"
    by (simp_all add: sample_server_def base_ok_def unwritten_def)
  have "matchRoute (gw_routes (gateway ?s)) (Path (requestURL (sample_get []))) = Some 0"
    by (simp add: sample_gateway_world_def sample_protected_gateway_def sample_get_def matchRoute_def prefixMatches_def)
  moreover have "\<not> authorized (gateway ?s) (sample_get [])"
    by (simp add: authorized_def sample_get_def Header_Get_def Header_Values_def)
  ultimately show ?thesis
    using policy_before_resources [OF run refl w] run
    by (auto simp: sample_env_def sample_gateway_world_def sample_protected_gateway_def digests_distinct_def)
qed

end
