(* ===== verification/Server.thy ===== *)
theory Server
  imports Request_Path
begin

text \<open>
  The handler the process serves, \<^verbatim>\<open>newGatewayHandler\<close> of \<^verbatim>\<open>src/cmd/gateway/main.go\<close>: panic recovery around a
  request multiplexer, with the scrape and probe endpoints and, for every other path, logging, metrics
  and CORS around the gateway.

  \<^verbatim>\<open>http.ServeMux\<close> is modelled for patterns without wildcards, methods and hosts, as they are used here:
  it cleans the path, redirects a request whose path is not clean, and otherwise picks the handler of
  the literal pattern or of \<^verbatim>\<open>/\<close>. Writing a redirect and the Prometheus scrape handler are arguments; the
  latter is given what was recorded and the breaker samples.
\<close>

section \<open>The multiplexer\<close>

definition clean_segments :: "string list \<Rightarrow> string list" where
  "clean_segments segs =
    foldl (\<lambda>out seg. if seg = '''' \<or> seg = ''.'' then out else if seg = ''..'' then butlast out else out @ [seg]) [] segs"

text \<open>\<^verbatim>\<open>path.Clean\<close> on a path that starts with a slash.\<close>

definition path_Clean :: "string \<Rightarrow> string" where
  "path_Clean p = CHR ''/'' # Join (clean_segments (Split p CHR ''/'')) ''/''"

definition cleanPath :: "string \<Rightarrow> string" where
  "cleanPath p =
    (if p = '''' then ''/''
     else
       let p = (if hd p \<noteq> CHR ''/'' then CHR ''/'' # p else p);
           np = path_Clean p
       in if last p = CHR ''/'' \<and> np \<noteq> ''/'' then np @ ''/'' else np)"

definition literal_matches :: "string \<Rightarrow> string \<Rightarrow> bool" where
  "literal_matches pattern p =
    (case p of
       [] \<Rightarrow> False
     | c # seg \<Rightarrow> c = CHR ''/'' \<and> CHR ''/'' \<notin> set seg \<and>
         CHR ''/'' # (case unescape seg of Some s \<Rightarrow> s | None \<Rightarrow> seg) = pattern)"

datatype mux_outcome = MuxPattern string | MuxRedirect string | MuxNotFound | MuxBadRequest

definition mux_lookup :: "string list \<Rightarrow> string \<Rightarrow> mux_outcome" where
  "mux_lookup patterns p =
    (case filter (\<lambda>pattern. pattern \<noteq> ''/'' \<and> literal_matches pattern p) patterns of
       pattern # _ \<Rightarrow> MuxPattern pattern
     | [] \<Rightarrow> if ''/'' \<in> set patterns \<and> HasPrefix p ''/'' then MuxPattern ''/'' else MuxNotFound)"

definition ServeMux_match :: "string list \<Rightarrow> Request \<Rightarrow> mux_outcome" where
  "ServeMux_match patterns r =
    (let p = EscapedPath (requestURL r)
     in if Path (requestURL r) = ''*'' then MuxBadRequest
        else if Method r = ''CONNECT'' then
          (if p = '''' \<and> ''/'' \<in> set patterns then MuxRedirect ''//'' else mux_lookup patterns p)
        else if cleanPath p \<noteq> p then MuxRedirect (cleanPath p)
        else mux_lookup patterns p)"

definition ServeMux_ServeHTTP ::
  "unicode_case \<Rightarrow> (string \<Rightarrow> 's handler) \<Rightarrow> (string, 's handler) gomap \<Rightarrow> 's handler" where
  "ServeMux_ServeHTTP U redirect handlers r w s =
    (case ServeMux_match (map fst handlers) r of
       MuxBadRequest \<Rightarrow> (Returned, WriteHeader U 400 (update_header (Header_Set ''Connection'' ''close'') w), s)
     | MuxRedirect p \<Rightarrow> redirect p r w s
     | MuxNotFound \<Rightarrow> (Returned, http_Error U ''404 page not found'' 404 w, s)
     | MuxPattern pattern \<Rightarrow> the (map_of handlers pattern) r w s)"

section \<open>The handler\<close>

record 's handler_env =
  he_case :: unicode_case
  he_ids :: id_source
  he_quote :: "string \<Rightarrow> string"
  log_startedAt :: time
  log_finishedAt :: time
  met_startedAt :: time
  met_finishedAt :: time
  he_promhttp :: "metric_call list \<Rightarrow> (float64 \<times> string \<times> string) list \<Rightarrow> 's handler"
  he_redirect :: "string \<Rightarrow> 's handler"

definition cors_options :: "CORSConfig \<Rightarrow> CORSOptions" where
  "cors_options c =
    \<lparr>optAllowedOrigins = AllowedOrigins c, optAllowedMethods = AllowedMethods c, optAllowedHeaders = AllowedHeaders c,
     optExposedHeaders = ExposedHeaders c, optAllowCredentials = AllowCredentials c, optMaxAge = MaxAge c\<rparr>"

definition gatewayPath ::
  "('a measured_world_scheme) handler_env \<Rightarrow> Config \<Rightarrow> 'a measured_world_scheme middleware" where
  "gatewayPath H cfg =
    Chain [RequestLogger (he_ids H) (log_startedAt H) (log_finishedAt H),
           Instrument (met_startedAt H) (met_finishedAt H),
           CORS (he_case H) (cors_options (cfgCORS cfg))]"

text \<open>The gateway is an HTTP handler that may also report breaker states and unavailable pools.\<close>

definition newGatewayHandler ::
  "('a measured_world_scheme) handler_env \<Rightarrow> Config \<Rightarrow> 'a measured_world_scheme handler \<Rightarrow>
   ('a measured_world_scheme \<Rightarrow> (string, State) gomap) option \<Rightarrow>
   ('a measured_world_scheme \<Rightarrow> string list) option \<Rightarrow> 'a measured_world_scheme handler" where
  "newGatewayHandler H cfg gw breakerStates readiness =
    (let samples = (\<lambda>s. case breakerStates of None \<Rightarrow> [] | Some states \<Rightarrow> Collect_states (states s));
         router = ServeMux_ServeHTTP (he_case H) (he_redirect H)
           [(''/metrics'', \<lambda>r w s. he_promhttp H (metric_calls s) (samples s) r w s),
            (''/healthz'', HealthHandler (he_case H) (he_quote H)),
            (''/readyz'', ReadinessHandler (he_case H) (he_quote H) readiness),
            (''/'', gatewayPath H cfg gw)]
     in Recovery (he_case H) router)"

text \<open>The handler of the process, around the gateway.\<close>

definition gatex_handler :: "gateway_world handler_env \<Rightarrow> Config \<Rightarrow> request_env \<Rightarrow> gateway_world handler" where
  "gatex_handler H cfg E =
    newGatewayHandler H cfg (ServeHTTP E) (Some (\<lambda>s. CircuitBreakerStates (gateway s))) (Some (\<lambda>s. UnavailablePools (gateway s)))"


section \<open>Observability\<close>

text \<open>What the layers around the gateway rely on: it uses its writer only by calling it, it leaves the
  measurements alone, logs no completion of its own, does not change the identifier of a request
  that has one, and records the route it matched and no other.\<close>

definition is_completion :: "log_event \<Rightarrow> bool" where
  "is_completion e = (case e of RequestCompleted _ \<Rightarrow> True | _ \<Rightarrow> False)"

definition quiet_step :: "'a measured_world_scheme \<Rightarrow> 'a measured_world_scheme \<Rightarrow> bool" where
  "quiet_step s s' =
    (metric_calls s' = metric_calls s \<and>
     map meta_requestID (metadata_store s') = map meta_requestID (metadata_store s) \<and>
     map meta_route (metadata_store s') = map meta_route (metadata_store s) \<and>
     (\<exists>es. log_events s' = log_events s @ es \<and> filter is_completion es = []))"

definition quiet :: "'a measured_world_scheme handler \<Rightarrow> bool" where
  "quiet h = (\<forall>r w s. current r \<noteq> None \<longrightarrow> quiet_step s (snd (snd (h r w s))))"

lemma quiet_step_refl [simp]: "quiet_step s s"
  by (simp add: quiet_step_def)

lemma quiet_step_trans: "quiet_step s s' \<Longrightarrow> quiet_step s' s'' \<Longrightarrow> quiet_step s s''"
  by (auto simp: quiet_step_def)

lemma quietD: "quiet h \<Longrightarrow> h r w s = (ended, w', s') \<Longrightarrow> current r \<noteq> None \<Longrightarrow> quiet_step s s'"
  unfolding quiet_def by (metis snd_conv)

lemma quiet_from: "quiet h \<Longrightarrow> current r \<noteq> None \<Longrightarrow> quiet_step s0 s \<Longrightarrow> quiet_step s0 (snd (snd (h r w s)))"
  unfolding quiet_def using quiet_step_trans by blast

lemma map_field_update: "f m = f (xs ! p) \<Longrightarrow> map f (xs[p := m]) = map f xs"
  by (cases "p < length xs") (metis list_update_id map_update nth_map, simp add: list_update_beyond)

lemma quiet_step_gateway [simp]:
  "quiet_step s (set_route i f s)" "quiet_step s (set_pool name p s)"
  by (simp_all add: quiet_step_def set_route_def set_pool_def)

lemma quiet_step_meta [simp]: "quiet_step s (SetBackend r b s)"
  by (simp add: quiet_step_def SetBackend_def map_field_update split: option.splits)

lemma quiet_step_emit: "\<not> is_completion e \<Longrightarrow> quiet_step s (emit e s)"
  by (simp add: quiet_step_def emit_def)

lemma SetRoute_records [simp]:
  "metric_calls (SetRoute r p s) = metric_calls s" "log_events (SetRoute r p s) = log_events s"
  by (simp_all add: SetRoute_def split: option.splits)

lemma quiet_serveRoute: "quiet (serveRoute E i)"
  unfolding quiet_def
  by (auto simp: serveRoute_def Let_def quiet_step_trans [OF quiet_step_meta quiet_step_gateway(2)]
    split: option.splits prod.splits sum.splits)

lemma quiet_APIKeyAuth: "quiet nxt \<Longrightarrow> quiet (APIKeyAuth U Sum256 keys nxt)"
  by (auto simp: quiet_def APIKeyAuth_def Let_def current_def)

lemma quiet_rateLimit: "quiet nxt \<Longrightarrow> quiet (rateLimit E i nxt)"
  unfolding quiet_def [of "rateLimit E i nxt"]
  by (auto simp: rateLimit_def Let_def split: option.splits prod.splits intro: quiet_from)

lemma quiet_cacheResponses:
  assumes "quiet nxt"
  shows "quiet (cacheResponses E i nxt)"
  unfolding quiet_def [of "cacheResponses E i nxt"]
proof (intro allI impI)
  fix r w s
  assume cur: "current r \<noteq> None"
  have inner: "quiet_step s s1" "quiet_step s (set_route i g s1)"
    if "nxt r v (set_route i f s) = (ended, v', s1)" for v f ended v' s1 g
  proof -
    show "quiet_step s s1" using quiet_step_trans [OF _ quietD [OF assms that cur]] by simp
    then show "quiet_step s (set_route i g s1)" by (rule quiet_step_trans) simp
  qed
  have logged: "quiet_step s (emit (CachedWriteFailed m) (set_route i f s))" for m f
    by (rule quiet_step_trans [OF _ quiet_step_emit]) (simp_all add: is_completion_def)
  show "quiet_step s (snd (snd (cacheResponses E i nxt r w s)))"
    using quiet_from [OF assms cur quiet_step_refl] inner logged
    by (auto simp: cacheResponses_def Let_def split: option.splits prod.splits)
qed

lemma quiet_route_handler: "quiet (route_handler E i)"
  unfolding quiet_def [of "route_handler E i"]
proof (intro allI impI)
  fix r w s
  assume cur: "current r \<noteq> None"
  define ms where "ms =
    (if protected (route_at i s) then [APIKeyAuth (env_U E) (env_Sum256 E) (gw_apiKeys (gateway s))] else []) @
    (if limiter (route_at i s) \<noteq> None then [rateLimit E i] else []) @
    (if responseCache (route_at i s) \<noteq> None then [cacheResponses E i] else [])"
  have "quiet (Chain ms (serveRoute E i))"
    by (simp add: ms_def quiet_APIKeyAuth quiet_rateLimit quiet_cacheResponses quiet_serveRoute)
  then show "quiet_step s (snd (snd (route_handler E i r w s)))"
    unfolding route_handler_def Let_def ms_def [symmetric] using cur by (rule quiet_from) simp
qed

definition note_route :: "string option \<Rightarrow> Request \<Rightarrow> 'a world_scheme \<Rightarrow> 'a world_scheme" where
  "note_route rt r s = (case rt of None \<Rightarrow> s | Some pre \<Rightarrow> SetRoute r pre s)"

definition matched_prefix :: "Request \<Rightarrow> gateway_world \<Rightarrow> string option" where
  "matched_prefix r s =
    map_option (\<lambda>i. pathPrefix (route_at i s)) (matchRoute (gw_routes (gateway s)) (Path (requestURL r)))"

lemma ServeHTTP_notes_route:
  assumes "ServeHTTP E r w s = (ended, w', s')" "current r \<noteq> None"
  shows "quiet_step (note_route (matched_prefix r s) r s) s'"
proof -
  have ens: "Ensure (env_ids E) r s = (r, s)" using assms(2) by (simp add: Ensure_def)
  have "quiet_step (SetRoute r p s) s'" if "route_handler E i r v (SetRoute r p s) = (ended, w', s')" for i v p
    using quietD [OF quiet_route_handler that assms(2)] .
  then show ?thesis
    using assms(1) ens
    by (cases "matchRoute (gw_routes (gateway s)) (Path (requestURL r))")
      (auto simp: ServeHTTP_def note_route_def matched_prefix_def)
qed

lemma uses_cors_writer: "uses_writer U w (ended, cors_writer U options r w, s)"
  by (auto simp: cors_writer_def Let_def refused_http_Error refused_WriteHeader
    intro!: writes_update writes_trans [OF _ writes_calls(2)] writes_trans [OF _ writes_http_Error])

lemma calls_CORS:
  assumes nxt: "calls_writer U nxt"
  shows "calls_writer U (CORS U options nxt)"
proof (cases "optAllowedOrigins options = []")
  case True
  then show ?thesis using nxt by (simp add: CORS_def makeStringSet_def Let_def)
next
  case False
  have w: "writes U w (cors_writer U options r w)" "refused (base_of (cors_writer U options r w)) = refused (base_of w)" for r w
    using uses_cors_writer [of U w Returned options r undefined] by simp_all
  have "uses_writer U w (nxt r (cors_writer U options r w) s)" for r w s
    by (rule uses_writer_start [OF calls_writer_use [OF nxt]]) (use w in simp_all)
  then show ?thesis unfolding calls_writer_def by (simp add: CORS_writer [OF False] uses_cors_writer del: uses_writer_iff)
qed

lemma quiet_step_reads:
  assumes "quiet_step s s'" "meta_ok r s"
  shows "RequestID r s' = RequestID r s" "Route r s' = Route r s"
proof -
  obtain p where p: "current r = Some p" "p < length (metadata_store s)"
    using assms(2) by (auto simp: meta_ok_def split: option.splits)
  have ids: "map meta_requestID (metadata_store s') = map meta_requestID (metadata_store s)"
    and routes: "map meta_route (metadata_store s') = map meta_route (metadata_store s)"
    using assms(1) by (auto simp: quiet_step_def)
  have "length (metadata_store s') = length (metadata_store s)" using map_eq_imp_length_eq [OF ids] .
  then show "RequestID r s' = RequestID r s" "Route r s' = Route r s"
    using p arg_cong [OF ids, of "\<lambda>xs. xs ! p"] arg_cong [OF routes, of "\<lambda>xs. xs ! p"]
    by (simp_all add: RequestID_def Route_def)
qed

text \<open>The requests that CORS answers itself.\<close>

definition cors_answers :: "CORSOptions \<Rightarrow> Request \<Rightarrow> bool" where
  "cors_answers options r =
    (optAllowedOrigins options \<noteq> [] \<and> Header_Get (RequestHeader r) ''Origin'' \<noteq> '''' \<and> preflight r)"

locale observed_handler =
  fixes U :: unicode_case and gw :: "'a measured_world_scheme handler"
    and route_of :: "Request \<Rightarrow> 'a measured_world_scheme \<Rightarrow> string option"
  assumes gw_calls: "calls_writer U gw"
    and gw_notes: "gw r w s = (ended, w', s') \<Longrightarrow> current r \<noteq> None \<Longrightarrow> quiet_step (note_route (route_of r s) r s) s'"
begin

lemma CORS_notes:
  assumes "CORS U options gw r w s = (ended, w', s')" "current r \<noteq> None"
  shows "quiet_step (note_route (if cors_answers options r then None else route_of r s) r s) s'"
proof (cases "optAllowedOrigins options = []")
  case True
  then show ?thesis using assms gw_notes by (simp add: CORS_def makeStringSet_def cors_answers_def Let_def)
next
  case False
  then show ?thesis
    using assms gw_notes by (auto simp: CORS_writer cors_answers_def note_route_def split: if_splits)
qed

lemma measured_path:
  assumes "meta_ok r s" "Route r s = ''''" "rt = (if cors_answers options r then None else route_of r s)"
    and "Instrument startedAt finishedAt (CORS U options gw) r w s = (ended, v, s')"
  shows "\<exists>m. writes U (Measuring new_measuring w) (Measuring m v)
    \<and> metric_calls s' = metric_calls s @ measurements r (case rt of None \<Rightarrow> '''' | Some pre \<Rightarrow> pre)
      (noted_status ended (met_wroteHeader m) (met_statusCode m)) (time_Sub finishedAt startedAt)
    \<and> (\<exists>es. log_events s' = log_events s @ es \<and> filter is_completion es = []) \<and> RequestID r s' = RequestID r s"
proof -
  have cur: "current r \<noteq> None" using assms(1) by (auto simp: meta_ok_def split: option.splits)
  obtain en v2 s2 where inner: "CORS U options gw r (Measuring new_measuring w) s = (en, v2, s2)" using prod_cases3 by blast
  note calls = calls_CORS [OF gw_calls]
  from Instrument_measures [OF calls inner, of startedAt finishedAt] assms(4) obtain m where
    s': "en = ended" "v2 = Measuring m v" "s' = s2\<lparr>metric_calls := metric_calls s2 @ measurements r (Route r s2)
      (noted_status en (met_wroteHeader m) (met_statusCode m)) (time_Sub finishedAt startedAt)\<rparr>" by auto
  have wr: "writes U (Measuring new_measuring w) (Measuring m v)" using calls_writerD [OF calls inner] s'(2) by simp
  have quiet: "quiet_step (note_route rt r s) s2" using CORS_notes [OF inner cur] assms(3) by simp
  have noted: "metric_calls (note_route rt r s) = metric_calls s" "log_events (note_route rt r s) = log_events s"
    "RequestID r (note_route rt r s) = RequestID r s" "meta_ok r (note_route rt r s)"
    "Route r (note_route rt r s) = (case rt of None \<Rightarrow> '''' | Some pre \<Rightarrow> pre)"
    using assms(1,2) by (simp_all add: note_route_def metadata_set_get [OF assms(1)] split: option.splits)
  have reads: "RequestID r s2 = RequestID r s" "Route r s2 = (case rt of None \<Rightarrow> '''' | Some pre \<Rightarrow> pre)"
    using quiet_step_reads [OF quiet noted(4)] noted by simp_all
  then have "RequestID r s' = RequestID r s" unfolding s' by (simp add: RequestID_def split: option.splits)
  then show ?thesis using wr quiet noted s' reads by (intro exI [of _ m]) (auto simp: quiet_step_def)
qed

text \<open>One request through the logger, the recorder and CORS.\<close>

lemma path_observed:
  assumes "writer_ok U w" "unwritten w" "he_case H = U" "current r = None"
    and "Ensure (he_ids H) r s = (r0, s0)" "gatewayPath H cfg gw r w s = (ended, w', s')"
    and "rt = (if cors_answers (cors_options (cfgCORS cfg)) r0 then None else route_of r0 s0)"
  shows "\<exists>es e. log_events s' = log_events s @ es \<and> filter is_completion es = [RequestCompleted e]
    \<and> log_method e = Method r \<and> log_path e = Path (requestURL r)
    \<and> log_request_id e = incomingOrNewID (he_ids H) (Header_Get (RequestHeader r) IDHeader)
    \<and> metric_calls s' = metric_calls s @ measurements r (case rt of None \<Rightarrow> '''' | Some pre \<Rightarrow> pre)
        (log_status e) (time_Sub (met_finishedAt H) (met_startedAt H))
    \<and> writes U w w'
    \<and> (on_record (base_of w) (base_of w') \<longrightarrow> log_status e = client_status ended (base_of w') \<and>
        log_response_bytes e = int64_add 0 (int (length (base_body (base_of w')))) \<and> writer_ok U w')"
proof -
  let ?measured = "Instrument (met_startedAt H) (met_finishedAt H) (CORS U (cors_options (cfgCORS cfg)) gw)"
  have r0: "Method r0 = Method r" "metric_calls s0 = metric_calls s" "log_events s0 = log_events s"
    "RequestID r0 s0 = incomingOrNewID (he_ids H) (Header_Get (RequestHeader r) IDHeader)" "meta_ok r0 s0" "Route r0 s0 = ''''"
    using assms(4,5) by (auto simp: Ensure_def Let_def current_def RequestID_def meta_ok_def Route_def)
  let ?w = "Logging new_logging (update_header (Header_Set IDHeader (RequestID r0 s0)) w)"
  have w: "writer_ok U ?w" by (rule new_wrappers_ok) (use assms(1,2) in \<open>simp_all add: unwritten_def\<close>)
  obtain en v s2 where inner: "?measured r0 ?w s0 = (en, v, s2)" using prod_cases3 by blast
  from measured_path [OF r0(5,6) assms(7) inner] obtain m es where
    obs: "writes U (Measuring new_measuring ?w) (Measuring m v)"
      "metric_calls s2 = metric_calls s0 @ measurements r0 (case rt of None \<Rightarrow> '''' | Some pre \<Rightarrow> pre)
        (noted_status en (met_wroteHeader m) (met_statusCode m)) (time_Sub (met_finishedAt H) (met_startedAt H))"
      "log_events s2 = log_events s0 @ es" "filter is_completion es = []" "RequestID r0 s2 = RequestID r0 s0" by blast
  have calls: "calls_writer U ?measured" by (intro calls_Instrument calls_CORS gw_calls)
  from RequestLogger_logs [OF calls assms(5) inner, of "log_startedAt H" "log_finishedAt H"] assms(3,6) obtain l ev where
    log: "v = Logging l w'" "s' = s2\<lparr>log_events := log_events s2 @ [RequestCompleted ev]\<rparr>" "ended = en" "writes U w w'"
      "log_status ev = noted_status en (log_wroteHeader l) (log_statusCode l)" "log_response_bytes ev = bytesWritten l"
      "log_method ev = Method r" "log_path ev = Path (requestURL r)" "log_request_id ev = RequestID r0 s2"
    unfolding gatewayPath_def Chain_Cons Chain_Nil by auto
  have "in_step (Measuring m v)"
    by (rule in_step_writes [OF obs(1)]) (simp add: in_step_def new_measuring_def new_logging_def)
  then have status: "noted_status en (met_wroteHeader m) (met_statusCode m) = log_status ev" using log by (simp add: in_step_def)
  have wr: "writes U ?w v" using writes_wrapped(2) [OF obs(1)] by auto
  have "logging_ok l (base_of w') \<and> writer_ok U w'" if "on_record (base_of w) (base_of w')"
  proof -
    have "on_record (base_of ?w) (base_of v)" using that log(1) by (simp add: on_record_def)
    from writes_ok [OF wr w this] show ?thesis using log(1) by simp
  qed
  then have rec: "log_status ev = client_status ended (base_of w') \<and>
      log_response_bytes ev = int64_add 0 (int (length (base_body (base_of w')))) \<and> writer_ok U w'"
    if "on_record (base_of w) (base_of w')"
    using that log(3,5,6) noted_client(1) by (auto simp: logging_ok_def)
  have same: "measurements r0 = measurements r" by (simp add: measurements_def r0(1) fun_eq_iff)
  show ?thesis
    by (rule exI [of _ "es @ [RequestCompleted ev]"], rule exI [of _ ev])
      (use log obs r0 same status rec in \<open>simp add: is_completion_def\<close>)
qed

end

interpretation gatex: observed_handler "env_U E" "ServeHTTP E" matched_prefix for E
  by unfold_locales (rule calls_ServeHTTP, rule ServeHTTP_notes_route)

definition served_patterns :: "string list" where
  "served_patterns = [''/metrics'', ''/healthz'', ''/readyz'', ''/'']"

lemma mux_lookup_pattern: "mux_lookup patterns p = MuxPattern q \<Longrightarrow> q \<in> set patterns"
proof (cases "filter (\<lambda>pattern. pattern \<noteq> ''/'' \<and> literal_matches pattern p) patterns")
  case (Cons x xs)
  then have "x \<in> set patterns" by (metis filter_is_subset list.set_intros(1) subsetD)
  then show "mux_lookup patterns p = MuxPattern q \<Longrightarrow> ?thesis" using Cons by (simp add: mux_lookup_def)
qed (auto simp: mux_lookup_def split: if_splits)

lemma handler_dispatch:
  "newGatewayHandler H cfg gw states readiness r w s =
    Recovery (he_case H) (case ServeMux_match served_patterns r of
        MuxBadRequest \<Rightarrow> \<lambda>r w s. (Returned, WriteHeader (he_case H) 400 (update_header (Header_Set ''Connection'' ''close'') w), s)
      | MuxRedirect p \<Rightarrow> he_redirect H p
      | MuxNotFound \<Rightarrow> \<lambda>r w s. (Returned, http_Error (he_case H) ''404 page not found'' 404 w, s)
      | MuxPattern p \<Rightarrow>
          if p = ''/metrics'' then \<lambda>r w s. he_promhttp H (metric_calls s)
            (case states of None \<Rightarrow> [] | Some f \<Rightarrow> Collect_states (f s)) r w s
          else if p = ''/healthz'' then HealthHandler (he_case H) (he_quote H)
          else if p = ''/readyz'' then ReadinessHandler (he_case H) (he_quote H) readiness
          else gatewayPath H cfg gw) r w s"
proof -
  note defs = newGatewayHandler_def Recovery_def ServeMux_ServeHTTP_def Let_def
  have patterns: "map fst [(''/metrics'', h1), (''/healthz'', h2), (''/readyz'', h3), (''/'', h4)] = served_patterns"
    for h1 h2 h3 h4 :: "'a measured_world_scheme handler" by (simp add: served_patterns_def)
  show ?thesis
  proof (cases "ServeMux_match served_patterns r")
    case (MuxPattern p)
    then have "p \<in> set served_patterns"
      by (auto simp: ServeMux_match_def Let_def split: if_splits dest: mux_lookup_pattern)
    then consider "p = ''/metrics''" | "p = ''/healthz''" | "p = ''/readyz''" | "p = ''/''"
      by (auto simp: served_patterns_def)
    then show ?thesis unfolding defs patterns by cases (simp_all add: MuxPattern)
  qed (unfold defs patterns, simp_all)
qed

lemma Recovery_status:
  assumes "nxt r w s = (ended, w1, s1)" "Recovery U nxt r w s = (final, w', s')"
  shows "(final = Returned \<or> (\<exists>p. final = Panicked p \<and> is_abort p)) \<and> metric_calls s' = metric_calls s1
    \<and> (\<exists>es. log_events s' = log_events s1 @ es \<and> filter is_completion es = []) \<and> writes U w1 w'
    \<and> (final = Returned \<and> writer_ok U w1 \<longrightarrow> client_status Returned (base_of w') = client_status ended (base_of w1))"
proof -
  have "base_status (base_of (http_Error U m 500 w1)) = Some (case base_status (base_of w1) of None \<Rightarrow> 500 | Some c \<Rightarrow> c)"
    if "writer_ok U w1" for m
    by (auto simp: http_Error_base [OF that] base_WriteHeader_def is_informational_def base_Write_def Let_def
      split: option.splits list.splits)
  then show ?thesis
    using assms
    by (auto simp: Recovery_def emit_def is_completion_def client_status_def split: flow.splits if_splits option.splits)
qed


definition sample_handler_env :: "gateway_world handler_env" where
  "sample_handler_env =
    \<lparr>he_case = env_U sample_env, he_ids = sample_source, he_quote = (\<lambda>s. [CHR 0x22] @ s @ [CHR 0x22]),
     log_startedAt = 1, log_finishedAt = 4, met_startedAt = 2, met_finishedAt = 3,
     he_promhttp = (\<lambda>calls samples r w s. (Returned, w, s)), he_redirect = (\<lambda>p r w s. (Returned, w, s))\<rparr>"

lemma sample_match: "ServeMux_match served_patterns (sample_get []) = MuxPattern ''/''"
  by code_simp


section \<open>Probes\<close>

lemma writeHealthResponse_sends:
  assumes "writer_ok U w" "unwritten w" "unfailed w" "Method r = ''GET''" "200 \<le> status \<and> status \<le> 999"
  shows "base_status (base_of (writeHealthResponse U quote r status answer w)) = Some status
    \<and> Some (base_body (base_of (writeHealthResponse U quote r status answer w))) =
        map_option (\<lambda>body. body @ [CHR 0x0A]) (json_Marshal quote answer)
    \<and> Header_Get (sent_header (base_of (writeHealthResponse U quote r status answer w))) ''Cache-Control'' = ''no-store''"
proof -
  obtain body where body: "json_Marshal quote answer = Some body" by (simp add: json_Marshal_def)
  let ?h = "\<lambda>h. Header_Set ''Content-Type'' ''application/json'' (Header_Set ''Cache-Control'' ''no-store'' h)"
  let ?calls = "[ChangeHeader (Header_Set ''Cache-Control'' ''no-store''),
    ChangeHeader (Header_Set ''Content-Type'' ''application/json''), SendStatus status, SendBody (body @ [CHR 0x0A])]"
  have "writeHealthResponse U quote r status answer w = foldl (writer_exec U) w ?calls"
    using assms(4) body by (simp add: writeHealthResponse_def)
  then have base: "base_of (writeHealthResponse U quote r status answer w) = foldl server_exec (base_of w) ?calls"
    using writer_exec_run [OF assms(1), of ?calls] assms(5) writer_ok_base [OF assms(1)]
    by (simp add: on_record_def base_ok_def valid_status_def)
  have faults: "write_faults (base_of w) = []" using assms(3) by (induction w) auto
  have name: "CanonicalHeaderKey ''Cache-Control'' \<noteq> CanonicalHeaderKey ''Content-Type''" by code_simp
  show ?thesis unfolding base
    using assms(2,5) writer_ok_base [OF assms(1)] faults name body
    by (simp add: base_WriteHeader_def base_Write_def unwritten_def base_ok_def valid_status_def is_informational_def)
qed

text \<open>C29 (functional). Readiness is exact: a probe of \<^verbatim>\<open>/readyz\<close> changes nothing and answers 200 when every configured
  pool has a closed breaker and a healthy backend, and otherwise 503 with the sorted names of
  the pools that are not available. The answer must not be cached.\<close>

theorem readiness_is_exact:
  assumes "gomap_wf (gw_pools (gateway s))" "writer_ok (he_case H) w" "unwritten w" "unfailed w"
    and "Method r = ''GET''" "Path (requestURL r) = ''/readyz''" "RawPath (requestURL r) = ''''"
    and "available = (\<lambda>p. state (circuitBreaker p) = StateClosed \<and> (\<exists>b \<in> set (backends (balancer p)). healthy b))"
    and "down = sorted_list_of_set {name. \<exists>p. map_of (gw_pools (gateway s)) name = Some p \<and> \<not> available p}"
  shows "\<exists>w'. gatex_handler H cfg E r w s = (Returned, w', s)
    \<and> base_status (base_of w') = Some (if down = [] then 200 else 503)
    \<and> Some (base_body (base_of w')) = map_option (\<lambda>body. body @ [CHR 0x0A]) (json_Marshal (he_quote H)
        \<lparr>health_Status = (if down = [] then ''ready'' else ''not_ready''), health_UnavailablePools = down\<rparr>)
    \<and> Header_Get (sent_header (base_of w')) ''Cache-Control'' = ''no-store''"
proof -
  have "EscapedPath (requestURL r) = EscapedPath (requestURL (sample_get [])\<lparr>Path := ''/readyz''\<rparr>)"
    by (rule EscapedPath_cong) (simp_all add: assms(6,7) sample_get_def)
  also have "\<dots> = ''/readyz''" by code_simp
  finally have esc: "EscapedPath (requestURL r) = ''/readyz''" .
  have "cleanPath ''/readyz'' = ''/readyz''" "mux_lookup served_patterns ''/readyz'' = MuxPattern ''/readyz''" by code_simp+
  then have route: "ServeMux_match served_patterns r = MuxPattern ''/readyz''"
    using assms(5,6) esc by (simp add: ServeMux_match_def)
  note exact = pools_reported [OF assms(1)]
  have "finite {name. \<exists>p. map_of (gw_pools (gateway s)) name = Some p \<and> \<not> available p}"
    by (rule finite_subset [OF _ finite_dom_map_of [of "gw_pools (gateway s)"]]) auto
  then have down: "UnavailablePools (gateway s) = down"
    unfolding assms(9) using exact by (intro sorted_distinct_set_unique) (auto simp: assms(8))
  let ?ready = "writeHealthResponse (he_case H) (he_quote H) r (if down = [] then 200 else 503)
    \<lparr>health_Status = (if down = [] then ''ready'' else ''not_ready''), health_UnavailablePools = down\<rparr> w"
  have "sort down = down" using exact(1) unfolding down by (simp add: sorted_sort_id)
  then have "gatex_handler H cfg E r w s = (Returned, ?ready, s)"
    using assms(5) by (simp add: gatex_handler_def handler_dispatch route Recovery_def ReadinessHandler_def
      allowsProbeMethod_def down)
  then show ?thesis
    using writeHealthResponse_sends [OF assms(2-5)] by simp
qed

theorem readiness_is_exact_witness:
  "\<exists>w'. gatex_handler sample_handler_env sample_cfg sample_env
      ((sample_get [])\<lparr>requestURL := (requestURL (sample_get []))\<lparr>Path := ''/readyz''\<rparr>\<rparr>)
      (Base (sample_server\<lparr>write_faults := []\<rparr>)) (sample_gateway_world (sample_gateway [''b'', ''a'']))
    = (Returned, w', sample_gateway_world (sample_gateway [''b'', ''a''])) \<and> base_status (base_of w') = Some 503"
proof -
  let ?s = "sample_gateway_world (sample_gateway [''b'', ''a''])"
  let ?r = "(sample_get [])\<lparr>requestURL := (requestURL (sample_get []))\<lparr>Path := ''/readyz''\<rparr>\<rparr>"
  let ?w = "Base (sample_server\<lparr>write_faults := []\<rparr>)"
  let ?up = "\<lambda>p. state (circuitBreaker p) = StateClosed \<and> (\<exists>b \<in> set (backends (balancer p)). healthy b)"
  have start: "gomap_wf (gw_pools (gateway ?s))" "writer_ok (he_case sample_handler_env) ?w" "unwritten ?w" "unfailed ?w"
    "Method ?r = ''GET''" "Path (requestURL ?r) = ''/readyz''" "RawPath (requestURL ?r) = ''''"
    by (simp_all add: sample_gateway_world_def sample_gateway_def gomap_wf_def sample_handler_env_def sample_server_def base_ok_def
      unwritten_def sample_get_def)
  have "{name. \<exists>p. map_of (gw_pools (gateway ?s)) name = Some p \<and> \<not> ?up p} = {''a'', ''b''}"
    by (auto simp: sample_gateway_world_def sample_gateway_def sample_empty_pool_def split: if_splits)
  then have "sorted_list_of_set {name. \<exists>p. map_of (gw_pools (gateway ?s)) name = Some p \<and> \<not> ?up p} \<noteq> []"
    by simp
  with readiness_is_exact [OF start refl refl, of sample_cfg sample_env] show ?thesis by auto
qed

text \<open>A request whose path is not clean is redirected by the multiplexer. It is neither logged nor measured,
  although the description of the gateway promises a log event for every request.\<close>

lemma redirected_request_not_logged:
  assumes "ServeMux_match served_patterns r = MuxRedirect p" "he_redirect H p r w s = (Returned, w', s)"
  shows "gatex_handler H cfg E r w s = (Returned, w', s)"
  using assms by (simp add: gatex_handler_def handler_dispatch Recovery_def)

lemma unclean_path_redirected:
  "ServeMux_match served_patterns ((sample_get [])\<lparr>requestURL := (requestURL (sample_get []))\<lparr>Path := ''/a//b/../c''\<rparr>\<rparr>) = MuxRedirect ''/a/c''"
  by code_simp


section \<open>The pools\<close>

text \<open>The layers around the gateway do not touch the pools.\<close>

lemma gateway_records [simp]:
  "gateway (logCompletedRequest r l status d s) = gateway s" "gateway (observe r status d s) = gateway s"
  by (simp_all add: logCompletedRequest_def emit_def observe_measurements)

lemma runs_CORS: "runs_pools nxt \<Longrightarrow> runs_pools (CORS U options nxt)"
proof (cases "optAllowedOrigins options = []")
  case True
  then show "runs_pools nxt \<Longrightarrow> ?thesis" by (simp add: CORS_def makeStringSet_def Let_def)
qed (simp add: runs_pools_def CORS_writer pools_ran_same)

lemma runs_Instrument: "runs_pools nxt \<Longrightarrow> runs_pools (Instrument startedAt finishedAt nxt)"
  unfolding runs_pools_def [of "Instrument startedAt finishedAt nxt"]
  by (auto simp: Instrument_def Let_def pools_ran_def split: prod.splits dest!: runs_poolsD [OF _ _ refl])

lemma runs_RequestLogger:
  assumes "runs_pools nxt"
  shows "runs_pools (RequestLogger src startedAt finishedAt nxt)"
  unfolding runs_pools_def [of "RequestLogger src startedAt finishedAt nxt"]
proof (intro allI)
  fix r w and s :: gateway_world
  obtain r0 s0 where e: "Ensure src r s = (r0, s0)" by fastforce
  obtain ended v s1 where run: "nxt r0 (update_header (Header_Set IDHeader (RequestID r0 s0)) (Logging new_logging w)) s0 = (ended, v, s1)"
    using prod_cases3 by blast
  have "pools_ran s s1" using runs_poolsD [OF assms run, of s] gateway_Ensure [OF e] by simp
  then show "pools_ran s (snd (snd (RequestLogger src startedAt finishedAt nxt r w s)))"
    using e run unfolding RequestLogger_def by (simp add: pools_ran_def Let_def split: prod.splits)
qed

text \<open>One request to the process, with what it finds in its environment. The scrape handler and the redirect only
  write a response.\<close>

type_synonym served = "gateway_world handler_env \<times> request_env \<times> Request \<times> writer"

definition serve :: "Config \<Rightarrow> gateway_world \<Rightarrow> served \<Rightarrow> gateway_world" where
  "serve cfg s q = (case q of (H, E, r, w) \<Rightarrow> snd (snd (gatex_handler H cfg E r w s)))"

definition only_writes :: "served \<Rightarrow> bool" where
  "only_writes q = (case q of (H, E, r, w) \<Rightarrow>
    (\<forall>calls samples v s. snd (snd (he_promhttp H calls samples r v s)) = s) \<and> (\<forall>p v s. snd (snd (he_redirect H p r v s)) = s))"

lemma Recovery_pools:
  assumes "pools_ran s (snd (snd (nxt r w s)))"
  shows "pools_ran s (snd (snd (Recovery U nxt r w s)))"
  using assms by (auto simp: Recovery_def pools_ran_def split: flow.splits prod.splits)

lemma serve_runs_pools: "only_writes q \<Longrightarrow> pools_ran s (serve cfg s q)"
proof -
  assume plain: "only_writes q"
  obtain H E r w where q: "q = (H, E, r, w)" using prod_cases4 by blast
  have path: "runs_pools (gatewayPath H cfg (ServeHTTP E))"
    unfolding gatewayPath_def Chain_Cons Chain_Nil
    by (intro runs_RequestLogger runs_Instrument runs_CORS runs_ServeHTTP)
  have state: "snd (snd (HealthHandler U j r v t)) = t" "snd (snd (ReadinessHandler U j src r v t)) = t"
    for U j src v and t :: gateway_world
    by (auto simp: HealthHandler_def ReadinessHandler_def Let_def split: prod.splits bool.splits option.splits)
  show ?thesis
    unfolding serve_def q prod.case gatex_handler_def handler_dispatch
    by (rule Recovery_pools)
      (use plain path state in \<open>auto simp: q only_writes_def runs_pools_def pools_ran_same split: mux_outcome.split\<close>)
qed

interpretation server: request_server "serve cfg" only_writes for cfg
  by unfold_locales (rule serve_runs_pools)

end
