(* ===== verification/Process.thy ===== *)
theory Process
  imports Server
begin

text \<open>
  The life of the process: \<^verbatim>\<open>main\<close> of \<^verbatim>\<open>src/cmd/gateway/main.go\<close>, the health-check goroutines that the gateway
  starts (\<^verbatim>\<open>StartHealthChecks\<close>, \<^verbatim>\<open>WaitForHealthChecks\<close> and \<^verbatim>\<open>CloseIdleConnections\<close> of
  \<^verbatim>\<open>src/internal/proxy/gateway.go\<close>, \<^verbatim>\<open>Start\<close> and \<^verbatim>\<open>Run\<close> of \<^verbatim>\<open>src/internal/balancer/health_checker.go\<close>), and the
  shutdown.

  Start-up is a function. The running process is a transition system whose steps are those of the
  main goroutine, of the health-check loops and of the goroutines that wait for a loop to end, in any
  order. The HTTP server is represented by its outcome: that it failed or was closed, and whether
  draining the requests succeeded in time.
\<close>

section \<open>State\<close>

text \<open>A loop before its first check, in its \<^verbatim>\<open>select\<close>, after it returned and closed its channel, and after
  the goroutine that waits for the channel has called \<^verbatim>\<open>Done\<close>.\<close>

datatype loop_state = LoopStarted | LoopSelecting | LoopReturned | LoopCounted

datatype main_pc = Selecting | Shutdown | ForceClose | StopChecks | WaitChecks | CloseIdle | Exited int

record http_server =
  server_Addr :: string
  ReadHeaderTimeout :: duration
  server_IdleTimeout :: duration

record process =
  proc_pc :: main_pc
  proc_server :: http_server
  proc_gateway :: Gateway
  healthCheckOnce :: bool
  healthChecksDone :: nat
  proc_loops :: "(string \<times> loop_state) list"
  ctx_cancelled :: bool
  idle_closed :: bool

section \<open>Start-up\<close>

definition configPathFromEnvironment :: "(string \<Rightarrow> string option) \<Rightarrow> string" where
  "configPathFromEnvironment lookup =
    (case lookup ''GATEX_CONFIG'' of
       Some pth \<Rightarrow> if TrimSpace pth \<noteq> '''' then pth else ''configs/gateway.example.yaml''
     | None \<Rightarrow> ''configs/gateway.example.yaml'')"

definition StartHealthChecks :: "process \<Rightarrow> process" where
  "StartHealthChecks s =
    (if healthCheckOnce s then s
     else s\<lparr>healthCheckOnce := True,
            proc_loops := proc_loops s @ map (\<lambda>(name, p). (name, LoopStarted)) (gw_pools (proc_gateway s)),
            healthChecksDone := healthChecksDone s + length (gw_pools (proc_gateway s))\<rparr>)"

datatype StartupError = FatalConfiguration LoadError | FatalGateway GatewayError

definition main_start ::
  "(string \<Rightarrow> URL option) \<Rightarrow> unicode_case \<Rightarrow> time \<Rightarrow> config_source \<Rightarrow> string option \<Rightarrow> StartupError + process" where
  "main_start parse U now src flag =
    (let configPath = (case flag of Some pth \<Rightarrow> pth | None \<Rightarrow> configPathFromEnvironment (src_LookupEnv src))
     in case Load parse U src configPath of
          Inl e \<Rightarrow> Inl (FatalConfiguration e)
        | Inr cfg \<Rightarrow>
            (case NewGateway parse U now cfg of
               Inl e \<Rightarrow> Inl (FatalGateway e)
             | Inr g \<Rightarrow>
                 Inr (StartHealthChecks
                   \<lparr>proc_pc = Selecting,
                    proc_server = \<lparr>server_Addr = ListenAddress cfg, ReadHeaderTimeout = 5 * Second,
                      server_IdleTimeout = timeoutIdleConnection (cfgTimeouts cfg)\<rparr>,
                    proc_gateway = g, healthCheckOnce = False, healthChecksDone = 0, proc_loops = [],
                    ctx_cancelled = False, idle_closed = False\<rparr>)))"

lemma main_start_gateway:
  assumes "main_start parse U now src flag = Inr s"
    and "Load parse U src (case flag of Some pth \<Rightarrow> pth | None \<Rightarrow> configPathFromEnvironment (src_LookupEnv src)) = Inr cfg"
  shows "NewGateway parse U now cfg = Inr (proc_gateway s)" "Validate parse U cfg = None"
proof -
  show "NewGateway parse U now cfg = Inr (proc_gateway s)"
    using assms by (auto simp: main_start_def StartHealthChecks_def Let_def split: sum.splits)
  show "Validate parse U cfg = None" using assms(2) by (auto simp: Load_def split: option.splits sum.splits)
qed

section \<open>Steps\<close>

definition check_pool :: "string \<Rightarrow> (nat \<Rightarrow> ProbeWorld) \<Rightarrow> nat list \<Rightarrow> Gateway \<Rightarrow> Gateway" where
  "check_pool name probes order g =
    (case map_of (gw_pools g) name of
       None \<Rightarrow> g
     | Some p \<Rightarrow> g\<lparr>gw_pools := AList.update name
         (p\<lparr>balancer := HealthChecker_Check (healthChecker p) probes order (balancer p)\<rparr>) (gw_pools g)\<rparr>)"

definition set_loop :: "nat \<Rightarrow> loop_state \<Rightarrow> process \<Rightarrow> process" where
  "set_loop k st s = s\<lparr>proc_loops := (proc_loops s)[k := (fst (proc_loops s ! k), st)]\<rparr>"

definition CloseIdleConnections :: "process \<Rightarrow> process" where
  "CloseIdleConnections s = (if gw_transport (proc_gateway s) \<noteq> None then s\<lparr>idle_closed := True\<rparr> else s)"

text \<open>The steps of a health-check loop and of the goroutine that waits for it.\<close>

inductive loop_step :: "process \<Rightarrow> process \<Rightarrow> bool" where
  first_check: "k < length (proc_loops s) \<Longrightarrow> proc_loops s ! k = (name, LoopStarted) \<Longrightarrow>
    loop_step s (set_loop k LoopSelecting (s\<lparr>proc_gateway := check_pool name probes order (proc_gateway s)\<rparr>))"
| tick: "k < length (proc_loops s) \<Longrightarrow> proc_loops s ! k = (name, LoopSelecting) \<Longrightarrow>
    loop_step s (s\<lparr>proc_gateway := check_pool name probes order (proc_gateway s)\<rparr>)"
| stop: "k < length (proc_loops s) \<Longrightarrow> proc_loops s ! k = (name, LoopSelecting) \<Longrightarrow> ctx_cancelled s \<Longrightarrow>
    loop_step s (set_loop k LoopReturned s)"
| counted: "k < length (proc_loops s) \<Longrightarrow> proc_loops s ! k = (name, LoopReturned) \<Longrightarrow>
    loop_step s (set_loop k LoopCounted (s\<lparr>healthChecksDone := healthChecksDone s - 1\<rparr>))"

text \<open>The steps of the main goroutine. Every return runs the deferred \<^verbatim>\<open>stopHealthChecks\<close>; a fatal error
  ends the process at once.\<close>

inductive main_step :: "process \<Rightarrow> process \<Rightarrow> bool" where
  server_failed: "proc_pc s = Selecting \<Longrightarrow> main_step s (s\<lparr>proc_pc := Exited 1\<rparr>)"
| server_closed: "proc_pc s = Selecting \<Longrightarrow> main_step s (s\<lparr>proc_pc := Exited 0, ctx_cancelled := True\<rparr>)"
| received_signal: "proc_pc s = Selecting \<Longrightarrow> main_step s (s\<lparr>proc_pc := Shutdown\<rparr>)"
| drained: "proc_pc s = Shutdown \<Longrightarrow> main_step s (s\<lparr>proc_pc := StopChecks\<rparr>)"
| drain_failed: "proc_pc s = Shutdown \<Longrightarrow> main_step s (s\<lparr>proc_pc := ForceClose\<rparr>)"
| force_closed: "proc_pc s = ForceClose \<Longrightarrow> main_step s (s\<lparr>proc_pc := StopChecks\<rparr>)"
| stop_checks: "proc_pc s = StopChecks \<Longrightarrow> main_step s (s\<lparr>proc_pc := WaitChecks, ctx_cancelled := True\<rparr>)"
| waited: "proc_pc s = WaitChecks \<Longrightarrow> healthChecksDone s = 0 \<Longrightarrow> main_step s (s\<lparr>proc_pc := CloseIdle\<rparr>)"
| close_idle: "proc_pc s = CloseIdle \<Longrightarrow> main_step s ((CloseIdleConnections s)\<lparr>proc_pc := Exited 0\<rparr>)"

definition process_step :: "process \<Rightarrow> process \<Rightarrow> bool" where
  "process_step s s' = (main_step s s' \<or> (\<forall>c. proc_pc s \<noteq> Exited c) \<and> loop_step s s')"

inductive process_reachable :: "process \<Rightarrow> bool" where
  start: "main_start parse U now src flag = Inr s \<Longrightarrow> process_reachable s"
| step: "process_reachable s \<Longrightarrow> process_step s s' \<Longrightarrow> process_reachable s'"

inductive_cases loop_stepE: "loop_step s s'"
inductive_cases main_stepE: "main_step s s'"

section \<open>Invariant\<close>

text \<open>The wait group counts the loops whose end has not been counted yet; once the main goroutine is past its
  wait, all have been.\<close>

definition process_inv :: "process \<Rightarrow> bool" where
  "process_inv s =
    (healthChecksDone s = length (filter (\<lambda>l. snd l \<noteq> LoopCounted) (proc_loops s)) \<and>
     map fst (proc_loops s) = map fst (gw_pools (proc_gateway s)) \<and> gw_transport (proc_gateway s) \<noteq> None \<and>
     (proc_pc s \<in> {WaitChecks, CloseIdle} \<longrightarrow> ctx_cancelled s) \<and>
     (proc_pc s = CloseIdle \<longrightarrow> healthChecksDone s = 0) \<and>
     (idle_closed s \<longrightarrow> proc_pc s = Exited 0 \<and> healthChecksDone s = 0))"

lemma check_pool_names [simp]: "map fst (gw_pools (check_pool name probes order g)) = map fst (gw_pools g)"
proof -
  have "map fst (AList.update k v xs) = map fst xs" if "map_of xs k \<noteq> None" for k :: string and v :: pool and xs
    using that by (induction xs) (auto split: if_splits)
  then show ?thesis by (simp add: check_pool_def split: option.splits)
qed

lemma check_pool_transport [simp]: "gw_transport (check_pool name probes order g) = gw_transport g"
  by (simp add: check_pool_def split: option.splits)

lemma set_loop_fields [simp]:
  "proc_gateway (set_loop k st s) = proc_gateway s" "proc_pc (set_loop k st s) = proc_pc s"
  "healthChecksDone (set_loop k st s) = healthChecksDone s" "ctx_cancelled (set_loop k st s) = ctx_cancelled s"
  "idle_closed (set_loop k st s) = idle_closed s" "length (proc_loops (set_loop k st s)) = length (proc_loops s)"
  "map fst (proc_loops (set_loop k st s)) = map fst (proc_loops s)"
  by (simp_all add: set_loop_def map_update)
    (metis list_update_beyond list_update_id map_update not_le nth_map length_map)

lemma uncounted_set_loop:
  assumes "k < length (proc_loops s)"
  shows "length (filter (\<lambda>l. snd l \<noteq> LoopCounted) (proc_loops (set_loop k st s))) +
      (if snd (proc_loops s ! k) \<noteq> LoopCounted then 1 else 0) =
    length (filter (\<lambda>l. snd l \<noteq> LoopCounted) (proc_loops s)) + (if st \<noteq> LoopCounted then 1 else 0)"
  using assms filter_count_update [of k "proc_loops s" "\<lambda>l. snd l \<noteq> LoopCounted" "(fst (proc_loops s ! k), st)"]
  by (simp add: set_loop_def)


lemma process_inv_loop:
  assumes "process_inv s" "loop_step s s'" "\<forall>c. proc_pc s \<noteq> Exited c"
  shows "process_inv s'"
  using assms(2)
proof (cases rule: loop_step.cases)
  case (first_check k name probes order)
  let ?s = "s\<lparr>proc_gateway := check_pool name probes order (proc_gateway s)\<rparr>"
  show ?thesis using first_check assms(1) uncounted_set_loop [of k ?s LoopSelecting] by (auto simp: process_inv_def)
next
  case (tick k name probes order)
  then show ?thesis using assms(1) by (auto simp: process_inv_def)
next
  case (stop k name)
  then show ?thesis using assms(1) uncounted_set_loop [of k s LoopReturned] by (auto simp: process_inv_def)
next
  case (counted k name)
  let ?s = "s\<lparr>healthChecksDone := healthChecksDone s - 1\<rparr>"
  show ?thesis using counted assms(1,3) uncounted_set_loop [of k ?s LoopCounted]
    by (auto simp: process_inv_def)
qed

lemma process_inv_main: "process_inv s \<Longrightarrow> main_step s s' \<Longrightarrow> process_inv s'"
  by (erule main_stepE) (auto simp: process_inv_def CloseIdleConnections_def)

lemma process_inv_step: "process_inv s \<Longrightarrow> process_step s s' \<Longrightarrow> process_inv s'"
  unfolding process_step_def using process_inv_main process_inv_loop by blast

lemma NewGateway_transport: "NewGateway parse U now cfg = Inr g \<Longrightarrow> gw_transport g \<noteq> None"
  by (auto simp: NewGateway_def NewGatewayWithTransport_def split: option.splits sum.splits)

lemma process_inv_start: "main_start parse U now src flag = Inr s \<Longrightarrow> process_inv s"
  using NewGateway_transport by (fastforce simp: main_start_def Let_def StartHealthChecks_def process_inv_def filter_map comp_def case_prod_beta
    split: sum.splits)

lemma process_reachable_inv: "process_reachable s \<Longrightarrow> process_inv s"
  by (induction rule: process_reachable.induct) (auto intro: process_inv_start process_inv_step)

section \<open>Shutdown\<close>


text \<open>Steps of the process, in sequence.\<close>

abbreviation process_steps :: "process \<Rightarrow> process \<Rightarrow> bool" where
  "process_steps \<equiv> process_step\<^sup>*\<^sup>*"

lemma loop_ends:
  assumes "proc_pc s = WaitChecks" "ctx_cancelled s" "k < length (proc_loops s)"
  shows "\<exists>s'. process_steps s s' \<and> proc_pc s' = WaitChecks \<and> ctx_cancelled s' \<and> snd (proc_loops s' ! k) = LoopCounted
    \<and> length (proc_loops s') = length (proc_loops s) \<and> (\<forall>j. j \<noteq> k \<longrightarrow> proc_loops s' ! j = proc_loops s ! j)"
proof -
  define good where "good t \<longleftrightarrow> process_steps s t \<and> proc_pc t = WaitChecks \<and> ctx_cancelled t
    \<and> length (proc_loops t) = length (proc_loops s) \<and> (\<forall>j. j \<noteq> k \<longrightarrow> proc_loops t ! j = proc_loops s ! j)" for t
  have next_state: "\<exists>t'. good t' \<and> snd (proc_loops t' ! k) = st'"
    if t: "good t" and st: "snd (proc_loops t ! k) = st" and pair: "(st, st') \<in>
      {(LoopStarted, LoopSelecting), (LoopSelecting, LoopReturned), (LoopReturned, LoopCounted)}" for t st st'
  proof -
    obtain name where k: "k < length (proc_loops t)" "proc_loops t ! k = (name, st)"
      using t st assms(3) by (metis good_def prod.collapse)
    have step: "good t'" if "loop_step t t'" "proc_pc t' = proc_pc t" "ctx_cancelled t' = ctx_cancelled t"
      "length (proc_loops t') = length (proc_loops t)" "\<forall>j. j \<noteq> k \<longrightarrow> proc_loops t' ! j = proc_loops t ! j" for t'
      using t that unfolding good_def by (auto simp: process_step_def intro: rtranclp.rtrancl_into_rtrancl)
    have upd: "proc_loops (set_loop k x u) ! j = (if j = k then (fst (proc_loops u ! k), x) else proc_loops u ! j)"
      if "k < length (proc_loops u)" for x u j using that by (simp add: set_loop_def nth_list_update)
    consider "st = LoopStarted" "st' = LoopSelecting" | "st = LoopSelecting" "st' = LoopReturned"
      | "st = LoopReturned" "st' = LoopCounted" using pair by auto
    then show ?thesis
    proof cases
      case 1
      with k loop_step.first_check [of k t name undefined "[]"] show ?thesis
        by (intro exI [of _ "set_loop k LoopSelecting (t\<lparr>proc_gateway := check_pool name undefined [] (proc_gateway t)\<rparr>)"]
          conjI step) (auto simp: upd)
    next
      case 2
      with k t loop_step.stop [of k t name] show ?thesis
        by (intro exI [of _ "set_loop k LoopReturned t"] conjI step) (auto simp: upd good_def)
    next
      case 3
      with k loop_step.counted [of k t name] show ?thesis
        by (intro exI [of _ "set_loop k LoopCounted (t\<lparr>healthChecksDone := healthChecksDone t - 1\<rparr>)"] conjI step) (auto simp: upd)
    qed
  qed
  have "good s" using assms by (simp add: good_def)
  then have "\<exists>t. good t \<and> snd (proc_loops t ! k) = LoopCounted"
    using next_state by (cases "snd (proc_loops s ! k)") (metis insertI1 insertI2)+
  then show ?thesis unfolding good_def by blast
qed

lemma loops_end:
  assumes "proc_pc s = WaitChecks" "ctx_cancelled s"
  shows "\<exists>s'. process_steps s s' \<and> proc_pc s' = WaitChecks \<and> ctx_cancelled s' \<and> length (proc_loops s') = length (proc_loops s)
    \<and> (\<forall>j < n. j < length (proc_loops s) \<longrightarrow> snd (proc_loops s' ! j) = LoopCounted)"
proof (induction n)
  case 0
  then show ?case using assms by blast
next
  case (Suc n)
  then obtain t where t: "process_steps s t" "proc_pc t = WaitChecks" "ctx_cancelled t" "length (proc_loops t) = length (proc_loops s)"
    "\<forall>j < n. j < length (proc_loops s) \<longrightarrow> snd (proc_loops t ! j) = LoopCounted" by blast
  show ?case
  proof (cases "n < length (proc_loops t)")
    case True
    from loop_ends [OF t(2,3) this] t show ?thesis by (metis less_Suc_eq rtranclp_trans)
  next
    case False
    then show ?thesis using t by (metis less_Suc_eq)
  qed
qed

lemma process_reachable_steps: "process_steps s s' \<Longrightarrow> process_reachable s \<Longrightarrow> process_reachable s'"
  by (induction rule: rtranclp.induct) (auto intro: process_reachable.step)

lemma main_steps: "process_steps t u \<Longrightarrow> main_step u t' \<Longrightarrow> process_steps t t'"
  by (auto simp: process_step_def intro: rtranclp.rtrancl_into_rtrancl)

lemmas one_main_step = main_steps [OF rtranclp.rtrancl_refl]

lemma wait_ends:
  assumes "process_reachable t" "proc_pc t = WaitChecks"
  shows "\<exists>t'. process_steps t t' \<and> proc_pc t' = CloseIdle"
proof -
  have "ctx_cancelled t" using process_reachable_inv [OF assms(1)] assms(2) by (simp add: process_inv_def)
  from loops_end [OF assms(2) this, of "length (proc_loops t)"] obtain u where
    u: "process_steps t u" "proc_pc u = WaitChecks" "\<forall>l \<in> set (proc_loops u). snd l = LoopCounted"
    by (metis in_set_conv_nth)
  have "process_inv u" using process_reachable_inv [OF process_reachable_steps [OF u(1) assms(1)]] .
  then have "healthChecksDone u = 0" using u(3) by (simp add: process_inv_def filter_empty_conv)
  from main_steps [OF u(1) main_step.waited [OF u(2) this]] show ?thesis by fastforce
qed

lemma shutdown_reaches_close:
  assumes "process_reachable s" "proc_pc s \<in> {Shutdown, ForceClose, StopChecks, WaitChecks, CloseIdle}"
  shows "\<exists>t. process_steps s t \<and> proc_pc t = CloseIdle"
proof -
  have stop: "\<exists>t'. process_steps t t' \<and> proc_pc t' = WaitChecks" if "proc_pc t = StopChecks" for t
    using one_main_step [OF main_step.stop_checks [OF that]] by fastforce
  have drain: "\<exists>t'. process_steps t t' \<and> proc_pc t' = StopChecks" if "proc_pc t = Shutdown \<or> proc_pc t = ForceClose" for t
    using that one_main_step [OF main_step.drained] one_main_step [OF main_step.force_closed] by fastforce
  show ?thesis
    using assms wait_ends stop drain process_reachable_steps rtranclp_trans [of process_step]
    by (auto intro: rtranclp.rtrancl_refl) (meson+)
qed

text \<open>C28 (liveness). A shutdown can always be completed: once the process has received its signal it can get to a
  normal exit with the idle connections closed, whether or not the requests drained in time. The main goroutine does not wait for
  something that cannot happen, because every health-check loop can still end and be counted.\<close>

theorem shutdown_completes:
  assumes "process_reachable s" "proc_pc s \<in> {Shutdown, ForceClose, StopChecks, WaitChecks, CloseIdle}"
  shows "\<exists>s'. process_steps s s' \<and> proc_pc s' = Exited 0 \<and> idle_closed s'"
proof -
  obtain t where t: "process_steps s t" "proc_pc t = CloseIdle" using shutdown_reaches_close [OF assms] by blast
  have "gw_transport (proc_gateway t) \<noteq> None"
    using process_reachable_inv [OF process_reachable_steps [OF t(1) assms(1)]] by (simp add: process_inv_def)
  then show ?thesis using main_steps [OF t(1) main_step.close_idle [OF t(2)]] by (auto simp: CloseIdleConnections_def)
qed

section \<open>A loaded configuration starts\<close>

text \<open>C30 (error). Start-up fails only on the configuration: the process stops with an error exactly when loading the configuration fails,
  and then with that error; creating the gateway from a loaded configuration
  never fails. A process that starts has one health-check loop for every configured pool, and a second call
  to start them does nothing.\<close>

theorem startup_fails_only_on_configuration:
  assumes "parse_ok parse"
    and "loaded = Load parse U src (case flag of Some pth \<Rightarrow> pth | None \<Rightarrow> configPathFromEnvironment (src_LookupEnv src))"
    and "\<forall>cfg. loaded = Inr cfg \<longrightarrow> (\<forall>(name, pc) \<in> set (BackendPools cfg). length (poolBackends pc) < 2 ^ 63)"
  shows "case loaded of
      Inl e \<Rightarrow> main_start parse U now src flag = Inl (FatalConfiguration e)
    | Inr cfg \<Rightarrow> \<exists>s. main_start parse U now src flag = Inr s \<and> gateway_wf parse cfg (proc_gateway s)
        \<and> proc_loops s = map (\<lambda>(name, pc). (name, LoopStarted)) (BackendPools cfg)
        \<and> healthChecksDone s = length (BackendPools cfg) \<and> StartHealthChecks s = s"
proof (cases loaded)
  case (Inl e)
  then show ?thesis using assms(2) by (simp add: main_start_def)
next
  case (Inr cfg)
  then have "Validate parse U cfg = None" using assms(2) by (auto simp: Load_def split: option.splits sum.splits)
  moreover have "\<forall>(name, pc) \<in> set (BackendPools cfg). length (poolBackends pc) < 2 ^ 63" using assms(3) Inr by blast
  ultimately obtain g where g: "NewGateway parse U now cfg = Inr g" "gateway_wf parse cfg g"
    unfolding NewGateway_def using gateway_builds [OF assms(1)] by blast
  have "list_all2 (pool_built parse) (BackendPools cfg) (gw_pools g)" using g(2) by (simp add: gateway_wf_def)
  then have names: "map (\<lambda>(name, p). (name, LoopStarted)) (gw_pools g) = map (\<lambda>(name, pc). (name, LoopStarted)) (BackendPools cfg)"
    "length (gw_pools g) = length (BackendPools cfg)"
    by (induction rule: list_all2_induct) (auto simp: pool_built_def)
  show ?thesis using Inr g names assms(2) [symmetric] by (simp add: main_start_def StartHealthChecks_def)
qed

definition sample_config_source :: config_source where
  "sample_config_source =
    \<lparr>src_ReadFile = (\<lambda>pth. if pth = ''gatex.yaml'' then Some '''' else None), src_Unmarshal = (\<lambda>_. Some (Node OtherNode '''' '''' [])),
     src_Decode = (\<lambda>_. Some sample_cfg), src_LookupEnv = (\<lambda>name. if name = ''GATEX_CONFIG'' then Some ''gatex.yaml'' else None)\<rparr>"

lemma sample_loaded:
  "Load sample_parse sample_case sample_config_source (configPathFromEnvironment (src_LookupEnv sample_config_source)) = Inr sample_cfg"
proof -
  have "TrimSpace ''gatex.yaml'' \<noteq> ''''" by (simp add: TrimSpace_keep visible_def)
  then show ?thesis using sample_cfg_valid by (simp add: Load_def sample_config_source_def configPathFromEnvironment_def)
qed

lemma sample_backends_small: "\<forall>(name, pc) \<in> set (BackendPools sample_cfg). length (poolBackends pc) < 2 ^ 63"
  by (simp add: sample_cfg_def sample_pool_config_def)

theorem startup_fails_only_on_configuration_witness:
  "\<exists>s. main_start sample_parse sample_case 0 sample_config_source None = Inr s
    \<and> proc_loops s = [(''a'', LoopStarted), (''b'', LoopStarted)]"
proof -
  have "BackendPools sample_cfg = [(''a'', sample_pool_config), (''b'', sample_pool_config)]" by (simp add: sample_cfg_def)
  then show ?thesis
    using startup_fails_only_on_configuration [OF sample_parse_ok refl, of sample_case sample_config_source None 0]
      sample_backends_small by (auto simp: sample_loaded)
qed

lemma sample_started: "\<exists>s. process_reachable s \<and> proc_pc s = Shutdown \<and> length (gw_pools (proc_gateway s)) = 2"
proof -
  obtain g where g: "NewGateway sample_parse sample_case 0 sample_cfg = Inr g" "gateway_wf sample_parse sample_cfg g"
    unfolding NewGateway_def using gateway_builds [OF sample_parse_ok sample_backends_small sample_cfg_valid] by blast
  obtain s where s: "main_start sample_parse sample_case 0 sample_config_source None = Inr s" "proc_pc s = Selecting"
    "proc_gateway s = g"
    using g(1) sample_loaded by (simp add: main_start_def StartHealthChecks_def)
  have "length (gw_pools g) = 2"
    using g(2) by (auto simp: gateway_wf_def sample_cfg_def dest: list_all2_lengthD)
  moreover have "process_step s (s\<lparr>proc_pc := Shutdown\<rparr>)"
    using main_step.received_signal [OF s(2)] by (simp add: process_step_def)
  ultimately show ?thesis
    using process_reachable.step [OF process_reachable.start [OF s(1)]] s(3) by fastforce
qed

theorem shutdown_completes_witness:
  "\<exists>s s'. process_reachable s \<and> proc_pc s = Shutdown \<and> process_steps s s' \<and> proc_pc s' = Exited 0 \<and> idle_closed s'"
proof -
  obtain s where s: "process_reachable s" "proc_pc s = Shutdown" using sample_started by blast
  from shutdown_completes [OF s(1)] s show ?thesis by auto
qed


end
