(* ===== verification/Buffer_Pool.thy ===== *)
theory Buffer_Pool
  imports Prelude "HOL-Library.Multiset"
begin

text \<open>
  The pool of copy buffers, \<^verbatim>\<open>src/internal/proxy/buffer_pool.go\<close>, which all reverse proxies share.

  A slice is a window of an array: its array, offset, length and capacity. \<^verbatim>\<open>sync.Pool\<close> promises little: it
  hands out any element that was put into it, or makes a new one, and it may drop elements at any
  time. Which element it picks is an argument, \<open>None\<close> for a new one. Slicing beyond the capacity panics, and
  so does converting a slice to an array pointer when the slice is too short; \<open>None\<close> is such a panic.
\<close>

section \<open>Model\<close>

datatype array_id = Allocated nat | External nat

record slice =
  slice_array :: array_id
  slice_off :: nat
  slice_len :: nat
  slice_cap :: nat

definition reverseProxyBufferSize :: nat where
  "reverseProxyBufferSize = 32 * 1024"

text \<open>A pointer to a \<^verbatim>\<open>reverseProxyBuffer\<close> is the array and the offset at which the buffer starts.\<close>

record reverseProxyBufferPool =
  buffers :: "(array_id \<times> nat) list"
  allocations :: nat

definition newReverseProxyBufferPool :: reverseProxyBufferPool where
  "newReverseProxyBufferPool = \<lparr>buffers = [], allocations = 0\<rparr>"

definition reverseProxyBufferPool_Get ::
  "nat option \<Rightarrow> reverseProxyBufferPool \<Rightarrow> slice \<times> reverseProxyBufferPool" where
  "reverseProxyBufferPool_Get choice p =
    (let (buffer, p) =
       (case choice of
          Some k \<Rightarrow>
            if k < length (buffers p)
            then (buffers p ! k, p\<lparr>buffers := take k (buffers p) @ drop (Suc k) (buffers p)\<rparr>)
            else ((Allocated (allocations p), 0), p\<lparr>allocations := Suc (allocations p)\<rparr>)
        | None \<Rightarrow> ((Allocated (allocations p), 0), p\<lparr>allocations := Suc (allocations p)\<rparr>))
     in (\<lparr>slice_array = fst buffer, slice_off = snd buffer, slice_len = reverseProxyBufferSize,
          slice_cap = reverseProxyBufferSize\<rparr>, p))"

definition reverseProxyBufferPool_Put :: "slice \<Rightarrow> reverseProxyBufferPool \<Rightarrow> reverseProxyBufferPool option" where
  "reverseProxyBufferPool_Put buffer p =
    (if slice_cap buffer \<noteq> reverseProxyBufferSize then Some p
     else if slice_cap buffer < reverseProxyBufferSize then None
     else
       let buffer = buffer\<lparr>slice_len := reverseProxyBufferSize\<rparr>
       in if slice_len buffer < reverseProxyBufferSize then None
          else Some (p\<lparr>buffers := (slice_array buffer, slice_off buffer) # buffers p\<rparr>))"

section \<open>Users of the pool\<close>

text \<open>Users get buffers, cut the slices they hold at both ends and put them back, which ends their use of them;
  they put slices of arrays of their own into the pool, and the pool drops elements. \<open>panicked\<close> records a panic.\<close>

record buffer_sys =
  buffer_pool :: reverseProxyBufferPool
  held :: "slice list"
  panicked :: bool

datatype buffer_event =
    GetBuffer "nat option"
  | Reslice nat nat nat
  | PutBuffer nat
  | PutExternal slice
  | DropBuffer nat

definition remove_at :: "nat \<Rightarrow> 'a list \<Rightarrow> 'a list" where
  "remove_at k xs = take k xs @ drop (Suc k) xs"

definition arrays :: "buffer_sys \<Rightarrow> array_id list" where
  "arrays s = map slice_array (held s) @ map fst (buffers (buffer_pool s))"

definition put_slice :: "slice \<Rightarrow> buffer_sys \<Rightarrow> buffer_sys" where
  "put_slice b s =
    (case reverseProxyBufferPool_Put b (buffer_pool s) of
       None \<Rightarrow> s\<lparr>panicked := True\<rparr>
     | Some p \<Rightarrow> s\<lparr>buffer_pool := p\<rparr>)"

fun buffer_exec :: "buffer_sys \<Rightarrow> buffer_event \<Rightarrow> buffer_sys" where
  "buffer_exec s (GetBuffer choice) =
    (let (b, p) = reverseProxyBufferPool_Get choice (buffer_pool s) in s\<lparr>buffer_pool := p, held := b # held s\<rparr>)"
| "buffer_exec s (Reslice k lo n) =
    (if k < length (held s) \<and> lo + n \<le> slice_cap (held s ! k)
     then s\<lparr>held := (held s)[k := (held s ! k)\<lparr>slice_off := slice_off (held s ! k) + lo, slice_len := n,
       slice_cap := slice_cap (held s ! k) - lo\<rparr>]\<rparr> else s)"
| "buffer_exec s (PutBuffer k) =
    (if k < length (held s) then put_slice (held s ! k) (s\<lparr>held := remove_at k (held s)\<rparr>) else s)"
| "buffer_exec s (PutExternal b) = put_slice b s"
| "buffer_exec s (DropBuffer k) =
    s\<lparr>buffer_pool := (buffer_pool s)\<lparr>buffers := remove_at k (buffers (buffer_pool s))\<rparr>\<rparr>"

definition buffer_start :: buffer_sys where
  "buffer_start = \<lparr>buffer_pool = newReverseProxyBufferPool, held = [], panicked = False\<rparr>"

text \<open>What the users promise, as \<^verbatim>\<open>httputil.ReverseProxy\<close> does: a slice they put into the pool that they did not get
  from it belongs to an array of their own, and one which they have not put there already.\<close>

fun buffer_allowed :: "buffer_sys \<Rightarrow> buffer_event \<Rightarrow> bool" where
  "buffer_allowed s (PutExternal b) =
    (case slice_array b of Allocated _ \<Rightarrow> False | External n \<Rightarrow> External n \<notin> set (arrays s))"
| "buffer_allowed s _ = True"

fun buffer_use :: "buffer_sys \<Rightarrow> buffer_event list \<Rightarrow> bool" where
  "buffer_use s [] = True"
| "buffer_use s (e # es) = (buffer_allowed s e \<and> buffer_use (buffer_exec s e) es)"

text \<open>A slice of an array the pool allocated reaches to the end of the array.\<close>

definition slice_fits :: "slice \<Rightarrow> bool" where
  "slice_fits b = (case slice_array b of Allocated _ \<Rightarrow> slice_off b + slice_cap b = reverseProxyBufferSize | External _ \<Rightarrow> True)"

definition start_fits :: "array_id \<times> nat \<Rightarrow> bool" where
  "start_fits b = (case fst b of Allocated _ \<Rightarrow> snd b = 0 | External _ \<Rightarrow> True)"

definition buffer_inv :: "buffer_sys \<Rightarrow> bool" where
  "buffer_inv s =
    (distinct (arrays s) \<and> (\<forall>n. Allocated n \<in> set (arrays s) \<longrightarrow> n < allocations (buffer_pool s)) \<and>
     list_all slice_fits (held s) \<and> list_all start_fits (buffers (buffer_pool s)) \<and> \<not> panicked s)"

lemma mset_remove_at: "k < length xs \<Longrightarrow> mset xs = add_mset (xs ! k) (mset (remove_at k xs))"
  by (metis Cons_nth_drop_Suc append_take_drop_id mset.simps(2) mset_append remove_at_def union_mset_add_mset_right)

lemma mset_remove_at_le: "mset (remove_at k xs) \<subseteq># mset xs"
  by (cases "k < length xs") (simp_all add: mset_remove_at, simp add: remove_at_def)

lemma distinct_iff_count: "distinct xs \<longleftrightarrow> (\<forall>a. count (mset xs) a \<le> 1)"
proof -
  have "count (mset xs) a \<le> 1 \<longleftrightarrow> count (mset xs) a = (if a \<in> set xs then 1 else 0)" for a
    using count_greater_zero_iff [of "mset xs" a] count_eq_zero_iff [of "mset xs" a]
    by (cases "a \<in> set xs") (auto simp: le_Suc_eq)
  then show ?thesis by (simp add: distinct_count_atmost_1)
qed

text \<open>The invariant goes to a state whose arrays are among those of the first one.\<close>

lemma buffer_inv_shrink:
  assumes "buffer_inv s" "mset (arrays s') \<subseteq># mset (arrays s)" "allocations (buffer_pool s) \<le> allocations (buffer_pool s')"
    and "list_all slice_fits (held s')" "list_all start_fits (buffers (buffer_pool s'))" "\<not> panicked s'"
  shows "buffer_inv s'"
proof -
  have "set (arrays s') \<subseteq> set (arrays s)" using set_mset_mono [OF assms(2)] by simp
  moreover have "distinct (arrays s')"
    using assms(1) mset_subset_eq_count [OF assms(2)] order_trans unfolding buffer_inv_def distinct_iff_count by blast
  ultimately show ?thesis using assms(1,3-6) by (fastforce simp: buffer_inv_def)
qed

lemma list_all_remove_at: "list_all P xs \<Longrightarrow> list_all P (remove_at k xs)"
  by (auto simp: list_all_iff remove_at_def dest: in_set_takeD in_set_dropD)

lemma put_slice_cases:
  "put_slice b s =
    (if slice_cap b = reverseProxyBufferSize
     then s\<lparr>buffer_pool := (buffer_pool s)\<lparr>buffers := (slice_array b, slice_off b) # buffers (buffer_pool s)\<rparr>\<rparr> else s)"
  by (simp add: put_slice_def reverseProxyBufferPool_Put_def Let_def)

lemma put_fits: "slice_fits b \<Longrightarrow> slice_cap b = reverseProxyBufferSize \<Longrightarrow> start_fits (slice_array b, slice_off b)"
  by (auto simp: slice_fits_def start_fits_def split: array_id.splits)

lemma buffer_inv_get:
  assumes "buffer_inv s"
  shows "buffer_inv (buffer_exec s (GetBuffer choice))"
proof (cases "\<exists>k. choice = Some k \<and> k < length (buffers (buffer_pool s))")
  case True
  then obtain k where k: "choice = Some k" "k < length (buffers (buffer_pool s))" by blast
  have "mset (map fst (buffers (buffer_pool s))) =
      add_mset (fst (buffers (buffer_pool s) ! k)) (mset (map fst (remove_at k (buffers (buffer_pool s)))))"
    using mset_remove_at [OF k(2)] by simp
  moreover have "start_fits (buffers (buffer_pool s) ! k)" using assms k(2) by (simp add: buffer_inv_def list_all_length)
  ultimately show ?thesis
    by (intro buffer_inv_shrink [OF assms])
      (use k assms in \<open>auto simp: arrays_def reverseProxyBufferPool_Get_def buffer_inv_def remove_at_def [symmetric]
        slice_fits_def start_fits_def list_all_remove_at split: array_id.splits\<close>)
next
  case False
  then have "buffer_exec s (GetBuffer choice) =
      s\<lparr>buffer_pool := (buffer_pool s)\<lparr>allocations := Suc (allocations (buffer_pool s))\<rparr>,
        held := \<lparr>slice_array = Allocated (allocations (buffer_pool s)), slice_off = 0, slice_len = reverseProxyBufferSize,
          slice_cap = reverseProxyBufferSize\<rparr> # held s\<rparr>"
    by (cases choice) (auto simp: reverseProxyBufferPool_Get_def)
  then show ?thesis using assms by (auto simp: buffer_inv_def arrays_def less_Suc_eq slice_fits_def)
qed

lemma buffer_inv_put:
  assumes "buffer_inv s"
  shows "buffer_inv (buffer_exec s (PutBuffer k))"
proof (cases "k < length (held s)")
  case True
  have fits: "slice_fits (held s ! k)" using assms True by (simp add: buffer_inv_def list_all_length)
  have "mset (map slice_array (held s)) =
      add_mset (slice_array (held s ! k)) (mset (map slice_array (remove_at k (held s))))"
    using mset_remove_at [OF True] by simp
  then show ?thesis
    by (intro buffer_inv_shrink [OF assms])
      (use True put_fits [OF fits] assms in \<open>auto simp: put_slice_cases arrays_def buffer_inv_def list_all_remove_at\<close>)
qed (use assms in simp)

lemma buffer_inv_reslice:
  assumes "buffer_inv s"
  shows "buffer_inv (buffer_exec s (Reslice k lo n))"
proof (cases "k < length (held s) \<and> lo + n \<le> slice_cap (held s ! k)")
  case True
  let ?b = "(held s ! k)\<lparr>slice_off := slice_off (held s ! k) + lo, slice_len := n, slice_cap := slice_cap (held s ! k) - lo\<rparr>"
  have "map slice_array ((held s)[k := ?b]) = map slice_array (held s)"
    using True by (simp add: map_update) (metis list_update_id nth_map)
  then have "mset (map slice_array ((held s)[k := ?b])) = mset (map slice_array (held s))" by presburger
  moreover have "slice_fits ?b"
    using assms True by (auto simp: buffer_inv_def list_all_length slice_fits_def split: array_id.splits)
  then have "list_all slice_fits ((held s)[k := ?b])"
    using assms by (auto simp: buffer_inv_def list_all_iff dest!: set_update_subset_insert [THEN subsetD])
  ultimately show ?thesis
    by (intro buffer_inv_shrink [OF assms]) (use True assms in \<open>auto simp: arrays_def buffer_inv_def\<close>)
qed (use assms in auto)

lemma buffer_inv_exec:
  assumes "buffer_inv s" "buffer_allowed s e"
  shows "buffer_inv (buffer_exec s e)"
proof (cases e)
  case (PutExternal b)
  then show ?thesis using assms
    by (auto simp: put_slice_cases buffer_inv_def arrays_def start_fits_def split: array_id.splits)
next
  case (DropBuffer k)
  have "mset (map fst (remove_at k (buffers (buffer_pool s)))) \<subseteq># mset (map fst (buffers (buffer_pool s)))"
    using image_mset_subseteq_mono [OF mset_remove_at_le] by simp
  then show ?thesis
    by (intro buffer_inv_shrink [OF assms(1)])
      (use DropBuffer assms in \<open>auto simp: arrays_def buffer_inv_def list_all_remove_at\<close>)
qed (use buffer_inv_get buffer_inv_put buffer_inv_reslice assms(1) in simp_all)

lemma buffer_inv_run: "buffer_inv s \<Longrightarrow> buffer_use s es \<Longrightarrow> buffer_inv (foldl buffer_exec s es)"
  by (induction es arbitrary: s) (simp_all add: buffer_inv_exec)

text \<open>C31 (type). Copy buffers keep their type and have one user. Whatever users do with the slices they hold - cutting
  them at either end and putting them back included -, whatever slices of their own they put into the pool, as long
  as each is of an array that is not in the pool already, and however the pool picks and drops its elements: a buffer that is handed out is a
  full slice of 32 KiB, and one of an array the pool made is the whole array; no two slices that are held or pooled share an array;
  no \<^verbatim>\<open>Put\<close> panics, whatever slice it is given; and a slice of any other capacity is not retained.\<close>

theorem buffers_have_one_user:
  assumes "buffer_use buffer_start es" "s = foldl buffer_exec buffer_start es"
  shows "(\<forall>choice b p. reverseProxyBufferPool_Get choice (buffer_pool s) = (b, p) \<longrightarrow>
      slice_len b = 32768 \<and> slice_cap b = 32768 \<and> slice_array b \<notin> set (map slice_array (held s))
      \<and> (\<forall>n. slice_array b = Allocated n \<longrightarrow> slice_off b = 0))
    \<and> distinct (map slice_array (held s) @ map fst (buffers (buffer_pool s)))
    \<and> (\<forall>b. reverseProxyBufferPool_Put b (buffer_pool s) \<noteq> None) \<and> \<not> panicked s
    \<and> (\<forall>b. slice_cap b \<noteq> 32768 \<longrightarrow> reverseProxyBufferPool_Put b (buffer_pool s) = Some (buffer_pool s))"
proof -
  have "buffer_inv buffer_start"
    by (simp add: buffer_inv_def buffer_start_def arrays_def newReverseProxyBufferPool_def)
  then have inv: "buffer_inv s" unfolding assms(2) using assms(1) by (rule buffer_inv_run)
  have "slice_len b = 32768 \<and> slice_cap b = 32768 \<and> slice_array b \<notin> set (map slice_array (held s))
      \<and> (\<forall>n. slice_array b = Allocated n \<longrightarrow> slice_off b = 0)"
    if "reverseProxyBufferPool_Get choice (buffer_pool s) = (b, p)" for choice b p
    using buffer_inv_get [OF inv, of choice] that
    by (auto simp: buffer_inv_def arrays_def reverseProxyBufferPool_Get_def reverseProxyBufferSize_def slice_fits_def
      Let_def split: prod.splits)
  then show ?thesis
    using inv by (auto simp: buffer_inv_def arrays_def reverseProxyBufferPool_Put_def Let_def reverseProxyBufferSize_def)
qed

text \<open>One user cuts the front off its buffer and puts it back, which the pool does not retain; another puts a
  whole one back, and a slice of its own is refused for its size.\<close>

definition sample_use :: "buffer_event list" where
  "sample_use = [GetBuffer None, GetBuffer None, Reslice 0 4 100, PutBuffer 0, Reslice 0 0 10, PutBuffer 0,
    PutExternal \<lparr>slice_array = External 7, slice_off = 0, slice_len = 5, slice_cap = 65536\<rparr>]"

theorem buffers_have_one_user_witness:
  "buffer_use buffer_start sample_use
   \<and> buffers (buffer_pool (foldl buffer_exec buffer_start sample_use)) = [(Allocated 0, 0)]
   \<and> fst (reverseProxyBufferPool_Get (Some 0) (buffer_pool (foldl buffer_exec buffer_start sample_use)))
      = \<lparr>slice_array = Allocated 0, slice_off = 0, slice_len = 32768, slice_cap = 32768\<rparr>
   \<and> \<not> panicked (foldl buffer_exec buffer_start sample_use)"
proof -
  let ?s = "foldl buffer_exec buffer_start sample_use"
  have use: "buffer_use buffer_start sample_use" and pool: "buffers (buffer_pool ?s) = [(Allocated 0, 0)]"
    by (simp_all add: sample_use_def buffer_start_def newReverseProxyBufferPool_def reverseProxyBufferPool_Get_def
      put_slice_cases remove_at_def arrays_def reverseProxyBufferSize_def)
  obtain b p where get: "reverseProxyBufferPool_Get (Some 0) (buffer_pool ?s) = (b, p)" by fastforce
  then have "slice_array b = Allocated 0" using pool by (auto simp: reverseProxyBufferPool_Get_def split: prod.splits)
  moreover have "slice_len b = 32768 \<and> slice_cap b = 32768 \<and> (\<forall>n. slice_array b = Allocated n \<longrightarrow> slice_off b = 0)"
      and "\<not> panicked ?s"
    using buffers_have_one_user [OF use refl] get by blast+
  ultimately show ?thesis using use pool get by simp
qed

end
