(* ===== verification/Pool_Use.thy ===== *)
theory Pool_Use
  imports Upstream_Pool
begin

text \<open>
  A backend pool as many requests use it at once, one locked operation at a time. \<^verbatim>\<open>pool.acquire\<close> in
  \<^verbatim>\<open>src/internal/proxy/gateway.go\<close> takes the lock of the circuit breaker and then the one of the balancer,
  and gives up a permit or a backend in further calls, so other requests run between any two of
  these calls. Requests are numbered; \<open>permit_of\<close> and \<open>backend_of\<close> say what each holds.

  Shown here: whatever the interleaving, the breaker accounts for exactly the permits that are held
  and the balancer for exactly the backends that are held.
\<close>

section \<open>The operations of the requests on a pool\<close>

record pool_use =
  used_pool :: pool
  permit_of :: "nat \<Rightarrow> Permit option"
  backend_of :: "nat \<Rightarrow> nat option"

datatype use_event =
    TakePermit nat time
  | CancelPermit nat
  | ReportOutcome nat ProxyOutcome time
  | TakeBackend nat
  | ReleaseBackend nat
  | SetBackendHealth nat bool

fun use_exec :: "pool_use \<Rightarrow> use_event \<Rightarrow> pool_use" where
  "use_exec u (TakePermit j now) =
    (if permit_of u j \<noteq> None then u
     else case Breaker_Acquire now (circuitBreaker (used_pool u)) of
            (Inl e, b) \<Rightarrow> u\<lparr>used_pool := (used_pool u)\<lparr>circuitBreaker := b\<rparr>\<rparr>
          | (Inr permit, b) \<Rightarrow>
              u\<lparr>used_pool := (used_pool u)\<lparr>circuitBreaker := b\<rparr>, permit_of := (permit_of u)(j \<mapsto> permit)\<rparr>)"
| "use_exec u (CancelPermit j) =
    (case permit_of u j of
       None \<Rightarrow> u
     | Some permit \<Rightarrow>
         u\<lparr>used_pool := (used_pool u)\<lparr>circuitBreaker := snd (Permit_Cancel (Some permit) (circuitBreaker (used_pool u)))\<rparr>,
           permit_of := (permit_of u)(j := None)\<rparr>)"
| "use_exec u (ReportOutcome j outcome now) =
    (case permit_of u j of
       None \<Rightarrow> u
     | Some permit \<Rightarrow>
         u\<lparr>used_pool := (used_pool u)\<lparr>circuitBreaker := snd (proxy_reports outcome now permit (circuitBreaker (used_pool u)))\<rparr>,
           permit_of := (permit_of u)(j := None)\<rparr>)"
| "use_exec u (TakeBackend j) =
    (if backend_of u j \<noteq> None then u
     else case Pool_Acquire (balancer (used_pool u)) of
            (None, q) \<Rightarrow> u\<lparr>used_pool := (used_pool u)\<lparr>balancer := q\<rparr>\<rparr>
          | (Some i, q) \<Rightarrow>
              u\<lparr>used_pool := (used_pool u)\<lparr>balancer := q\<rparr>, backend_of := (backend_of u)(j \<mapsto> i)\<rparr>)"
| "use_exec u (ReleaseBackend j) =
    (case backend_of u j of
       None \<Rightarrow> u
     | Some i \<Rightarrow>
         u\<lparr>used_pool := (used_pool u)\<lparr>balancer := on_backend i Backend_Release (balancer (used_pool u))\<rparr>,
           backend_of := (backend_of u)(j := None)\<rparr>)"
| "use_exec u (SetBackendHealth i h) =
    (if i < length (backends (balancer (used_pool u)))
     then u\<lparr>used_pool := (used_pool u)\<lparr>balancer := on_backend i (Backend_SetHealthy h) (balancer (used_pool u))\<rparr>\<rparr>
     else u)"

declare use_exec.simps [simp del]

definition use_start :: "pool \<Rightarrow> pool_use" where
  "use_start p = \<lparr>used_pool = p, permit_of = Map.empty, backend_of = Map.empty\<rparr>"

section \<open>The accounts\<close>

text \<open>The permits held are the unsettled permits the breaker has issued, \<open>key j\<close> being the number of the
  one request \<open>j\<close> holds; the backends held are those the balancer counts.\<close>

definition permits_match :: "(nat \<Rightarrow> Permit option) \<Rightarrow> (Permit \<times> nat) list \<Rightarrow> (nat \<Rightarrow> nat) \<Rightarrow> bool" where
  "permits_match own issued key =
    (inj_on key (dom own) \<and>
     (\<forall>j permit. own j = Some permit \<longrightarrow> key j < length issued \<and> fst (issued ! key j) = permit) \<and>
     (\<forall>k < length issued. once (fst (issued ! k)) \<longleftrightarrow> k \<notin> key ` dom own))"

definition backends_match :: "(nat \<Rightarrow> nat option) \<Rightarrow> nat list \<Rightarrow> bool" where
  "backends_match holds taken =
    (finite (dom holds) \<and> (\<forall>i. count (mset taken) i = card {j. holds j = Some i}))"

definition use_sim :: "pool_use \<Rightarrow> breaker_sys \<Rightarrow> pool_sys \<Rightarrow> (nat \<Rightarrow> nat) \<Rightarrow> bool" where
  "use_sim u bs ps key =
    (sys_breaker bs = circuitBreaker (used_pool u) \<and> sys_pool ps = balancer (used_pool u) \<and>
     map backend_index (upstreams (used_pool u)) = [0..<length (backends (balancer (used_pool u)))] \<and>
     permits_match (permit_of u) (sys_permits bs) key \<and> backends_match (backend_of u) (held ps))"

definition use_ok :: "nat \<Rightarrow> pool_use \<Rightarrow> bool" where
  "use_ok n u =
    (\<exists>bs ps key. use_sim u bs ps key \<and> sys_inv bs \<and> pool_inv ps \<and> sys_epoch bs \<le> n \<and> acquired ps \<le> n)"

subsection \<open>Permits\<close>

lemma permits_matchD:
  assumes "permits_match own issued key" "own j = Some p"
  shows "key j < length issued" "fst (issued ! key j) = p" "\<not> once p"
proof -
  show k: "key j < length issued" "fst (issued ! key j) = p" using assms by (auto simp: permits_match_def)
  have "key j \<in> key ` dom own" using assms(2) by blast
  then show "\<not> once p" using assms(1) k unfolding permits_match_def by metis
qed

lemma permits_match_take:
  assumes "permits_match own issued key" "own j = None" "\<not> once p"
  shows "permits_match (own(j \<mapsto> p)) (issued @ [(p, e)]) (key(j := length issued))"
proof -
  have less: "key i < length issued" if "i \<in> dom own" for i using assms(1) that by (auto simp: permits_match_def)
  have j: "j \<notin> dom own" using assms(2) by blast
  then have img: "key(j := length issued) ` dom (own(j \<mapsto> p)) = insert (length issued) (key ` dom own)"
    using assms(2) by (auto simp: image_def dom_def)
  have "inj_on (key(j := length issued)) (dom (own(j \<mapsto> p)))"
    using assms(1) less j by (auto simp: permits_match_def inj_on_def) (metis domI less nat_less_le)+
  then show ?thesis
    using assms less unfolding permits_match_def img by (auto simp: nth_append less_Suc_eq)
qed

lemma permits_match_settle:
  assumes "permits_match own issued key" "own j = Some p"
  shows "permits_match (own(j := None)) (issued[key j := (p\<lparr>once := True\<rparr>, e)]) key"
proof -
  have inj: "inj_on key (dom own)" using assms(1) by (simp add: permits_match_def)
  have j: "j \<in> dom own" using assms(2) by blast
  have img: "key ` dom (own(j := None)) = key ` dom own - {key j}"
    using inj_on_image_set_diff [OF inj, of "dom own" "{j}"] j by simp
  have other: "key i \<noteq> key j" if "own i = Some q" "i \<noteq> j" for i q
    using inj that j by (auto dest: inj_onD)
  show ?thesis
    unfolding permits_match_def img
    using assms other inj_on_subset [OF inj, of "dom (own(j := None))"]
    by (auto simp: permits_match_def nth_list_update dest: other)
qed

subsection \<open>Backends\<close>

lemma backends_match_take:
  assumes "backends_match holds taken" "holds j = None"
  shows "backends_match (holds(j \<mapsto> i)) (taken @ [i])"
proof -
  have fin: "finite {k. holds k = Some x}" for x
    using assms(1) by (auto simp: backends_match_def intro: finite_subset [of _ "dom holds"])
  have "{k. (holds(j \<mapsto> i)) k = Some x} = (if x = i then insert j {k. holds k = Some x} else {k. holds k = Some x})" for x
    using assms(2) by auto
  then show ?thesis using assms fin by (auto simp: backends_match_def)
qed

lemma backends_match_release:
  assumes "backends_match holds taken" "holds j = Some i"
  shows "\<exists>k < length taken. taken ! k = i \<and> backends_match (holds(j := None)) (take k taken @ drop (Suc k) taken)"
proof -
  have fin: "finite {k. holds k = Some x}" for x
    using assms(1) by (auto simp: backends_match_def intro: finite_subset [of _ "dom holds"])
  have "0 < card {k. holds k = Some i}" using fin assms(2) by (auto simp: card_gt_0_iff)
  then have "i \<in># mset taken" using assms(1) by (metis backends_match_def count_greater_zero_iff)
  then obtain k where k: "k < length taken" "taken ! k = i" by (auto simp: in_set_conv_nth)
  have rest: "mset taken = add_mset i (mset (take k taken @ drop (Suc k) taken))" using remove_nth [OF k(1)] k(2) by simp
  have "{k. (holds(j := None)) k = Some x} = {k. holds k = Some x} - (if x = i then {j} else {})" for x
    using assms(2) by auto
  moreover have "count (mset taken) x = card {k. holds k = Some x}" for x using assms(1) by (simp add: backends_match_def)
  ultimately have "count (mset (take k taken @ drop (Suc k) taken)) x = card {k. (holds(j := None)) k = Some x}" for x
    using fin assms(2) arg_cong [OF rest, of "\<lambda>m. count m x"] by (auto simp: card_Diff_singleton_if split: if_splits)
  then show ?thesis using assms(1) k by (auto simp: backends_match_def)
qed

section \<open>Every operation keeps the accounts\<close>

lemma use_simI:
  assumes "use_sim u bs ps key" "sys_inv bs'" "pool_inv ps'" "sys_epoch bs' \<le> n" "acquired ps' \<le> n"
    and "sys_breaker bs' = circuitBreaker (used_pool v)" "sys_pool ps' = balancer (used_pool v)"
    and "upstreams (used_pool v) = upstreams (used_pool u)"
    and "length (backends (balancer (used_pool v))) = length (backends (balancer (used_pool u)))"
    and "permits_match (permit_of v) (sys_permits bs') key'" "backends_match (backend_of v) (held ps')"
  shows "use_ok n v"
  using assms unfolding use_ok_def by (intro exI [of _ bs'] exI [of _ ps'] exI [of _ key']) (simp add: use_sim_def)

lemma epoch_exec: "sys_epoch (breaker_exec bs e) \<le> Suc (sys_epoch bs)"
  by (cases e) (auto simp: breaker_exec.simps settle_def Let_def next_epoch_def split: prod.splits)

lemma use_take_permit:
  assumes sim: "use_sim u bs ps key" and inv: "sys_inv bs" "pool_inv ps" and n: "sys_epoch bs \<le> n" "acquired ps \<le> n" "n < 2 ^ 64"
  shows "use_ok (Suc n) (use_exec u (TakePermit j now))"
proof (cases "permit_of u j")
  case None
  have inv': "sys_inv (breaker_exec bs (EvAcquire now))" using inv(1) n(1,3) by (intro sys_inv_exec) auto
  have ep: "sys_epoch (breaker_exec bs (EvAcquire now)) \<le> Suc n" using epoch_exec n(1) by (meson Suc_le_mono order_trans)
  have b: "sys_breaker bs = circuitBreaker (used_pool u)" using sim by (simp add: use_sim_def)
  have acq': "acquired ps \<le> Suc n" using n(2) by simp
  obtain r b' where acq: "Breaker_Acquire now (circuitBreaker (used_pool u)) = (r, b')" by fastforce
  show ?thesis
  proof (cases r)
    case (Inl e)
    then show ?thesis
      using None acq sim by (intro use_simI [OF sim inv' inv(2) ep acq', where key' = key])
        (simp_all add: use_exec.simps breaker_exec.simps b use_sim_def Let_def)
  next
    case (Inr p)
    then have "\<not> once p" using Acquire_permit [of now "circuitBreaker (used_pool u)" p] acq by simp
    from permits_match_take [of "permit_of u", OF _ None this] show ?thesis
      using None acq Inr sim
      by (intro use_simI [OF sim inv' inv(2) ep acq', where key' = "key(j := length (sys_permits bs))"])
        (simp_all add: use_exec.simps breaker_exec.simps b use_sim_def Let_def)
  qed
next
  case (Some p)
  then show ?thesis using assms unfolding use_ok_def use_exec.simps by (auto intro: le_SucI)
qed

text \<open>Settling a permit, by a report or by cancelling it.\<close>

lemma use_settle:
  assumes sim: "use_sim u bs ps key" and inv: "sys_inv bs" "pool_inv ps" and n: "sys_epoch bs \<le> n" "acquired ps \<le> n" "n < 2 ^ 64"
    and p: "permit_of u j = Some p"
    and ev: "breaker_exec bs ev = settle bs (key j) (Some (p\<lparr>once := True\<rparr>), b)"
  shows "use_ok (Suc n) (u\<lparr>used_pool := (used_pool u)\<lparr>circuitBreaker := b\<rparr>, permit_of := (permit_of u)(j := None)\<rparr>)"
proof -
  have inv': "sys_inv (breaker_exec bs ev)" using inv(1) n(1,3) by (intro sys_inv_exec) auto
  have ep: "sys_epoch (breaker_exec bs ev) \<le> Suc n" using epoch_exec n(1) by (meson Suc_le_mono order_trans)
  have acq': "acquired ps \<le> Suc n" using n(2) by simp
  have "permits_match (permit_of u) (sys_permits bs) key" using sim by (simp add: use_sim_def)
  from permits_match_settle [OF this p] show ?thesis
    using sim by (intro use_simI [OF sim inv' inv(2) ep acq', where key' = key])
      (simp_all add: ev settle_def use_sim_def)
qed

lemma held_permit:
  assumes "use_sim u bs ps key" "sys_inv bs" "permit_of u j = Some p"
  shows "key j < length (sys_permits bs)" "fst (sys_permits bs ! key j) = p" "hasBreaker p" "\<not> once p"
proof -
  have "permits_match (permit_of u) (sys_permits bs) key" using assms(1) by (simp add: use_sim_def)
  from permits_matchD [OF this assms(3)] show k: "key j < length (sys_permits bs)" "fst (sys_permits bs ! key j) = p" "\<not> once p" .
  show "hasBreaker p" using assms(2) nth_mem [OF k(1)] k(2) by (auto simp: sys_inv_def permits_wf_def)
qed

lemma use_cancel:
  assumes sim: "use_sim u bs ps key" and inv: "sys_inv bs" "pool_inv ps" and n: "sys_epoch bs \<le> n" "acquired ps \<le> n" "n < 2 ^ 64"
    and p: "permit_of u j = Some p"
  shows "use_ok (Suc n) (use_exec u (CancelPermit j))"
proof -
  note h = held_permit [OF sim inv(1) p]
  have "breaker_exec bs (EvCancel (key j)) =
      settle bs (key j) (Some (p\<lparr>once := True\<rparr>), snd (Permit_Cancel (Some p) (circuitBreaker (used_pool u))))"
    using h sim by (simp add: breaker_exec.simps Permit_Cancel_def use_sim_def)
  from use_settle [OF sim inv n p this] show ?thesis by (simp add: use_exec.simps p)
qed

lemma use_report:
  assumes sim: "use_sim u bs ps key" and inv: "sys_inv bs" "pool_inv ps" and n: "sys_epoch bs \<le> n" "acquired ps \<le> n" "n < 2 ^ 64"
    and p: "permit_of u j = Some p"
  shows "use_ok (Suc n) (use_exec u (ReportOutcome j outcome now))"
proof -
  note h = held_permit [OF sim inv(1) p]
  have "breaker_exec bs (EvRecord (key j) (outcome_success outcome) now) =
      settle bs (key j) (Some (p\<lparr>once := True\<rparr>), snd (proxy_reports outcome now p (circuitBreaker (used_pool u))))"
    unfolding proxy_reports_eq [OF h(3,4)] using h sim by (simp add: breaker_exec.simps Permit_record_def use_sim_def)
  from use_settle [OF sim inv n p this] show ?thesis by (simp add: use_exec.simps p)
qed

lemma use_take_backend:
  assumes sim: "use_sim u bs ps key" and inv: "sys_inv bs" "pool_inv ps" and n: "sys_epoch bs \<le> n" "acquired ps \<le> n"
    and small: "int n < maxInt64" and free: "backend_of u j = None"
  shows "use_ok (Suc n) (use_exec u (TakeBackend j))"
proof -
  have inv': "pool_inv (pool_exec ps PoolAcquire)" using inv(2) n(2) small by (intro pool_inv_acquire) auto
  have p: "sys_pool ps = balancer (used_pool u)" using sim by (simp add: use_sim_def)
  have ep: "sys_epoch bs \<le> Suc n" using n(1) by simp
  have acq': "acquired (pool_exec ps PoolAcquire) \<le> Suc n" using n(2) by (auto split: prod.splits option.splits)
  obtain r q where acq: "Pool_Acquire (balancer (used_pool u)) = (r, q)" by fastforce
  have len: "length (backends q) = length (backends (balancer (used_pool u)))"
    using Pool_Acquire_fixed(2) [of "balancer (used_pool u)"] acq by simp
  have "backends_match (backend_of u) (held ps)" using sim by (simp add: use_sim_def)
  note took = backends_match_take [OF this free]
  show ?thesis
    by (cases r) (rule use_simI [OF sim inv(1) inv' ep acq', where key' = key];
      use acq free sim took p len in \<open>simp add: use_exec.simps use_sim_def\<close>)+
qed

lemma use_release:
  assumes sim: "use_sim u bs ps key" and inv: "sys_inv bs" "pool_inv ps" and n: "sys_epoch bs \<le> n" "acquired ps \<le> n"
    and small: "int n < maxInt64" and i: "backend_of u j = Some i"
  shows "use_ok (Suc n) (use_exec u (ReleaseBackend j))"
proof -
  have "backends_match (backend_of u) (held ps)" using sim by (simp add: use_sim_def)
  from backends_match_release [OF this i] obtain k where k: "k < length (held ps)" "held ps ! k = i"
    "backends_match ((backend_of u)(j := None)) (take k (held ps) @ drop (Suc k) (held ps))" by blast
  have inv': "pool_inv (pool_exec ps (PoolRelease k))" using inv(2) n(2) small by (intro pool_inv_release) auto
  have "sys_epoch bs \<le> Suc n" "acquired (pool_exec ps (PoolRelease k)) \<le> Suc n" using n by auto
  from use_simI [OF sim inv(1) inv' this, where key' = key] show ?thesis
    using sim k i by (simp add: use_exec.simps use_sim_def)
qed

lemma use_health:
  assumes sim: "use_sim u bs ps key" and inv: "sys_inv bs" "pool_inv ps" and n: "sys_epoch bs \<le> n" "acquired ps \<le> n"
  shows "use_ok (Suc n) (use_exec u (SetBackendHealth i h))"
proof -
  have inv': "pool_inv (pool_exec ps (PoolSetHealthy i h))" using inv(2) by (rule pool_inv_health)
  have "sys_epoch bs \<le> Suc n" "acquired (pool_exec ps (PoolSetHealthy i h)) \<le> Suc n" using n by auto
  from use_simI [OF sim inv(1) inv' this, where key' = key] show ?thesis
    using sim by (auto simp: use_exec.simps use_sim_def)
qed

lemma use_ok_Suc: "use_ok n u \<Longrightarrow> use_ok (Suc n) u"
  unfolding use_ok_def by (blast intro: le_SucI)

lemma use_ok_exec:
  assumes "use_ok n u" "int n < maxInt64"
  shows "use_ok (Suc n) (use_exec u e)"
proof -
  obtain bs ps key where ok: "use_sim u bs ps key" "sys_inv bs" "pool_inv ps" "sys_epoch bs \<le> n" "acquired ps \<le> n"
    using assms(1) by (auto simp: use_ok_def)
  have big: "n < 2 ^ 64" using assms(2) by (simp add: maxInt64_def)
  note idle = use_ok_Suc [OF assms(1)]
  show ?thesis
  proof (cases e)
    case (TakePermit j now)
    then show ?thesis using use_take_permit [OF ok big] by simp
  next
    case (CancelPermit j)
    then show ?thesis using use_cancel [OF ok big] idle by (cases "permit_of u j") (simp_all add: use_exec.simps)
  next
    case (ReportOutcome j outcome now)
    then show ?thesis using use_report [OF ok big] idle by (cases "permit_of u j") (simp_all add: use_exec.simps)
  next
    case (TakeBackend j)
    then show ?thesis using use_take_backend [OF ok assms(2)] idle by (cases "backend_of u j") (simp_all add: use_exec.simps)
  next
    case (ReleaseBackend j)
    then show ?thesis using use_release [OF ok assms(2)] idle by (cases "backend_of u j") (simp_all add: use_exec.simps)
  next
    case (SetBackendHealth i h)
    then show ?thesis using use_health [OF ok] by simp
  qed
qed

lemma use_ok_start:
  assumes "new_pool config urls strat targets p"
  shows "use_ok 0 (use_start p)"
proof -
  obtain bs ps ks where "traffic_ok 0 (traffic_start p) bs ps ks" using traffic_ok_start [OF assms] by blast
  moreover from this have "traffic_sim (traffic_start p) bs ps []" by (auto simp: traffic_ok_def traffic_sim_def traffic_start_def)
  ultimately show ?thesis
    unfolding use_ok_def
    by (intro exI [of _ bs] exI [of _ ps] exI [of _ id])
      (simp add: traffic_ok_def traffic_sim_def traffic_start_def use_start_def use_sim_def permits_match_def backends_match_def)
qed

lemma use_ok_run:
  assumes "use_ok n u" "int (n + length es) < maxInt64"
  shows "use_ok (n + length es) (foldl use_exec u es)"
  using assms(2)
proof (induction es rule: rev_induct)
  case Nil
  then show ?case using assms(1) by simp
next
  case (snoc e es)
  then show ?case using use_ok_exec [of "n + length es" "foldl use_exec u es" e] by simp
qed

section \<open>What the accounts say\<close>

lemma use_ok_active:
  assumes "use_ok n u" "i < length (backends (balancer (used_pool u)))"
  shows "active_at (balancer (used_pool u)) i = int (card {j. backend_of u j = Some i})"
  using assms unfolding use_ok_def use_sim_def pool_inv_def backends_match_def by metis

lemma live_permits:
  assumes sim: "use_sim u bs ps key" and inv: "sys_inv bs" and small: "sys_epoch bs < 2 ^ 64"
  shows "in_flight bs = card {j. \<exists>p. permit_of u j = Some p \<and> permitGeneration p = generation (circuitBreaker (used_pool u))}"
    (is "_ = card ?J")
proof -
  let ?ps = "sys_permits bs"
  have match: "permits_match (permit_of u) ?ps key" and b: "sys_breaker bs = circuitBreaker (used_pool u)"
    using sim by (simp_all add: use_sim_def)
  have current: "permitGeneration (fst (?ps ! k)) = generation (circuitBreaker (used_pool u)) \<longleftrightarrow> snd (?ps ! k) = sys_epoch bs"
    if "k < length ?ps" for k
  proof -
    have "snd (?ps ! k) \<le> sys_epoch bs" "permitGeneration (fst (?ps ! k)) = of_nat (snd (?ps ! k))"
      using inv nth_mem [OF that] by (auto simp: sys_inv_def permits_wf_def)
    moreover have "generation (circuitBreaker (used_pool u)) = of_nat (sys_epoch bs)" using inv b by (simp add: sys_inv_def)
    ultimately show ?thesis using small by (auto simp: word_of_nat_eq_iff take_bit_nat_eq_self)
  qed
  have "in_flight bs = card {k. k < length ?ps \<and> live (sys_epoch bs) (?ps ! k)}"
    by (simp add: in_flight_def length_filter_conv_card)
  also have "{k. k < length ?ps \<and> live (sys_epoch bs) (?ps ! k)} = key ` ?J"
  proof (intro equalityI subsetI)
    fix k assume "k \<in> {k. k < length ?ps \<and> live (sys_epoch bs) (?ps ! k)}"
    then have k: "k < length ?ps" "snd (?ps ! k) = sys_epoch bs" "\<not> once (fst (?ps ! k))" by (auto simp: live_def)
    then obtain j p where "permit_of u j = Some p" "k = key j" "fst (?ps ! k) = p"
      using match by (auto simp: permits_match_def)
    with current [OF k(1)] k(2) show "k \<in> key ` ?J" by blast
  next
    fix k assume "k \<in> key ` ?J"
    then obtain j p where j: "permit_of u j = Some p" "permitGeneration p = generation (circuitBreaker (used_pool u))" "k = key j" by blast
    have k: "k < length ?ps" "fst (?ps ! k) = p" "\<not> once p" using permits_matchD [OF match j(1)] j(3) by simp_all
    with current [OF k(1)] j(2) show "k \<in> {k. k < length ?ps \<and> live (sys_epoch bs) (?ps ! k)}" by (auto simp: live_def)
  qed
  also have "card (key ` ?J) = card ?J"
    by (rule card_image, rule inj_on_subset [of key "dom (permit_of u)"]) (use match in \<open>auto simp: permits_match_def\<close>)
  finally show ?thesis .
qed

lemma use_ok_probes:
  assumes "use_ok n u" "n < 2 ^ 64" "state (circuitBreaker (used_pool u)) = StateHalfOpen"
  defines "b \<equiv> circuitBreaker (used_pool u)"
  shows "halfOpenAdmitted b = halfOpenSuccesses b + int (card {j. \<exists>p. permit_of u j = Some p \<and> permitGeneration p = generation b})"
    and "halfOpenAdmitted b \<le> halfOpenMaxRequests b" and "0 \<le> halfOpenSuccesses b"
proof -
  obtain bs ps key where ok: "use_sim u bs ps key" "sys_inv bs" "sys_epoch bs \<le> n" using assms(1) by (auto simp: use_ok_def)
  then have bs: "sys_breaker bs = b" by (simp add: use_sim_def b_def)
  show "halfOpenAdmitted b = halfOpenSuccesses b + int (card {j. \<exists>p. permit_of u j = Some p \<and> permitGeneration p = generation b})"
    using ok bs assms(2,3) live_permits [OF ok(1,2)] by (simp add: sys_inv_def b_def)
  show "halfOpenAdmitted b \<le> halfOpenMaxRequests b" "0 \<le> halfOpenSuccesses b"
    using ok(2) bs assms(3) by (auto simp: sys_inv_def breaker_wf_def b_def)
qed

text \<open>What never changes of a pool: the limits of its breaker and its upstreams.\<close>

definition pool_fixed :: "pool \<Rightarrow> (int \<times> duration \<times> int) \<times> upstream list" where
  "pool_fixed p = (breaker_limits (circuitBreaker p), upstreams p)"

lemma proxy_reports_limits: "breaker_limits (snd (proxy_reports outcome now permit b)) = breaker_limits b"
  by (cases outcome)
    (auto simp: proxy_reports_def ModifyResponse_permit_def ErrorHandler_permit_def Permit_RecordFailure_def Permit_RecordSuccess_def
      Let_def split: prod.split)

lemma use_exec_fixed: "pool_fixed (used_pool (use_exec u e)) = pool_fixed (used_pool u)"
proof (cases e)
  case (TakePermit j now)
  obtain r b where "Breaker_Acquire now (circuitBreaker (used_pool u)) = (r, b)" by fastforce
  then show ?thesis
    using TakePermit breaker_limits_ops(1) [of now "circuitBreaker (used_pool u)"]
    by (auto simp: use_exec.simps pool_fixed_def split: sum.split)
qed (auto simp: use_exec.simps pool_fixed_def proxy_reports_limits split: option.split prod.split)

section \<open>Clients of a pool\<close>

text \<open>A system that has a pool and performs at most one of its operations in a step: its accounts are in
  order as long as it runs.\<close>

locale pool_client =
  fixes exec :: "'c \<Rightarrow> 'e \<Rightarrow> 'c" and has_pool :: "'c \<Rightarrow> bool" and usage :: "'c \<Rightarrow> pool_use"
  assumes keeps_pool: "has_pool c \<Longrightarrow> has_pool (exec c e)"
    and one_operation: "has_pool c \<Longrightarrow> \<exists>es. length es \<le> 1 \<and> usage (exec c e) = foldl use_exec (usage c) es"
begin

lemma client_has_pool: "has_pool c \<Longrightarrow> has_pool (foldl exec c es)"
  by (induction es arbitrary: c) (auto intro: keeps_pool)

lemma client_step:
  assumes "has_pool c" "use_ok n (usage c)" "int n < maxInt64"
  shows "use_ok (Suc n) (usage (exec c e))"
proof -
  obtain es where es: "length es \<le> 1" "usage (exec c e) = foldl use_exec (usage c) es" using one_operation [OF assms(1)] by blast
  show ?thesis
  proof (cases es)
    case Nil
    then show ?thesis using es(2) use_ok_Suc [OF assms(2)] by simp
  next
    case (Cons x xs)
    then show ?thesis using es use_ok_exec [OF assms(2,3), of x] by simp
  qed
qed

lemma client_ok:
  assumes "has_pool c" "use_ok 0 (usage c)" "int (length es) < maxInt64"
  shows "use_ok (length es) (usage (foldl exec c es))"
  using assms(3)
proof (induction es rule: rev_induct)
  case (snoc e es)
  then show ?case using client_step [OF client_has_pool [OF assms(1)], of "length es" es e] by simp
qed (use assms(2) in simp)

lemma client_fixed:
  assumes "has_pool c"
  shows "pool_fixed (used_pool (usage (foldl exec c es))) = pool_fixed (used_pool (usage c))"
proof (induction es rule: rev_induct)
  case (snoc e es)
  obtain us where "length us \<le> 1" "usage (exec (foldl exec c es) e) = foldl use_exec (usage (foldl exec c es)) us"
    using one_operation [OF client_has_pool [OF assms]] by blast
  then show ?case using snoc use_exec_fixed by (cases us) auto
qed simp

end

end
