(* ===== verification/Request_Thread.thy ===== *)
theory Request_Thread
  imports Request_Path
begin

text \<open>
  A request as a thread. \<^verbatim>\<open>net/http\<close> serves every request in its own goroutine, so the handler of
  \<^verbatim>\<open>src/internal/proxy/gateway.go\<close> runs many times at once over the same limiters, caches, breakers and
  balancers, each of which is behind its own lock. The program counter of a thread stands between two
  such locked operations, and a step of the thread performs the next one.

  The functions are those of \<^verbatim>\<open>Request_Path\<close>, cut at the locks. Shown here: a thread comes to its end in
  at most eight steps, and one that is not interrupted does what \<open>ServeHTTP\<close> does.
\<close>

section \<open>Model\<close>

text \<open>
  The index is the one of the matched route. The second argument is the cache key when the response is
  being captured for the cache, the third the name of the route's pool.
\<close>

datatype stage =
    AtEntry
  | AtLimit nat
  | AtLookup nat
  | AtPermit nat "string option"
  | AtBackend nat "string option" string Permit
  | AtUnmatched nat "string option" string nat Permit
  | AtCancel nat "string option" string Permit
  | AtProxy nat "string option" string upstream Permit
  | AtRelease nat "string option" string upstream flow
  | AtStore nat string "Header response_value"
  | Finished flow

record thread =
  th_env :: request_env
  th_request :: Request
  th_writer :: writer
  th_stage :: stage

definition goto :: "stage \<Rightarrow> thread \<Rightarrow> thread" where
  "goto st t = t\<lparr>th_stage := st\<rparr>"

definition finish :: "flow \<Rightarrow> writer \<Rightarrow> thread \<Rightarrow> thread" where
  "finish ended w t = t\<lparr>th_writer := w, th_stage := Finished ended\<rparr>"

text \<open>\<^verbatim>\<open>serveRoute\<close> has ended; what is left is the rest of the cache middleware when it is around.\<close>

definition leave :: "nat \<Rightarrow> string option \<Rightarrow> flow \<Rightarrow> writer \<Rightarrow> thread \<Rightarrow> thread" where
  "leave i store ended v t =
    (case store of
       None \<Rightarrow> finish ended v t
     | Some key \<Rightarrow>
         let (capture, w) = capturing_of v
         in if ended \<noteq> Returned then finish ended w t
            else
              (case cacheResponseWriter_response (env_U (th_env t)) (writer_Header w) capture of
                 None \<Rightarrow> finish Returned w t
               | Some (statusCode, header, body) \<Rightarrow>
                   t\<lparr>th_writer := w,
                     th_stage := AtStore i key (statusCode, Header_Del CacheStatusHeader (Header_Del IDHeader header), body)\<rparr>))"

text \<open>\<^verbatim>\<open>ServeHTTP\<close> up to the route's handler, and the authentication in front of it: nothing here is shared
  with other requests.\<close>

definition step_entry :: "thread \<Rightarrow> gateway_world \<Rightarrow> thread \<times> gateway_world" where
  "step_entry t s =
    (let E = th_env t;
         (r, s) = Ensure (env_ids E) (th_request t) s;
         w = update_header (Header_Set IDHeader (RequestID r s)) (th_writer t);
         t = t\<lparr>th_request := r, th_writer := w\<rparr>
     in case matchRoute (gw_routes (gateway s)) (Path (requestURL r)) of
          None \<Rightarrow> (finish Returned (http_Error (env_U E) ''no route configured for request path'' 404 w) t, s)
        | Some i \<Rightarrow>
            let s = SetRoute r (pathPrefix (route_at i s)) s
            in if protected (route_at i s)
               then
                 (case APIKeyAuth (env_U E) (env_Sum256 E) (gw_apiKeys (gateway s)) (\<lambda>r w s. (Returned, w, Some r)) r w None of
                    (ended, w, None) \<Rightarrow> (finish ended w t, s)
                  | (ended, w, Some r) \<Rightarrow> (t\<lparr>th_request := r, th_writer := w, th_stage := AtLimit i\<rparr>, s))
               else (goto (AtLimit i) t, s))"

definition step_limit :: "nat \<Rightarrow> thread \<Rightarrow> gateway_world \<Rightarrow> thread \<times> gateway_world" where
  "step_limit i t s =
    (let E = th_env t; r = th_request t
     in case limiter (route_at i s) of
          None \<Rightarrow> (goto (AtLookup i) t, s)
        | Some l \<Rightarrow>
            let (allowed, l) = ClientLimiter_Allow (at_limit E)
                  (clientKeyFromRemoteAddr (env_ParseAddrPort E) (env_ParseAddr E) (RemoteAddr r)) l;
                s = set_route i (limiter_update (\<lambda>_. Some l)) s
            in if \<not> allowed
               then (finish Returned (http_Error (env_U E) ''rate limit exceeded'' 429
                       (update_header (Header_Set ''Retry-After'' (retryAfterHeader (route_at i s))) (th_writer t))) t, s)
               else (goto (AtLookup i) t, s))"

definition step_lookup :: "nat \<Rightarrow> thread \<Rightarrow> gateway_world \<Rightarrow> thread \<times> gateway_world" where
  "step_lookup i t s =
    (let E = th_env t; r = th_request t; w = th_writer t
     in case responseCache (route_at i s) of
          None \<Rightarrow> (goto (AtPermit i None) t, s)
        | Some c \<Rightarrow>
            if \<not> isCacheableRequest (env_U E) r then (goto (AtPermit i None) t, s)
            else
              let requestID = RequestID r s; key = responseCacheKey (env_U E) r
              in (case Cache_Get (at_lookup E) key c of
                    (Some cached, c) \<Rightarrow>
                      let s = set_route i (responseCache_update (\<lambda>_. Some c)) s;
                          (ended, err, w) = writeCachedResponse (env_U E) cached requestID w
                      in (finish ended w t, if err then emit (CachedWriteFailed requestID) s else s)
                  | (None, c) \<Rightarrow>
                      (t\<lparr>th_writer := Capturing new_capturing (update_header (Header_Set CacheStatusHeader ''MISS'') w),
                         th_stage := AtPermit i (Some key)\<rparr>,
                       set_route i (responseCache_update (\<lambda>_. Some c)) s)))"

text \<open>The steps of \<^verbatim>\<open>serveRoute\<close>, which finds its pool through the route.\<close>

definition refuse :: "nat \<Rightarrow> string option \<Rightarrow> AcquireError \<Rightarrow> thread \<Rightarrow> thread" where
  "refuse i store e t =
    (let (message, code) = serveRoute_rejection e
     in leave i store Returned (http_Error (env_U (th_env t)) message code (th_writer t)) t)"

definition step_permit :: "nat \<Rightarrow> string option \<Rightarrow> thread \<Rightarrow> gateway_world \<Rightarrow> thread \<times> gateway_world" where
  "step_permit i store t s =
    (let name = route_pool (route_at i s)
     in case map_of (gw_pools (gateway s)) name of
          None \<Rightarrow> (leave i store (Panicked (PanicValue ''nil pool'')) (th_writer t) t, s)
        | Some p \<Rightarrow>
            (case Breaker_Acquire (at_acquire (th_env t)) (circuitBreaker p) of
               (Inl e, b) \<Rightarrow> (refuse i store (BreakerRejected e) t, set_pool name (p\<lparr>circuitBreaker := b\<rparr>) s)
             | (Inr permit, b) \<Rightarrow> (goto (AtBackend i store name permit) t, set_pool name (p\<lparr>circuitBreaker := b\<rparr>) s)))"

definition on_pool :: "string \<Rightarrow> (pool \<Rightarrow> pool) \<Rightarrow> gateway_world \<Rightarrow> gateway_world" where
  "on_pool name f s = (case map_of (gw_pools (gateway s)) name of None \<Rightarrow> s | Some p \<Rightarrow> set_pool name (f p) s)"

definition step_backend :: "nat \<Rightarrow> string option \<Rightarrow> string \<Rightarrow> Permit \<Rightarrow> thread \<Rightarrow> gateway_world \<Rightarrow> thread \<times> gateway_world" where
  "step_backend i store name permit t s =
    (case map_of (gw_pools (gateway s)) name of
       None \<Rightarrow> (leave i store (Panicked (PanicValue ''nil pool'')) (th_writer t) t, s)
     | Some p \<Rightarrow>
         (case Pool_Acquire (balancer p) of
            (None, q) \<Rightarrow> (goto (AtCancel i store name permit) t, set_pool name (p\<lparr>balancer := q\<rparr>) s)
          | (Some k, q) \<Rightarrow>
              (case find (\<lambda>u. backend_index u = k) (upstreams p) of
                 Some u \<Rightarrow> (goto (AtProxy i store name u permit) t, set_pool name (p\<lparr>balancer := q\<rparr>) s)
               | None \<Rightarrow> (goto (AtUnmatched i store name k permit) t, set_pool name (p\<lparr>balancer := q\<rparr>) s))))"

definition pool_release :: "nat \<Rightarrow> pool \<Rightarrow> pool" where
  "pool_release k p = p\<lparr>balancer := on_backend k Backend_Release (balancer p)\<rparr>"

definition pool_cancel :: "Permit \<Rightarrow> pool \<Rightarrow> pool" where
  "pool_cancel permit p = p\<lparr>circuitBreaker := snd (Permit_Cancel (Some permit) (circuitBreaker p))\<rparr>"

definition pool_report :: "ProxyOutcome \<Rightarrow> time \<Rightarrow> Permit \<Rightarrow> pool \<Rightarrow> pool" where
  "pool_report outcome now permit p = p\<lparr>circuitBreaker := snd (proxy_reports outcome now permit (circuitBreaker p))\<rparr>"

definition step_proxy ::
  "nat \<Rightarrow> string option \<Rightarrow> string \<Rightarrow> upstream \<Rightarrow> Permit \<Rightarrow> thread \<Rightarrow> gateway_world \<Rightarrow> thread \<times> gateway_world" where
  "step_proxy i store name u permit t s =
    (let E = th_env t; r = th_request t;
         s = SetBackend r (backendLogValue (target u)) s;
         (outcome, ended, w) = ReverseProxy_ServeHTTP (env_proxy E) (target u) (RequestID r s) r (th_writer t)
     in (t\<lparr>th_writer := w, th_stage := AtRelease i store name u ended\<rparr>,
         on_pool name (pool_report outcome (at_report E) permit) s))"

definition step_store :: "nat \<Rightarrow> string \<Rightarrow> Header response_value \<Rightarrow> thread \<Rightarrow> gateway_world \<Rightarrow> thread \<times> gateway_world" where
  "step_store i key v t s =
    (finish Returned (th_writer t) t,
     set_route i (\<lambda>rt. rt\<lparr>responseCache := map_option (Cache_Set (at_store (th_env t)) key v) (responseCache rt)\<rparr>) s)"

definition thread_step :: "thread \<Rightarrow> gateway_world \<Rightarrow> thread \<times> gateway_world" where
  "thread_step t s =
    (case th_stage t of
       AtEntry \<Rightarrow> step_entry t s
     | AtLimit i \<Rightarrow> step_limit i t s
     | AtLookup i \<Rightarrow> step_lookup i t s
     | AtPermit i store \<Rightarrow> step_permit i store t s
     | AtBackend i store name permit \<Rightarrow> step_backend i store name permit t s
     | AtUnmatched i store name k permit \<Rightarrow> (goto (AtCancel i store name permit) t, on_pool name (pool_release k) s)
     | AtCancel i store name permit \<Rightarrow> (refuse i store errNoHealthyBackends t, on_pool name (pool_cancel permit) s)
     | AtProxy i store name u permit \<Rightarrow> step_proxy i store name u permit t s
     | AtRelease i store name u ended \<Rightarrow> (leave i store ended (th_writer t) t, on_pool name (pool_release (backend_index u)) s)
     | AtStore i key v \<Rightarrow> step_store i key v t s
     | Finished ended \<Rightarrow> (t, s))"

section \<open>Every request comes to its end\<close>

fun rank :: "stage \<Rightarrow> nat" where
  "rank AtEntry = 8"
| "rank (AtLimit i) = 7"
| "rank (AtLookup i) = 6"
| "rank (AtPermit i store) = 5"
| "rank (AtBackend i store name permit) = 4"
| "rank (AtUnmatched i store name k permit) = 3"
| "rank (AtProxy i store name u permit) = 3"
| "rank (AtCancel i store name permit) = 2"
| "rank (AtRelease i store name u ended) = 2"
| "rank (AtStore i key v) = 1"
| "rank (Finished ended) = 0"

lemma goto_fields [simp]:
  "th_stage (goto st t) = st" "th_env (goto st t) = th_env t" "th_request (goto st t) = th_request t" "th_writer (goto st t) = th_writer t"
  by (simp_all add: goto_def)

lemma finish_fields [simp]:
  "th_stage (finish ended w t) = Finished ended" "th_env (finish ended w t) = th_env t"
  "th_request (finish ended w t) = th_request t" "th_writer (finish ended w t) = w"
  by (simp_all add: finish_def)

lemma leave_fields [simp]:
  "rank (th_stage (leave i store ended v t)) \<le> Suc 0" "th_env (leave i store ended v t) = th_env t"
  "th_request (leave i store ended v t) = th_request t"
  by (auto simp: leave_def Let_def split: option.splits prod.splits)

lemma refuse_fields [simp]:
  "rank (th_stage (refuse i store e t)) \<le> Suc 0" "th_env (refuse i store e t) = th_env t"
  "th_request (refuse i store e t) = th_request t"
  by (simp_all add: refuse_def Let_def split: prod.splits)

lemma leave_less [simp]: "Suc 0 < n \<Longrightarrow> rank (th_stage (leave i store ended v t)) < n"
  by (rule le_less_trans [OF leave_fields(1)])

lemma refuse_less [simp]: "Suc 0 < n \<Longrightarrow> rank (th_stage (refuse i store e t)) < n"
  by (rule le_less_trans [OF refuse_fields(1)])

lemma rank_0: "rank st = 0 \<longleftrightarrow> (\<exists>ended. st = Finished ended)"
  by (cases st) auto

lemma step_entry_rank: "rank (th_stage (fst (step_entry t s))) < 8"
  by (simp add: step_entry_def Let_def split: prod.splits option.splits)

lemma step_limit_rank: "rank (th_stage (fst (step_limit i t s))) < 7"
  by (simp add: step_limit_def Let_def split: prod.splits option.splits)

lemma step_lookup_rank: "rank (th_stage (fst (step_lookup i t s))) < 6"
  by (simp add: step_lookup_def Let_def split: prod.splits option.splits)

lemma step_permit_rank: "rank (th_stage (fst (step_permit i store t s))) < 5"
  by (simp add: step_permit_def Let_def split: prod.splits option.splits sum.splits)

lemma step_backend_rank: "rank (th_stage (fst (step_backend i store name permit t s))) < 4"
  by (simp add: step_backend_def Let_def split: prod.splits option.splits)

lemma thread_step_rank:
  assumes "0 < rank (th_stage t)"
  shows "rank (th_stage (fst (thread_step t s))) < rank (th_stage t)"
  using assms step_entry_rank [of t s] step_limit_rank [of _ t s] step_lookup_rank [of _ t s] step_permit_rank [of _ _ t s]
    step_backend_rank [of _ _ _ _ t s]
  by (cases "th_stage t") (simp_all add: thread_step_def step_proxy_def step_store_def Let_def split: prod.splits)

text \<open>A thread that runs without interruption.\<close>

function complete :: "thread \<times> gateway_world \<Rightarrow> thread \<times> gateway_world" where
  "complete (t, s) = (if rank (th_stage t) = 0 then (t, s) else complete (thread_step t s))"
  by pat_completeness auto

termination complete
proof (relation "measure (\<lambda>(t, s). rank (th_stage t))")
  fix t :: thread and s assume "rank (th_stage t) \<noteq> 0"
  then show "(thread_step t s, t, s) \<in> measure (\<lambda>(t, s). rank (th_stage t))"
    using thread_step_rank [of t s] by (simp add: split_beta)
qed simp

declare complete.simps [simp del]

lemma complete_Finished: "th_stage t = Finished ended \<Longrightarrow> complete (t, s) = (t, s)"
  by (simp add: complete.simps)

lemma complete_step: "0 < rank (th_stage t) \<Longrightarrow> complete (t, s) = complete (thread_step t s)"
  by (subst complete.simps) simp

lemma complete_rank: "rank (th_stage (fst (complete x))) = 0"
proof (induction x rule: complete.induct)
  case (1 t s)
  then show ?case by (cases "rank (th_stage t) = 0") (simp_all add: complete.simps [of t s])
qed

lemma steps_complete:
  assumes "rank (th_stage t) \<le> n"
  shows "((\<lambda>(t, s). thread_step t s) ^^ n) (t, s) = complete (t, s)"
  using assms
proof (induction n arbitrary: t s)
  case 0
  then show ?case by (simp add: complete.simps)
next
  case (Suc n)
  obtain t' s' where st: "thread_step t s = (t', s')" by fastforce
  show ?case
  proof (cases "rank (th_stage t) = 0")
    case True
    then have "thread_step t s = (t, s)" by (auto simp: rank_0 thread_step_def)
    then show ?thesis using Suc True by (simp add: funpow_swap1 complete.simps)
  next
    case False
    then have "rank (th_stage t') \<le> n" using thread_step_rank [of t s] Suc.prems st by simp
    then show ?thesis using Suc.IH [of t' s'] st False by (simp add: funpow_swap1 complete_step)
  qed
qed

section \<open>A thread by itself is a request\<close>

definition answer :: "thread \<times> gateway_world \<Rightarrow> flow \<times> writer \<times> gateway_world" where
  "answer x =
    ((case th_stage (fst x) of Finished ended \<Rightarrow> ended | _ \<Rightarrow> Returned), th_writer (fst x), snd x)"

lemma answer_finish [simp]: "answer (complete (finish ended w t, s)) = (ended, w, s)"
  by (simp add: complete_Finished answer_def)

declare update_conv' [simp]

lemma set_pool_twice [simp]: "set_pool name q (set_pool name p s) = set_pool name q s"
proof -
  have "AList.update name q (AList.update name p xs) = AList.update name q xs" for xs :: "(string \<times> pool) list"
    by (induction xs) auto
  then show ?thesis by (simp add: set_pool_def)
qed

lemma answer_leave_None [simp]: "answer (complete (leave i None ended v t, s)) = (ended, v, s)"
  by (simp add: leave_def)

lemma leave_other [simp]:
  "leave i store ended v (goto st t) = leave i store ended v t"
  "leave i store ended v (t\<lparr>th_writer := w, th_stage := st\<rparr>) = leave i store ended v t"
  by (simp_all add: leave_def goto_def finish_def Let_def split: option.splits prod.splits)

lemma refuse_goto [simp]: "refuse i store e (goto st t) = refuse i store e t"
  by (simp add: refuse_def split: prod.splits)

lemma refuse_eq: "serveRoute_rejection e = (message, code) \<Longrightarrow>
    refuse i store e t = leave i store Returned (http_Error (env_U (th_env t)) message code (th_writer t)) t"
  by (simp add: refuse_def)

lemma pool_fields_swap: "p\<lparr>balancer := q, circuitBreaker := b\<rparr> = p\<lparr>circuitBreaker := b, balancer := q\<rparr>" for p :: pool
  by simp

lemmas thread_steps = complete_step thread_step_def step_permit_def step_backend_def step_proxy_def on_pool_def
  pool_release_def pool_cancel_def pool_report_def

lemma backend_complete:
  assumes "th_stage t = AtBackend i store name permit" "map_of (gw_pools (gateway s)) name = Some p"
    and "Pool_Acquire (balancer p) = (y, q)"
  shows "complete (t, s) = (case y of
      None \<Rightarrow> complete (refuse i store errNoHealthyBackends t,
        set_pool name (p\<lparr>circuitBreaker := snd (Permit_Cancel (Some permit) (circuitBreaker p)), balancer := q\<rparr>) s)
    | Some k \<Rightarrow> (case find (\<lambda>u. backend_index u = k) (upstreams p) of
        None \<Rightarrow> complete (refuse i store errNoHealthyBackends t,
          set_pool name (p\<lparr>circuitBreaker := snd (Permit_Cancel (Some permit) (circuitBreaker p)),
            balancer := on_backend k Backend_Release q\<rparr>) s)
      | Some u \<Rightarrow> complete (goto (AtProxy i store name u permit) t, set_pool name (p\<lparr>balancer := q\<rparr>) s)))"
  using assms by (simp add: thread_steps pool_fields_swap split: option.splits)

lemma proxy_complete:
  assumes "th_stage t = AtProxy i store name u permit" "map_of (gw_pools (gateway s)) name = Some p"
    and "ReverseProxy_ServeHTTP (env_proxy (th_env t)) (target u)
      (RequestID (th_request t) (SetBackend (th_request t) (backendLogValue (target u)) s)) (th_request t) (th_writer t) = (outcome, ended, v)"
  shows "complete (t, s) = complete (leave i store ended v t,
    set_pool name (serveRoute_finish outcome (at_report (th_env t)) u permit p) (SetBackend (th_request t) (backendLogValue (target u)) s))"
  using assms by (simp add: thread_steps serveRoute_finish_def Let_def)

lemma SetBackend_set_pool [simp]: "SetBackend r b (set_pool name p s) = set_pool name p (SetBackend r b s)"
  by (simp add: SetBackend_def set_pool_def split: option.splits)

lemma RequestID_set_pool [simp]: "RequestID r (set_pool name p s) = RequestID r s"
  by (simp add: RequestID_def set_pool_def split: option.splits)

lemma serveRoute_complete:
  assumes "th_stage t = AtPermit i store" "serveRoute (th_env t) i (th_request t) (th_writer t) s = (ended, v, s')"
  shows "complete (t, s) = complete (leave i store ended v t, s')"
proof (cases "map_of (gw_pools (gateway s)) (route_pool (route_at i s))")
  case None
  then show ?thesis using assms by (simp add: thread_steps serveRoute_def Let_def)
next
  case (Some p)
  let ?name = "route_pool (route_at i s)"
  obtain x b where acq: "Breaker_Acquire (at_acquire (th_env t)) (circuitBreaker p) = (x, b)" by fastforce
  show ?thesis
  proof (cases x)
    case (Inl e)
    then show ?thesis using assms Some acq
      by (auto simp: thread_steps serveRoute_def pool_acquire_def refuse_def Let_def split: prod.splits)
  next
    case (Inr permit)
    let ?t = "goto (AtBackend i store ?name permit) t" and ?p = "p\<lparr>circuitBreaker := b\<rparr>"
    obtain y q where bal: "Pool_Acquire (balancer ?p) = (y, q)" by fastforce
    have first: "complete (t, s) = complete (?t, set_pool ?name ?p s)"
      using assms(1) Some acq Inr by (simp add: thread_steps Let_def)
    note second = backend_complete [where t = ?t and s = "set_pool ?name ?p s", OF _ _ bal, of i store ?name permit]
    obtain message code where rej: "serveRoute_rejection errNoHealthyBackends = (message, code)" by fastforce
    show ?thesis
    proof (cases "\<exists>k u. y = Some k \<and> find (\<lambda>u. backend_index u = k) (upstreams p) = Some u")
      case True
      then obtain k u where u: "y = Some k" "find (\<lambda>u. backend_index u = k) (upstreams p) = Some u" by blast
      let ?t' = "goto (AtProxy i store ?name u permit) ?t" and ?q = "p\<lparr>circuitBreaker := b, balancer := q\<rparr>"
      obtain outcome en w where px: "ReverseProxy_ServeHTTP (env_proxy (th_env t)) (target u)
          (RequestID (th_request t) (SetBackend (th_request t) (backendLogValue (target u)) s)) (th_request t) (th_writer t)
        = (outcome, en, w)" using prod_cases3 by blast
      have "complete (t, s) = complete (?t', set_pool ?name ?q s)" using first second u by simp
      also have "\<dots> = complete (leave i store en w t, set_pool ?name (serveRoute_finish outcome (at_report (th_env t)) u permit ?q)
          (SetBackend (th_request t) (backendLogValue (target u)) s))"
        using proxy_complete [of ?t' i store ?name u permit "set_pool ?name ?q s" ?q outcome en w] px by simp
      finally show ?thesis using assms(2) Some acq Inr bal u px by (auto simp: serveRoute_def pool_acquire_def Let_def)
    next
      case False
      then show ?thesis
        using first second assms(2) Some acq Inr bal rej
        by (auto simp: serveRoute_def pool_acquire_def refuse_eq split: option.splits)
    qed
  qed
qed

lemma leave_Some_complete:
  "answer (complete (leave i (Some key) ended v t, s)) =
    (let (capture, w) = capturing_of v
     in if ended \<noteq> Returned then (ended, w, s)
        else (case cacheResponseWriter_response (env_U (th_env t)) (writer_Header w) capture of
            None \<Rightarrow> (Returned, w, s)
          | Some (statusCode, header, body) \<Rightarrow> (Returned, w,
              set_route i (\<lambda>rt. rt\<lparr>responseCache := map_option (Cache_Set (at_store (th_env t)) key
                (statusCode, Header_Del CacheStatusHeader (Header_Del IDHeader header), body)) (responseCache rt)\<rparr>) s)))"
  by (simp add: leave_def Let_def complete_step thread_step_def step_store_def split: prod.splits option.splits)

lemma lookup_complete:
  assumes "th_stage t = AtLookup i"
  shows "answer (complete (t, s)) =
    (if responseCache (route_at i s) \<noteq> None then cacheResponses (th_env t) i (serveRoute (th_env t) i) else serveRoute (th_env t) i)
      (th_request t) (th_writer t) s"
proof -
  let ?E = "th_env t" and ?r = "th_request t" and ?w = "th_writer t"
  have direct: "answer (complete (goto (AtPermit i None) t, s)) = serveRoute ?E i ?r ?w s"
    by (cases "serveRoute ?E i ?r ?w s") (simp add: serveRoute_complete [of _ i None])
  show ?thesis
  proof (cases "isCacheableRequest (env_U ?E) ?r \<and> responseCache (route_at i s) \<noteq> None")
    case False
    then show ?thesis using assms direct
      by (auto simp: complete_step thread_step_def step_lookup_def cacheResponses_def Let_def)
  next
    case True
    then obtain c where c: "responseCache (route_at i s) = Some c" by blast
    obtain hit c' where get: "Cache_Get (at_lookup ?E) (responseCacheKey (env_U ?E) ?r) c = (hit, c')" by fastforce
    let ?s = "set_route i (responseCache_update (\<lambda>_. Some c')) s"
    show ?thesis
    proof (cases hit)
      case (Some v)
      then show ?thesis using True assms c get
        by (simp add: complete_step thread_step_def step_lookup_def cacheResponses_def Let_def split: prod.splits)
    next
      case None
      let ?v = "Capturing new_capturing (update_header (Header_Set CacheStatusHeader ''MISS'') ?w)"
      let ?key = "responseCacheKey (env_U ?E) ?r"
      let ?t = "t\<lparr>th_writer := ?v, th_stage := AtPermit i (Some ?key)\<rparr>"
      obtain ended v s1 where run: "serveRoute ?E i ?r ?v ?s = (ended, v, s1)" using prod_cases3 by blast
      have "complete (t, s) = complete (?t, ?s)"
        using True assms c get None by (simp add: complete_step thread_step_def step_lookup_def Let_def)
      also have "\<dots> = complete (leave i (Some ?key) ended v ?t, s1)"
        by (rule serveRoute_complete) (use run in simp_all)
      finally show ?thesis
        using True c get None run by (simp add: leave_Some_complete cacheResponses_def Let_def split: prod.split option.split)
    qed
  qed
qed

lemma limit_complete:
  assumes "th_stage t = AtLimit i"
  shows "answer (complete (t, s)) =
    Chain ((if limiter (route_at i s) \<noteq> None then [rateLimit (th_env t) i] else []) @
      (if responseCache (route_at i s) \<noteq> None then [cacheResponses (th_env t) i] else [])) (serveRoute (th_env t) i)
      (th_request t) (th_writer t) s"
proof -
  have passed: "answer (complete (goto (AtLookup i) t, s')) =
      Chain (if responseCache (route_at i s) \<noteq> None then [cacheResponses (th_env t) i] else []) (serveRoute (th_env t) i)
        (th_request t) (th_writer t) s'"
    if "responseCache (route_at i s') = responseCache (route_at i s)" for s'
    using lookup_complete [of "goto (AtLookup i) t" i s'] that by (simp add: Chain_def)
  have same: "responseCache (route_at i (set_route i (limiter_update (\<lambda>_. l)) s)) = responseCache (route_at i s)" for l
    by (cases "i < length (gw_routes (gateway s))") (simp_all add: set_route_def list_update_beyond)
  show ?thesis
  proof (cases "limiter (route_at i s)")
    case None
    then show ?thesis using assms passed [of s] by (simp add: complete_step thread_step_def step_limit_def Let_def)
  next
    case (Some l)
    let ?E = "th_env t"
    obtain allowed l' where "ClientLimiter_Allow (at_limit ?E)
        (clientKeyFromRemoteAddr (env_ParseAddrPort ?E) (env_ParseAddr ?E) (RemoteAddr (th_request t))) l = (allowed, l')" by fastforce
    then show ?thesis
      using Some assms passed [OF same, of "Some l'"]
      by (simp add: complete_step thread_step_def step_limit_def rateLimit_def Chain_def Let_def)
  qed
qed

lemma auth_passes:
  "APIKeyAuth U Sum256 keys nxt r w s =
    (case APIKeyAuth U Sum256 keys (\<lambda>r w s. (Returned, w, Some r)) r w None of
       (ended, w, None) \<Rightarrow> (ended, w, s) | (ended, w, Some r) \<Rightarrow> nxt r w s)"
  by (simp add: APIKeyAuth_def Let_def)

definition arriving :: "request_env \<Rightarrow> Request \<Rightarrow> writer \<Rightarrow> thread" where
  "arriving E r w = \<lparr>th_env = E, th_request = r, th_writer = w, th_stage = AtEntry\<rparr>"

lemma entry_complete: "answer (complete (arriving E r w, s)) = ServeHTTP E r w s"
proof -
  obtain r' s' where e: "Ensure (env_ids E) r s = (r', s')" by fastforce
  let ?w = "update_header (Header_Set IDHeader (RequestID r' s')) w"
  have step: "complete (arriving E r w, s) = complete (step_entry (arriving E r w) s)"
    by (simp add: complete_step thread_step_def arriving_def)
  show ?thesis
  proof (cases "matchRoute (gw_routes (gateway s')) (Path (requestURL r'))")
    case None
    then show ?thesis unfolding step by (simp add: step_entry_def ServeHTTP_def e arriving_def Let_def)
  next
    case (Some i)
    let ?s = "SetRoute r' (pathPrefix (route_at i s')) s'"
    have go: "answer (complete (t, ?s)) = open_handler E i ?s (th_request t) (th_writer t) ?s"
      if "th_stage t = AtLimit i" "th_env t = E" for t
      using limit_complete [OF that(1), of ?s] that(2) by (simp add: open_handler_def)
    obtain ended w2 passed where auth: "APIKeyAuth (env_U E) (env_Sum256 E) (gw_apiKeys (gateway s'))
        (\<lambda>r w s. (Returned, w, Some r)) r' ?w None = (ended, w2, passed)" using prod_cases3 by blast
    show ?thesis
      unfolding step ServeHTTP_def e Let_def prod.case Some option.case route_handler_open
      by (cases passed) (simp_all add: step_entry_def e Some arriving_def go Let_def auth
          auth_passes [of "env_U E" "env_Sum256 E" "gw_apiKeys (gateway s')" "open_handler E i ?s" r' ?w ?s])
  qed
qed

end
