(* ===== verification/Concurrent_Gateway.thy ===== *)
theory Concurrent_Gateway
  imports Request_Thread Pool_Use
begin

text \<open>
  The gateway under concurrent requests: the threads of \<^verbatim>\<open>Request_Thread\<close> share one gateway and take
  their steps in any order, requests arrive and health checks change backends at any moment.

  Shown here: whatever the interleaving, each pool accounts for exactly the requests that use it,
  because every step is at most one operation of \<^verbatim>\<open>Pool_Use\<close> on a pool; and every request comes to
  its end in a bounded number of its own steps, whatever the others do.
\<close>

section \<open>Concurrent requests\<close>

record concurrent =
  cg_world :: gateway_world
  cg_threads :: "thread list"

datatype cg_event =
    Arrive request_env Request writer
  | Advance nat
  | HealthSet string nat bool

definition pool_set_health :: "nat \<Rightarrow> bool \<Rightarrow> pool \<Rightarrow> pool" where
  "pool_set_health i h p =
    (if i < length (backends (balancer p)) then p\<lparr>balancer := on_backend i (Backend_SetHealthy h) (balancer p)\<rparr> else p)"

fun cg_exec :: "concurrent \<Rightarrow> cg_event \<Rightarrow> concurrent" where
  "cg_exec c (Arrive E r w) = c\<lparr>cg_threads := cg_threads c @ [arriving E r w]\<rparr>"
| "cg_exec c (Advance j) =
    (if j < length (cg_threads c)
     then let (t, s) = thread_step (cg_threads c ! j) (cg_world c)
          in c\<lparr>cg_world := s, cg_threads := (cg_threads c)[j := t]\<rparr>
     else c)"
| "cg_exec c (HealthSet name i h) = c\<lparr>cg_world := on_pool name (pool_set_health i h) (cg_world c)\<rparr>"

definition cg_start :: "gateway_world \<Rightarrow> concurrent" where
  "cg_start s = \<lparr>cg_world = s, cg_threads = []\<rparr>"

text \<open>What a thread holds of the pool of a name.\<close>

fun stage_permit :: "string \<Rightarrow> stage \<Rightarrow> Permit option" where
  "stage_permit name (AtBackend i store n permit) = (if n = name then Some permit else None)"
| "stage_permit name (AtUnmatched i store n k permit) = (if n = name then Some permit else None)"
| "stage_permit name (AtCancel i store n permit) = (if n = name then Some permit else None)"
| "stage_permit name (AtProxy i store n u permit) = (if n = name then Some permit else None)"
| "stage_permit name _ = None"

fun stage_backend :: "string \<Rightarrow> stage \<Rightarrow> nat option" where
  "stage_backend name (AtUnmatched i store n k permit) = (if n = name then Some k else None)"
| "stage_backend name (AtProxy i store n u permit) = (if n = name then Some (backend_index u) else None)"
| "stage_backend name (AtRelease i store n u ended) = (if n = name then Some (backend_index u) else None)"
| "stage_backend name _ = None"

abbreviation pool_at :: "string \<Rightarrow> concurrent \<Rightarrow> pool" where
  "pool_at name c \<equiv> the (map_of (gw_pools (gateway (cg_world c))) name)"

definition of_thread :: "(stage \<Rightarrow> 'a option) \<Rightarrow> thread list \<Rightarrow> nat \<Rightarrow> 'a option" where
  "of_thread f ts j = (if j < length ts then f (th_stage (ts ! j)) else None)"

definition use_of :: "string \<Rightarrow> concurrent \<Rightarrow> pool_use" where
  "use_of name c =
    \<lparr>used_pool = pool_at name c, permit_of = of_thread (stage_permit name) (cg_threads c),
     backend_of = of_thread (stage_backend name) (cg_threads c)\<rparr>"

subsection \<open>A step is at most one operation on a pool\<close>

lemma leave_holds_nothing [simp]:
  "stage_permit name (th_stage (leave i store ended v t)) = None" "stage_backend name (th_stage (leave i store ended v t)) = None"
  by (auto simp: leave_def Let_def split: option.splits prod.splits)

lemma refuse_holds_nothing [simp]:
  "stage_permit name (th_stage (refuse i store e t)) = None" "stage_backend name (th_stage (refuse i store e t)) = None"
  by (simp_all add: refuse_def split: prod.splits)

definition moved :: "string \<Rightarrow> nat \<Rightarrow> thread \<Rightarrow> gateway_world \<Rightarrow> pool_use \<Rightarrow> pool_use" where
  "moved name j t s u =
    u\<lparr>used_pool := the (map_of (gw_pools (gateway s)) name),
      permit_of := (permit_of u)(j := stage_permit name (th_stage t)),
      backend_of := (backend_of u)(j := stage_backend name (th_stage t))\<rparr>"

definition uses_at_most_once :: "string \<Rightarrow> nat \<Rightarrow> thread \<Rightarrow> gateway_world \<Rightarrow> thread \<times> gateway_world \<Rightarrow> bool" where
  "uses_at_most_once name j t s x =
    (\<forall>u. used_pool u = the (map_of (gw_pools (gateway s)) name) \<longrightarrow> permit_of u j = stage_permit name (th_stage t) \<longrightarrow>
       backend_of u j = stage_backend name (th_stage t) \<longrightarrow>
       (\<exists>es. length es \<le> 1 \<and> foldl use_exec u es = moved name j (fst x) (snd x) u) \<and>
       map_of (gw_pools (gateway (snd x))) name \<noteq> None)"

lemma uses_none:
  assumes "map_of (gw_pools (gateway s)) name = Some p" "map_of (gw_pools (gateway (snd x))) name = Some p"
    and "stage_permit name (th_stage (fst x)) = stage_permit name (th_stage t)"
    and "stage_backend name (th_stage (fst x)) = stage_backend name (th_stage t)"
  shows "uses_at_most_once name j t s x"
  unfolding uses_at_most_once_def
proof (intro allI impI conjI)
  fix u :: pool_use assume u: "used_pool u = the (map_of (gw_pools (gateway s)) name)" "permit_of u j = stage_permit name (th_stage t)"
    "backend_of u j = stage_backend name (th_stage t)"
  have "(permit_of u)(j := stage_permit name (th_stage t)) = permit_of u"
    "(backend_of u)(j := stage_backend name (th_stage t)) = backend_of u"
    using u(2,3) by (auto simp: fun_eq_iff)
  then have "moved name j (fst x) (snd x) u = u" using assms u(1) unfolding moved_def by simp
  then show "\<exists>es. length es \<le> 1 \<and> foldl use_exec u es = moved name j (fst x) (snd x) u" by (intro exI [of _ "[]"]) simp
qed (use assms in simp)

lemma uses_one:
  assumes "map_of (gw_pools (gateway (snd x))) name \<noteq> None"
    and "\<And>u. used_pool u = the (map_of (gw_pools (gateway s)) name) \<Longrightarrow> permit_of u j = stage_permit name (th_stage t) \<Longrightarrow>
      backend_of u j = stage_backend name (th_stage t) \<Longrightarrow> use_exec u e = moved name j (fst x) (snd x) u"
  shows "uses_at_most_once name j t s x"
  unfolding uses_at_most_once_def using assms by (auto intro!: exI [of _ "[e]"])

lemma on_pool_other: "n \<noteq> name \<Longrightarrow> map_of (gw_pools (gateway (on_pool n f s))) name = map_of (gw_pools (gateway s)) name"
  by (simp add: on_pool_def split: option.splits)

lemma on_pool_same:
  "map_of (gw_pools (gateway s)) name = Some p \<Longrightarrow> map_of (gw_pools (gateway (on_pool name f s))) name = Some (f p)"
  by (simp add: on_pool_def)

lemma quiet_steps:
  "gw_pools (gateway (snd (step_entry t s))) = gw_pools (gateway s)"
  "gw_pools (gateway (snd (step_limit i t s))) = gw_pools (gateway s)"
  "gw_pools (gateway (snd (step_lookup i t s))) = gw_pools (gateway s)"
  "gw_pools (gateway (snd (step_store i key v t s))) = gw_pools (gateway s)"
  by (auto simp: step_entry_def step_limit_def step_lookup_def step_store_def Let_def gateway_Ensure
      split: prod.splits option.splits)

lemma quiet_steps_hold_nothing:
  "stage_permit name (th_stage (fst (step_entry t s))) = None" "stage_backend name (th_stage (fst (step_entry t s))) = None"
  "stage_permit name (th_stage (fst (step_limit i t s))) = None" "stage_backend name (th_stage (fst (step_limit i t s))) = None"
  "stage_permit name (th_stage (fst (step_lookup i t s))) = None" "stage_backend name (th_stage (fst (step_lookup i t s))) = None"
  "stage_permit name (th_stage (fst (step_store i key v t s))) = None" "stage_backend name (th_stage (fst (step_store i key v t s))) = None"
  by (simp_all add: step_entry_def step_limit_def step_lookup_def step_store_def Let_def split: prod.splits option.splits)

lemma uses_step_permit:
  assumes "map_of (gw_pools (gateway s)) name = Some p" "th_stage t = AtPermit i store"
  shows "uses_at_most_once name j t s (step_permit i store t s)"
proof (cases "route_pool (route_at i s) = name")
  case True
  obtain r b where "Breaker_Acquire (at_acquire (th_env t)) (circuitBreaker p) = (r, b)" by fastforce
  with assms True show ?thesis
    by (intro uses_one [where e = "TakePermit j (at_acquire (th_env t))"]; cases r)
      (auto simp: step_permit_def moved_def use_exec.simps fun_upd_idem)
next
  case False
  with assms show ?thesis
    by (intro uses_none [OF assms(1)]) (auto simp: step_permit_def Let_def split: option.split prod.split sum.split)
qed

lemma uses_step_backend:
  assumes "map_of (gw_pools (gateway s)) name = Some p" "th_stage t = AtBackend i store n permit"
  shows "uses_at_most_once name j t s (step_backend i store n permit t s)"
proof (cases "n = name")
  case True
  obtain r q where acq: "Pool_Acquire (balancer p) = (r, q)" by fastforce
  have found: "backend_index u = k" if "find (\<lambda>u. backend_index u = k) us = Some u" for us :: "upstream list" and u k
    using that by (auto simp: find_Some_iff)
  from acq assms True show ?thesis
    by (intro uses_one [where e = "TakeBackend j"]; cases r)
      (auto simp: step_backend_def moved_def use_exec.simps fun_upd_idem dest: found split: option.splits)
next
  case False
  with assms show ?thesis
    by (intro uses_none [OF assms(1)]) (auto simp: step_backend_def Let_def split: option.split prod.split)
qed

text \<open>A step that gives something up, on the pool of a thread.\<close>

lemma uses_on_pool:
  assumes "map_of (gw_pools (gateway s)) name = Some p" "gw_pools (gateway s1) = gw_pools (gateway s)"
    and "n \<noteq> name \<Longrightarrow> stage_permit name (th_stage t') = stage_permit name (th_stage t)"
    and "n \<noteq> name \<Longrightarrow> stage_backend name (th_stage t') = stage_backend name (th_stage t)"
    and "\<And>u. n = name \<Longrightarrow> used_pool u = p \<Longrightarrow> permit_of u j = stage_permit name (th_stage t) \<Longrightarrow>
      backend_of u j = stage_backend name (th_stage t) \<Longrightarrow>
      use_exec u e = u\<lparr>used_pool := f p, permit_of := (permit_of u)(j := stage_permit name (th_stage t')),
        backend_of := (backend_of u)(j := stage_backend name (th_stage t'))\<rparr>"
  shows "uses_at_most_once name j t s (t', on_pool n f s1)"
proof (cases "n = name")
  case True
  have "map_of (gw_pools (gateway s1)) name = Some p" using assms(1,2) by simp
  note after = on_pool_same [OF this, of f]
  show ?thesis
    by (rule uses_one [where e = e]) (use True after assms(1,5) in \<open>simp_all add: moved_def\<close>)
next
  case False
  then show ?thesis using assms(1-4) by (intro uses_none [OF assms(1)]) (simp_all add: on_pool_other)
qed

lemma thread_step_uses:
  assumes p: "map_of (gw_pools (gateway s)) name = Some p"
  shows "uses_at_most_once name j t s (thread_step t s)"
proof (cases "th_stage t")
  case (AtUnmatched i store n k permit)
  have "uses_at_most_once name j t s (goto (AtCancel i store n permit) t, on_pool n (pool_release k) s)"
    by (rule uses_on_pool [OF p refl, where e = "ReleaseBackend j"])
      (auto simp: AtUnmatched use_exec.simps pool_release_def fun_upd_idem)
  then show ?thesis by (simp add: thread_step_def AtUnmatched)
next
  case (AtCancel i store n permit)
  have "uses_at_most_once name j t s (refuse i store errNoHealthyBackends t, on_pool n (pool_cancel permit) s)"
    by (rule uses_on_pool [OF p refl, where e = "CancelPermit j"])
      (auto simp: AtCancel use_exec.simps pool_cancel_def fun_upd_idem)
  then show ?thesis by (simp add: thread_step_def AtCancel)
next
  case (AtProxy i store n u permit)
  obtain outcome ended w where run: "ReverseProxy_ServeHTTP (env_proxy (th_env t)) (target u)
      (RequestID (th_request t) (SetBackend (th_request t) (backendLogValue (target u)) s)) (th_request t) (th_writer t) = (outcome, ended, w)"
    using prod_cases3 by blast
  have "uses_at_most_once name j t s (t\<lparr>th_writer := w, th_stage := AtRelease i store n u ended\<rparr>,
      on_pool n (pool_report outcome (at_report (th_env t)) permit) (SetBackend (th_request t) (backendLogValue (target u)) s))"
    by (rule uses_on_pool [OF p, where e = "ReportOutcome j outcome (at_report (th_env t))"])
      (auto simp: AtProxy use_exec.simps pool_report_def fun_upd_idem)
  then show ?thesis using run by (simp add: thread_step_def step_proxy_def AtProxy)
next
  case (AtRelease i store n u ended)
  have "uses_at_most_once name j t s (leave i store ended (th_writer t) t, on_pool n (pool_release (backend_index u)) s)"
    by (rule uses_on_pool [OF p refl, where e = "ReleaseBackend j"])
      (auto simp: AtRelease use_exec.simps pool_release_def fun_upd_idem)
  then show ?thesis by (simp add: thread_step_def AtRelease)
qed (use p in \<open>simp_all add: thread_step_def uses_step_permit uses_step_backend uses_none quiet_steps quiet_steps_hold_nothing\<close>)

subsection \<open>Every event is at most one operation on a pool\<close>

definition has_pool_at :: "string \<Rightarrow> concurrent \<Rightarrow> bool" where
  "has_pool_at name c = (map_of (gw_pools (gateway (cg_world c))) name \<noteq> None)"

lemma of_thread_update: "j < length ts \<Longrightarrow> of_thread f (ts[j := t]) = (of_thread f ts)(j := f (th_stage t))"
  by (auto simp: of_thread_def fun_eq_iff)

lemma of_thread_arrive: "f AtEntry = None \<Longrightarrow> of_thread f (ts @ [arriving E r w]) = of_thread f ts"
  by (auto simp: of_thread_def fun_eq_iff nth_append arriving_def)

lemma use_of_advance:
  assumes "has_pool_at name c"
  shows "has_pool_at name (cg_exec c (Advance j))
    \<and> (\<exists>es. length es \<le> 1 \<and> use_of name (cg_exec c (Advance j)) = foldl use_exec (use_of name c) es)"
proof (cases "j < length (cg_threads c)")
  case True
  let ?t = "cg_threads c ! j"
  obtain t s where step: "thread_step ?t (cg_world c) = (t, s)" by fastforce
  obtain p where p: "map_of (gw_pools (gateway (cg_world c))) name = Some p" using assms by (auto simp: has_pool_at_def)
  have "used_pool (use_of name c) = the (map_of (gw_pools (gateway (cg_world c))) name)"
    "permit_of (use_of name c) j = stage_permit name (th_stage ?t)" "backend_of (use_of name c) j = stage_backend name (th_stage ?t)"
    using True by (simp_all add: use_of_def of_thread_def)
  then have uses: "(\<exists>es. length es \<le> 1 \<and> foldl use_exec (use_of name c) es = moved name j t s (use_of name c))
      \<and> map_of (gw_pools (gateway s)) name \<noteq> None"
    using thread_step_uses [OF p, of j ?t] unfolding step uses_at_most_once_def by simp
  have "use_of name (cg_exec c (Advance j)) = moved name j t s (use_of name c)"
    using True step by (simp add: use_of_def moved_def of_thread_update)
  moreover have "cg_world (cg_exec c (Advance j)) = s" using True step by simp
  ultimately show ?thesis using uses unfolding has_pool_at_def by metis
next
  case False
  then show ?thesis using assms by (auto intro: exI [of _ "[]"])
qed

lemma use_of_health:
  assumes "has_pool_at name c"
  shows "has_pool_at name (cg_exec c (HealthSet n i h))
    \<and> (\<exists>es. length es \<le> 1 \<and> use_of name (cg_exec c (HealthSet n i h)) = foldl use_exec (use_of name c) es)"
proof -
  obtain p where p: "map_of (gw_pools (gateway (cg_world c))) name = Some p" using assms by (auto simp: has_pool_at_def)
  have same: "has_pool_at name (cg_exec c (HealthSet n i h))"
    "used_pool (use_of name (cg_exec c (HealthSet n i h))) = (if n = name then pool_set_health i h p else p)"
    using p by (cases "n = name"; simp add: has_pool_at_def use_of_def on_pool_other on_pool_same)+
  then have "use_of name (cg_exec c (HealthSet n i h)) = foldl use_exec (use_of name c) (if n = name then [SetBackendHealth i h] else [])"
    using p by (simp add: use_of_def use_exec.simps pool_set_health_def)
  then show ?thesis using same(1) by (intro conjI exI [of _ "if n = name then [SetBackendHealth i h] else []"]) simp_all
qed

lemma use_of_arrive: "use_of name (cg_exec c (Arrive E r w)) = use_of name c"
  by (simp add: use_of_def of_thread_arrive)

interpretation pool_of_gateway: pool_client cg_exec "has_pool_at name" "use_of name" for name
proof
  fix c e assume pool: "has_pool_at name c"
  then show "has_pool_at name (cg_exec c e)"
    by (cases e) (use use_of_advance use_of_health in \<open>simp_all add: has_pool_at_def\<close>)
  show "\<exists>es. length es \<le> 1 \<and> use_of name (cg_exec c e) = foldl use_exec (use_of name c) es"
  proof (cases e)
    case (Arrive E r w)
    then show ?thesis by (intro exI [of _ "[]"]) (simp add: use_of_arrive del: cg_exec.simps)
  qed (use pool use_of_advance use_of_health in \<open>simp_all del: cg_exec.simps\<close>)
qed

section \<open>Runs of the gateway\<close>

text \<open>A gateway as the constructor builds it.\<close>

lemma new_gateway_use_ok:
  assumes "parse_ok parse" "\<forall>(name, pc) \<in> set (BackendPools cfg). length (poolBackends pc) < 2 ^ 63" "gomap_wf (BackendPools cfg)"
    and "NewGatewayWithTransport parse U now cfg transport = Inr (gateway s)" "map_of (gw_pools (gateway s)) name = Some p"
  shows "has_pool_at name (cg_start s)" "use_ok 0 (use_of name (cg_start s))"
proof -
  have valid: "Validate parse U cfg = None" "transport \<noteq> NilTransport"
    using assms(4) by (auto simp: NewGatewayWithTransport_def split: option.splits if_splits)
  then have "gateway_wf parse cfg (gateway s)" using gateway_builds [OF assms(1,2) valid(1), of transport now] assms(4) by auto
  then have "list_all2 (pool_built parse) (BackendPools cfg) (gw_pools (gateway s))" by (simp add: gateway_wf_def)
  from map_of_built [OF this assms(3,5)] obtain pc :: PoolConfig and ts config
    where "new_pool config (poolBackends pc) (poolStrategy pc) ts p" by blast
  from use_ok_start [OF this] assms(5) show "use_ok 0 (use_of name (cg_start s))"
    by (simp add: use_of_def use_start_def cg_start_def of_thread_def [abs_def])
  show "has_pool_at name (cg_start s)" using assms(5) by (simp add: has_pool_at_def cg_start_def)
qed

lemma pools_fixed:
  "map_of (gw_pools (gateway (cg_world (foldl cg_exec (cg_start s) es)))) name = Some p \<Longrightarrow>
    \<exists>p0. map_of (gw_pools (gateway s)) name = Some p0"
proof -
  have step: "map_of (gw_pools (gateway (snd (thread_step t s)))) name = None"
    if "map_of (gw_pools (gateway s)) name = None" for t s
    using that quiet_steps
    by (cases "th_stage t") (auto simp: thread_step_def step_permit_def step_backend_def step_proxy_def on_pool_def Let_def
        split: option.splits prod.splits sum.splits)
  have "map_of (gw_pools (gateway (cg_world (foldl cg_exec (cg_start s) es)))) name = None" if "map_of (gw_pools (gateway s)) name = None"
  proof (induction es rule: rev_induct)
    case Nil
    then show ?case using that by (simp add: cg_start_def)
  next
    case (snoc e es)
    then show ?case
    proof (cases e)
      case (Advance j)
      then show ?thesis using snoc step [of "cg_world (foldl cg_exec (cg_start s) es)"]
        by (auto simp: Let_def split: prod.splits) (metis snd_conv)
    qed (auto simp: on_pool_def split: option.splits)
  qed
  then show "map_of (gw_pools (gateway (cg_world (foldl cg_exec (cg_start s) es)))) name = Some p \<Longrightarrow> ?thesis" by fastforce
qed

lemma run_use_ok:
  assumes "parse_ok parse" "\<forall>(name, pc) \<in> set (BackendPools cfg). length (poolBackends pc) < 2 ^ 63" "gomap_wf (BackendPools cfg)"
    and "NewGatewayWithTransport parse U now cfg transport = Inr (gateway s)" "int (length es) < maxInt64"
    and "map_of (gw_pools (gateway (cg_world (foldl cg_exec (cg_start s) es)))) name = Some p"
  shows "use_ok (length es) (use_of name (foldl cg_exec (cg_start s) es))"
proof -
  obtain p0 where "map_of (gw_pools (gateway s)) name = Some p0" using pools_fixed [OF assms(6)] by blast
  from pool_of_gateway.client_ok [OF new_gateway_use_ok [OF assms(1-4) this] assms(5)] show ?thesis .
qed

text \<open>The requests that use backend \<open>i\<close> of a pool, and those that hold a permit of the breaker's present
  generation.\<close>

definition requests_on :: "string \<Rightarrow> nat \<Rightarrow> concurrent \<Rightarrow> nat" where
  "requests_on name i c = length (filter (\<lambda>t. stage_backend name (th_stage t) = Some i) (cg_threads c))"

definition requests_admitted :: "string \<Rightarrow> concurrent \<Rightarrow> nat" where
  "requests_admitted name c =
    length (filter (\<lambda>t. case stage_permit name (th_stage t) of
        None \<Rightarrow> False | Some permit \<Rightarrow> permitGeneration permit = generation (circuitBreaker (pool_at name c))) (cg_threads c))"

lemma requests_on_card: "card {j. backend_of (use_of name c) j = Some i} = requests_on name i c"
  unfolding requests_on_def length_filter_conv_card
  by (rule arg_cong [where f = card]) (auto simp: use_of_def of_thread_def)

lemma requests_admitted_card:
  "card {j. \<exists>p. permit_of (use_of name c) j = Some p \<and> permitGeneration p = generation (circuitBreaker (used_pool (use_of name c)))}
    = requests_admitted name c"
  unfolding requests_admitted_def length_filter_conv_card
  by (rule arg_cong [where f = card]) (auto simp: use_of_def of_thread_def split: option.splits)

lemma finished_holds_nothing: "rank st = 0 \<Longrightarrow> stage_permit name st = None \<and> stage_backend name st = None"
  by (auto simp: rank_0)

lemma cg_threads_length: "length (cg_threads c) \<le> length (cg_threads (cg_exec c e))"
  by (cases e) (auto simp: Let_def split: prod.splits)

lemma other_thread:
  "j < length (cg_threads c) \<Longrightarrow> e \<noteq> Advance j \<Longrightarrow> cg_threads (cg_exec c e) ! j = cg_threads c ! j"
  by (cases e) (auto simp: nth_append Let_def split: prod.splits)

lemma rank_after:
  assumes "j < length (cg_threads c)"
  shows "rank (th_stage (cg_threads (foldl cg_exec c es) ! j)) \<le> rank (th_stage (cg_threads c ! j)) - count_list es (Advance j)"
  using assms
proof (induction es arbitrary: c)
  case (Cons e es)
  have j: "j < length (cg_threads (cg_exec c e))" using Cons.prems cg_threads_length [of c e] by simp
  have "rank (th_stage (cg_threads (cg_exec c e) ! j)) \<le> rank (th_stage (cg_threads c ! j)) - (if e = Advance j then 1 else 0)"
  proof (cases "e = Advance j")
    case True
    obtain t s where "thread_step (cg_threads c ! j) (cg_world c) = (t, s)" by fastforce
    moreover have "thread_step (cg_threads c ! j) (cg_world c) = (cg_threads c ! j, cg_world c)" if "rank (th_stage (cg_threads c ! j)) = 0"
      using that by (auto simp: rank_0 thread_step_def)
    ultimately show ?thesis using True Cons.prems thread_step_rank [of "cg_threads c ! j" "cg_world c"]
      by (cases "rank (th_stage (cg_threads c ! j)) = 0") auto
  qed (use other_thread [OF Cons.prems] in simp)
  with Cons.IH [OF j] show ?case by (auto simp: le_diff_conv split: if_splits)
qed simp

lemma advance_alone:
  "foldl cg_exec (c\<lparr>cg_world := s, cg_threads := ts @ [t]\<rparr>) (replicate n (Advance (length ts))) =
    c\<lparr>cg_world := snd (((\<lambda>(t, s). thread_step t s) ^^ n) (t, s)), cg_threads := ts @ [fst (((\<lambda>(t, s). thread_step t s) ^^ n) (t, s))]\<rparr>"
proof (induction n arbitrary: t s)
  case (Suc n)
  obtain t' s' where "thread_step t s = (t', s')" by fastforce
  then show ?case using Suc.IH [of t' s'] by (simp add: funpow_swap1)
qed simp

lemma run_uninterrupted:
  "\<exists>t. foldl cg_exec c (Arrive E r w # replicate 8 (Advance (length (cg_threads c)))) =
      c\<lparr>cg_world := snd (snd (ServeHTTP E r w (cg_world c))), cg_threads := cg_threads c @ [t]\<rparr>
    \<and> th_stage t = Finished (fst (ServeHTTP E r w (cg_world c))) \<and> th_writer t = fst (snd (ServeHTTP E r w (cg_world c)))"
proof -
  let ?x = "complete (arriving E r w, cg_world c)"
  have "rank (th_stage (fst ?x)) = 0" by (rule complete_rank)
  then obtain ended where fin: "th_stage (fst ?x) = Finished ended" by (auto simp: rank_0)
  have "((\<lambda>(t, s). thread_step t s) ^^ 8) (arriving E r w, cg_world c) = ?x"
    by (rule steps_complete) (simp add: arriving_def)
  then have run: "foldl cg_exec (c\<lparr>cg_world := cg_world c, cg_threads := cg_threads c @ [arriving E r w]\<rparr>) (replicate 8 (Advance (length (cg_threads c))))
      = c\<lparr>cg_world := snd ?x, cg_threads := cg_threads c @ [fst ?x]\<rparr>"
    by (simp only: advance_alone)
  have "ServeHTTP E r w (cg_world c) = (ended, th_writer (fst ?x), snd ?x)"
    using entry_complete [of E r w "cg_world c"] fin by (simp add: answer_def)
  with run fin show ?thesis by (intro exI [of _ "fst ?x"]) simp
qed

section \<open>Requests keep their metadata\<close>

text \<open>A step writes the metadata of its own request only, and the first step of a request makes it.\<close>

definition own_metadata :: "thread \<Rightarrow> nat option" where
  "own_metadata t = ctxMetadata (th_request t)"

definition keeps_others :: "nat option \<Rightarrow> gateway_world \<Rightarrow> gateway_world \<Rightarrow> bool" where
  "keeps_others m s s' =
    (length (metadata_store s') = length (metadata_store s) \<and>
     (\<forall>k. Some k \<noteq> m \<longrightarrow> metadata_store s' ! k = metadata_store s ! k))"

lemma keeps_others_same: "metadata_store s' = metadata_store s \<Longrightarrow> keeps_others m s s'"
  by (simp add: keeps_others_def)

lemma keeps_others_Set:
  "keeps_others (ctxMetadata r) s (SetRoute r x s)" "keeps_others (ctxMetadata r) s (SetBackend r x s)"
  by (auto simp: keeps_others_def SetRoute_def SetBackend_def current_def split: option.splits)

lemma metadata_store_other [simp]:
  "metadata_store (set_route i f s) = metadata_store s" "metadata_store (set_pool name p s) = metadata_store s"
  "metadata_store (on_pool name g s) = metadata_store s" "metadata_store (emit e s) = metadata_store s"
  by (simp_all add: set_route_def set_pool_def on_pool_def emit_def split: option.splits)

lemma auth_metadata:
  "APIKeyAuth U Sum256 keys (\<lambda>r w s. (Returned, w, Some r)) r w None = (ended, w', Some r') \<Longrightarrow> ctxMetadata r' = ctxMetadata r"
  by (auto simp: APIKeyAuth_def Let_def split: if_splits)

lemma step_entry_metadata:
  assumes "step_entry t s = (t', s')" "Ensure (env_ids (th_env t)) (th_request t) s = (r, s1)"
  shows "own_metadata t' = ctxMetadata r \<and> keeps_others (ctxMetadata r) s1 s' \<and> th_stage t' \<noteq> AtEntry"
  using assms(1) keeps_others_Set(1) [of r s1]
  by (auto simp: step_entry_def assms(2) own_metadata_def keeps_others_same auth_metadata Let_def finish_def goto_def
      split: option.splits prod.splits if_splits)

lemma entry_metadata:
  assumes "th_stage t = AtEntry" "thread_step t s = (t', s')" "own_metadata t = None"
  shows "own_metadata t' = Some (length (metadata_store s)) \<and> th_stage t' \<noteq> AtEntry
    \<and> length (metadata_store s') = Suc (length (metadata_store s))
    \<and> (\<forall>k < length (metadata_store s). metadata_store s' ! k = metadata_store s ! k)"
proof -
  obtain r s1 where e: "Ensure (env_ids (th_env t)) (th_request t) s = (r, s1)" by fastforce
  then have made: "ctxMetadata r = Some (length (metadata_store s))" "length (metadata_store s1) = Suc (length (metadata_store s))"
    "\<forall>k < length (metadata_store s). metadata_store s1 ! k = metadata_store s ! k"
    using assms(3) by (auto simp: Ensure_def current_def own_metadata_def Let_def nth_append)
  have "step_entry t s = (t', s')" using assms(1,2) by (simp add: thread_step_def)
  from step_entry_metadata [OF this e] made show ?thesis by (auto simp: keeps_others_def)
qed

lemma leave_entry [simp]: "th_stage (leave i store ended v t) \<noteq> AtEntry" "th_stage (refuse i store e t) \<noteq> AtEntry"
  by (auto simp: leave_def refuse_def Let_def split: option.splits prod.splits)

lemma step_metadata:
  assumes "th_stage t \<noteq> AtEntry" "thread_step t s = (t', s')"
  shows "own_metadata t' = own_metadata t \<and> th_stage t' \<noteq> AtEntry \<and> keeps_others (own_metadata t) s s'"
proof (cases "th_stage t")
  case (AtProxy i store name u permit)
  then have "own_metadata t' = own_metadata t" "th_stage t' \<noteq> AtEntry"
    "metadata_store s' = metadata_store (SetBackend (th_request t) (backendLogValue (target u)) s)"
    using assms(2) by (auto simp: thread_step_def step_proxy_def own_metadata_def Let_def split: prod.splits)
  with keeps_others_Set(2) [of "th_request t" s "backendLogValue (target u)"] show ?thesis
    by (simp add: keeps_others_def own_metadata_def)
qed (use assms in \<open>auto simp: thread_step_def step_limit_def step_lookup_def step_permit_def step_backend_def step_store_def
      own_metadata_def keeps_others_same Let_def split: option.splits prod.splits sum.splits if_splits\<close>)

definition metadata_inv :: "concurrent \<Rightarrow> bool" where
  "metadata_inv c =
    ((\<forall>t \<in> set (cg_threads c). case own_metadata t of
        None \<Rightarrow> th_stage t = AtEntry | Some m \<Rightarrow> th_stage t \<noteq> AtEntry \<and> m < length (metadata_store (cg_world c))) \<and>
     (\<forall>j k m. j < length (cg_threads c) \<longrightarrow> k < length (cg_threads c) \<longrightarrow>
        own_metadata (cg_threads c ! j) = Some m \<longrightarrow> own_metadata (cg_threads c ! k) = Some m \<longrightarrow> j = k))"

fun arrives_fresh :: "cg_event \<Rightarrow> bool" where
  "arrives_fresh (Arrive E r w) = (ctxMetadata r = None)"
| "arrives_fresh _ = True"

lemma metadata_inv_thread:
  assumes "metadata_inv c" "j < length (cg_threads c)"
  shows "own_metadata (cg_threads c ! j) = None \<longleftrightarrow> th_stage (cg_threads c ! j) = AtEntry"
    and "own_metadata (cg_threads c ! j) = Some m \<Longrightarrow> m < length (metadata_store (cg_world c))"
proof -
  have "case own_metadata (cg_threads c ! j) of None \<Rightarrow> th_stage (cg_threads c ! j) = AtEntry
    | Some m \<Rightarrow> th_stage (cg_threads c ! j) \<noteq> AtEntry \<and> m < length (metadata_store (cg_world c))"
    using assms nth_mem [OF assms(2)] unfolding metadata_inv_def by blast
  then show "own_metadata (cg_threads c ! j) = None \<longleftrightarrow> th_stage (cg_threads c ! j) = AtEntry"
    "own_metadata (cg_threads c ! j) = Some m \<Longrightarrow> m < length (metadata_store (cg_world c))"
    by (auto split: option.splits)
qed

lemma metadata_inv_unique:
  assumes "metadata_inv c" "j < length (cg_threads c)" "k < length (cg_threads c)"
    and "own_metadata (cg_threads c ! j) = Some m" "own_metadata (cg_threads c ! k) = Some m"
  shows "j = k"
  using assms unfolding metadata_inv_def by blast

lemma metadata_invI:
  assumes "\<And>j. j < length ts \<Longrightarrow> own_metadata (ts ! j) = None \<longleftrightarrow> th_stage (ts ! j) = AtEntry"
    and "\<And>j m. j < length ts \<Longrightarrow> own_metadata (ts ! j) = Some m \<Longrightarrow> m < length (metadata_store s)"
    and "\<And>j k m. j < length ts \<Longrightarrow> k < length ts \<Longrightarrow> own_metadata (ts ! j) = Some m \<Longrightarrow> own_metadata (ts ! k) = Some m \<Longrightarrow> j = k"
  shows "metadata_inv (c\<lparr>cg_world := s, cg_threads := ts\<rparr>)"
  using assms unfolding metadata_inv_def all_set_conv_all_nth by (auto split: option.split dest!: assms(1) [THEN iffD2, rotated])

text \<open>What a step of thread \<open>k\<close> does to the metadata of another thread.\<close>

lemma advance_keeps:
  assumes inv: "metadata_inv c" and k: "k < length (cg_threads c)" and step: "thread_step (cg_threads c ! k) (cg_world c) = (t, s)"
    and m: "m < length (metadata_store (cg_world c))" "own_metadata (cg_threads c ! k) \<noteq> Some m"
  shows "metadata_store s ! m = metadata_store (cg_world c) ! m"
proof (cases "th_stage (cg_threads c ! k) = AtEntry")
  case True
  then show ?thesis using entry_metadata [OF True step] metadata_inv_thread(1) [OF inv k] m(1) by simp
next
  case False
  from step_metadata [OF False step] m(2) show ?thesis by (auto simp: keeps_others_def)
qed

lemma metadata_inv_advance:
  assumes inv: "metadata_inv c" and k: "k < length (cg_threads c)" and step: "thread_step (cg_threads c ! k) (cg_world c) = (t, s)"
  shows "metadata_inv (c\<lparr>cg_world := s, cg_threads := (cg_threads c)[k := t]\<rparr>)"
proof -
  note th = metadata_inv_thread [OF inv]
  have new: "(own_metadata t = own_metadata (cg_threads c ! k) \<and> th_stage (cg_threads c ! k) \<noteq> AtEntry
        \<or> own_metadata t = Some (length (metadata_store (cg_world c))))
      \<and> th_stage t \<noteq> AtEntry \<and> length (metadata_store (cg_world c)) \<le> length (metadata_store s)
      \<and> (\<forall>m. own_metadata t = Some m \<longrightarrow> m < length (metadata_store s))"
  proof (cases "th_stage (cg_threads c ! k) = AtEntry")
    case True
    then show ?thesis using entry_metadata [OF True step] th(1) [OF k] by simp
  next
    case False
    from step_metadata [OF False step] th(2) [OF k] False show ?thesis by (auto simp: keeps_others_def)
  qed
  show ?thesis
  proof (rule metadata_invI)
    fix j assume "j < length ((cg_threads c)[k := t])"
    then show "own_metadata ((cg_threads c)[k := t] ! j) = None \<longleftrightarrow> th_stage ((cg_threads c)[k := t] ! j) = AtEntry"
      using th(1) [of j] th(1) [OF k] new by (cases "j = k") auto
  next
    fix j m assume "j < length ((cg_threads c)[k := t])" "own_metadata ((cg_threads c)[k := t] ! j) = Some m"
    then show "m < length (metadata_store s)" using th(2) [of j m] new by (cases "j = k") auto
  next
    fix i j m assume "i < length ((cg_threads c)[k := t])" "j < length ((cg_threads c)[k := t])"
      "own_metadata ((cg_threads c)[k := t] ! i) = Some m" "own_metadata ((cg_threads c)[k := t] ! j) = Some m"
    then show "i = j"
      using metadata_inv_unique [OF inv, of i j m] metadata_inv_unique [OF inv k, of i m] metadata_inv_unique [OF inv k, of j m]
        th(2) [of i m] th(2) [of j m] new by (cases "i = k"; cases "j = k") auto
  qed
qed

lemma metadata_inv_exec:
  assumes "metadata_inv c" "arrives_fresh e"
  shows "metadata_inv (cg_exec c e)"
proof (cases e)
  case (Arrive E r w)
  then have "own_metadata (arriving E r w) = None" "th_stage (arriving E r w) = AtEntry"
    using assms(2) by (simp_all add: own_metadata_def arriving_def)
  then have "metadata_inv (c\<lparr>cg_world := cg_world c, cg_threads := cg_threads c @ [arriving E r w]\<rparr>)"
    using metadata_inv_thread [OF assms(1)] metadata_inv_unique [OF assms(1)]
    by (intro metadata_invI) (auto simp: nth_append less_Suc_eq split: if_splits)
  then show ?thesis using Arrive by simp
next
  case (Advance k)
  then show ?thesis
    using assms(1) metadata_inv_advance [OF assms(1), of k] by (auto simp: Let_def split: prod.split)
next
  case (HealthSet name i h)
  then show ?thesis using assms(1) by (simp add: metadata_inv_def cong: option.case_cong)
qed

lemma metadata_inv_run: "list_all arrives_fresh es \<Longrightarrow> metadata_inv (foldl cg_exec (cg_start s) es)"
proof (induction es rule: rev_induct)
  case (snoc e es)
  then show ?case using metadata_inv_exec [of "foldl cg_exec (cg_start s) es" e] by simp
qed (simp add: metadata_inv_def cg_start_def)

section \<open>Properties\<close>

text \<open>C4 (invariant). Concurrent requests leak no backend. Let the requests to a gateway built from a valid
  configuration overlap in any way, a step being one locked operation on a limiter, a cache, a
  breaker or a balancer, with health checks at any moment and with any upstream outcome, panics of the handler included. Then the
  active count of every backend is the number of requests that have acquired it and not yet released
  it.\<close>

theorem concurrent_requests_leak_nothing:
  assumes "parse_ok parse" "\<forall>(name, pc) \<in> set (BackendPools cfg). length (poolBackends pc) < 2 ^ 63" "gomap_wf (BackendPools cfg)"
    and "NewGatewayWithTransport parse U now cfg transport = Inr (gateway s)" "int (length es) < maxInt64"
    and "c = foldl cg_exec (cg_start s) es" "map_of (gw_pools (gateway (cg_world c))) name = Some p"
    and "i < length (backends (balancer p))"
  shows "active_at (balancer p) i = int (requests_on name i c)"
  using use_ok_active [OF run_use_ok [OF assms(1-5)], of name p i] assms(6-8)
  by (simp add: requests_on_card) (simp add: use_of_def)



text \<open>C13 (liveness). When every request has come to its end, the pools are as free as they can be: no backend
  is counted as active, and a further request is admitted to a healthy backend unless there is none
  or the breaker is open and its timeout has not passed; no probe slot was lost on the way.\<close>

theorem concurrent_pool_recovers:
  assumes "parse_ok parse" "\<forall>(name, pc) \<in> set (BackendPools cfg). length (poolBackends pc) < 2 ^ 63" "gomap_wf (BackendPools cfg)"
    and "NewGatewayWithTransport parse U now cfg transport = Inr (gateway s)" "int (length es) < maxInt64"
    and "c = foldl cg_exec (cg_start s) es" "map_of (gw_pools (gateway (cg_world c))) name = Some p"
    and "\<forall>t \<in> set (cg_threads c). \<exists>ended. th_stage t = Finished ended"
    and "\<exists>b \<in> set (backends (balancer p)). healthy b"
    and "state (circuitBreaker p) = StateOpen \<Longrightarrow> openedAt (circuitBreaker p) + openTimeout (circuitBreaker p) \<le> later"
  shows "(\<forall>b \<in> set (backends (balancer p)). activeConnections b = 0)
    \<and> (\<exists>u permit. fst (pool_acquire later p) = Inr (u, permit) \<and> u \<in> set (upstreams p)
        \<and> healthy_at (balancer p) (backend_index u))"
proof -
  have p: "used_pool (use_of name c) = p" using assms(7) by (simp add: use_of_def)
  note ok = run_use_ok [OF assms(1-5), of name p, folded assms(6), OF assms(7)]
  have "requests_on name i c = 0" "requests_admitted name c = 0" for i
    using assms(8) finished_holds_nothing by (auto simp: requests_on_def requests_admitted_def filter_empty_conv rank_0)
  then have idle: "active_at (balancer p) i = 0" if "i < length (backends (balancer p))" for i
    using use_ok_active [OF ok, of i] p that requests_on_card [of name c i] by simp
  obtain bs ps key where sim: "use_sim (use_of name c) bs ps key" "sys_inv bs" "pool_inv ps" using ok by (auto simp: use_ok_def)
  then have wf: "pool_wf (balancer p)" "breaker_wf (circuitBreaker p)"
    "map backend_index (upstreams p) = [0..<length (backends (balancer p))]"
    using p by (auto simp: use_sim_def pool_inv_def sys_inv_def)
  have "length es < 2 ^ 64" using assms(5) by (simp add: maxInt64_def)
  note probes = use_ok_probes [OF ok this]
  have room: "halfOpenAdmitted (circuitBreaker p) < halfOpenMaxRequests (circuitBreaker p)" if "state (circuitBreaker p) = StateHalfOpen"
    using probes that p \<open>requests_admitted name c = 0\<close> requests_admitted_card [of name c] wf(2) by (simp add: breaker_wf_def)
  show ?thesis using idle pool_admits [OF wf assms(9,10) room] by (auto simp: in_set_conv_nth)
qed



section \<open>Concrete runs\<close>

text \<open>One route, one pool of one backend, a breaker that opens at the first failure.\<close>

definition sample_busy_cfg :: Config where
  "sample_busy_cfg = sample_cfg\<lparr>
     BackendPools := [(''a'', sample_pool_config\<lparr>poolCircuitBreaker :=
       \<lparr>cbFailureThreshold = 1, cbOpenTimeout = 10, cbHalfOpenMaxRequests = 2\<rparr>\<rparr>)],
     Routes := [\<lparr>PathPrefix = ''/'', BackendPool = ''a'', routeRateLimit = None, routeCache = None, Protected = False\<rparr>]\<rparr>"

definition sample_busy_pool :: pool where
  "sample_busy_pool = projr (gateway_pool sample_parse ''a'' (snd (hd (BackendPools sample_busy_cfg))))"

definition sample_busy_gateway :: Gateway where
  "sample_busy_gateway =
    \<lparr>gw_routes = [\<lparr>pathPrefix = ''/'', route_pool = ''a'', limiter = None, responseCache = None,
       retryAfterHeader = '''', protected = False\<rparr>],
     gw_pools = [(''a'', sample_busy_pool)], requestTimeout = 15 * Second, gw_transport = None, gw_apiKeys = [''k'']\<rparr>"

definition sample_busy_world :: gateway_world where
  "sample_busy_world = sample_gateway_world sample_busy_gateway"

definition sample_failing_env :: request_env where
  "sample_failing_env = sample_env\<lparr>env_proxy := sample_proxy_env\<lparr>env_transport :=
     \<lambda>_. \<lparr>early = [], deadline_exceeded = False, result = RoundTripFailed\<rparr>\<rparr>\<rparr>"

lemma sample_busy_pool_new: "gateway_pool sample_parse ''a'' (snd (hd (BackendPools sample_busy_cfg))) = Inr sample_busy_pool"
  by code_simp

lemma sample_busy_cfg_valid: "Validate sample_parse U sample_busy_cfg = None"
proof -
  have names: "TrimSpace ''a'' \<noteq> ''''" "TrimSpace '':8080'' \<noteq> ''''" by (simp_all add: TrimSpace_keep visible_def)
  have key: "isValidAPIKey ''k''" by code_simp
  have limits: "validateRateLimit n \<lparr>RequestsPerSecond = Fin 0, Burst = 0\<rparr> = None" for n
    by (simp_all add: validateRateLimit_def IsNaN_def IsInf_def less_float64_def)
  show ?thesis
    unfolding Validate_None using names key limits
    by (simp add: sample_busy_cfg_def sample_cfg_def sample_pool_config_def validatePool_None validateRoute_def validateHealthCheck_def
      validateCORS_def HasPrefix_def sample_parse_def)
qed

lemma sample_busy_fields:
  "BackendPools sample_busy_cfg = [(''a'', snd (hd (BackendPools sample_busy_cfg)))]"
  "Routes sample_busy_cfg = [\<lparr>PathPrefix = ''/'', BackendPool = ''a'', routeRateLimit = None, routeCache = None, Protected = False\<rparr>]"
  "timeoutRequest (cfgTimeouts sample_busy_cfg) = 0" "RequestsPerSecond (cfgRateLimit sample_busy_cfg) = Fin 0"
  "APIKeys sample_busy_cfg = [''k'']" "length (poolBackends (snd (hd (BackendPools sample_busy_cfg)))) = 1"
  by (simp_all add: sample_busy_cfg_def sample_cfg_def sample_pool_config_def)

lemma sample_busy_new:
  "NewGatewayWithTransport sample_parse sample_case 0 sample_busy_cfg OtherTransport = Inr (gateway sample_busy_world)"
  by (subst NewGatewayWithTransport_def, subst sample_busy_fields(1))
    (simp add: sample_busy_cfg_valid sample_busy_pool_new sample_busy_fields(2-5) sample_busy_world_def sample_gateway_world_def
      sample_busy_gateway_def gateway_route_def withDefault_def less_float64_def)

lemma sample_busy_ok:
  "\<forall>(name, pc) \<in> set (BackendPools sample_busy_cfg). length (poolBackends pc) < 2 ^ 63" "gomap_wf (BackendPools sample_busy_cfg)"
  by (subst sample_busy_fields(1), simp add: sample_busy_fields(6) gomap_wf_def)+

lemma plain_steps:
  assumes "gw_routes (gateway s) = gw_routes sample_busy_gateway"
  shows "\<exists>t' s'. ((\<lambda>(t, s). thread_step t s) ^^ 3) (arriving E (sample_get []) w, s) = (t', s')
    \<and> th_stage t' = AtPermit 0 None \<and> th_env t' = E \<and> gateway s' = gateway s"
  using assms
  by (simp add: eval_nat_numeral thread_step_def arriving_def step_entry_def step_limit_def step_lookup_def Let_def Ensure_def
    sample_get_def current_def sample_busy_gateway_def matchRoute_def prefixMatches_def SetRoute_def)

lemma plain_ServeHTTP:
  assumes "gw_routes (gateway s) = gw_routes sample_busy_gateway"
  shows "\<exists>r w s'. ServeHTTP E (sample_get []) w0 s = serveRoute E 0 r w s' \<and> gateway s' = gateway s"
proof -
  obtain r1 s1 where e: "Ensure (env_ids E) (sample_get []) s = (r1, s1)" by fastforce
  note same = gateway_Ensure [OF e] Ensure_request(2) [OF e]
  let ?s = "SetRoute r1 (pathPrefix (route_at 0 s1)) s1"
  have "matchRoute (gw_routes (gateway s1)) (Path (requestURL r1)) = Some 0"
    using assms same by (simp add: sample_get_def sample_busy_gateway_def matchRoute_def prefixMatches_def)
  then have "ServeHTTP E (sample_get []) w0 s = serveRoute E 0 r1 (update_header (Header_Set IDHeader (RequestID r1 s1)) w0) ?s"
    using assms same by (simp add: ServeHTTP_def e route_handler_def Chain_def sample_busy_gateway_def Let_def)
  moreover have "gateway ?s = gateway s" using same by simp
  ultimately show ?thesis by blast
qed

text \<open>The pool when the request has failed, and what its breaker does to a probe at time 20.\<close>

lemma sample_busy_failure:
  "\<exists>u permit p. pool_acquire 3 sample_busy_pool = (Inr (u, permit), p)
    \<and> state (circuitBreaker (serveRoute_finish ProxyError 4 u permit p)) = StateOpen
    \<and> openedAt (circuitBreaker (serveRoute_finish ProxyError 4 u permit p)) = 4
    \<and> openTimeout (circuitBreaker (serveRoute_finish ProxyError 4 u permit p)) = 10
    \<and> state (snd (Breaker_Acquire 20 (circuitBreaker (serveRoute_finish ProxyError 4 u permit p)))) = StateHalfOpen
    \<and> list_ex healthy (backends (balancer (serveRoute_finish ProxyError 4 u permit p)))"
proof -
  have "case pool_acquire 3 sample_busy_pool of
      (Inl e, p) \<Rightarrow> False
    | (Inr (u, permit), p) \<Rightarrow> (let q = serveRoute_finish ProxyError 4 u permit p; b = circuitBreaker q
        in state b = StateOpen \<and> openedAt b = 4 \<and> openTimeout b = 10 \<and> state (snd (Breaker_Acquire 20 b)) = StateHalfOpen
          \<and> list_ex healthy (backends (balancer q)))" by code_simp
  then show ?thesis by (auto simp: Let_def split: prod.splits sum.splits)
qed

definition sample_failed :: concurrent where
  "sample_failed = foldl cg_exec (cg_start sample_busy_world)
    (Arrive sample_failing_env (sample_get []) (Base sample_server) # replicate 8 (Advance 0))"

lemma sample_failed_run:
  "\<exists>p t. map_of (gw_pools (gateway (cg_world sample_failed))) ''a'' = Some p \<and> cg_threads sample_failed = [t]
    \<and> gw_routes (gateway (cg_world sample_failed)) = gw_routes sample_busy_gateway \<and> (\<exists>ended. th_stage t = Finished ended)
    \<and> state (circuitBreaker p) = StateOpen \<and> openedAt (circuitBreaker p) = 4 \<and> openTimeout (circuitBreaker p) = 10
    \<and> state (snd (Breaker_Acquire 20 (circuitBreaker p))) = StateHalfOpen \<and> list_ex healthy (backends (balancer p))"
proof -
  let ?E = sample_failing_env and ?r = "sample_get []" and ?w = "Base sample_server"
  have g: "gateway sample_busy_world = sample_busy_gateway" by (simp add: sample_busy_world_def sample_gateway_world_def)
  obtain r1 w1 s1 where run: "ServeHTTP ?E ?r ?w sample_busy_world = serveRoute ?E 0 r1 w1 s1" "gateway s1 = sample_busy_gateway"
    using plain_ServeHTTP [of sample_busy_world ?E ?w] g by auto
  obtain t where t: "sample_failed = (cg_start sample_busy_world)\<lparr>cg_world := snd (snd (serveRoute ?E 0 r1 w1 s1)), cg_threads := [t]\<rparr>"
    "\<exists>ended. th_stage t = Finished ended"
    using run_uninterrupted [of "cg_start sample_busy_world" ?E ?r ?w] run(1) by (auto simp: sample_failed_def cg_start_def)
  obtain u permit p where p: "pool_acquire 3 sample_busy_pool = (Inr (u, permit), p)"
    and open': "state (circuitBreaker (serveRoute_finish ProxyError 4 u permit p)) = StateOpen
      \<and> openedAt (circuitBreaker (serveRoute_finish ProxyError 4 u permit p)) = 4
      \<and> openTimeout (circuitBreaker (serveRoute_finish ProxyError 4 u permit p)) = 10
      \<and> state (snd (Breaker_Acquire 20 (circuitBreaker (serveRoute_finish ProxyError 4 u permit p)))) = StateHalfOpen
      \<and> list_ex healthy (backends (balancer (serveRoute_finish ProxyError 4 u permit p)))"
    using sample_busy_failure by blast
  have "gateway (snd (snd (serveRoute ?E 0 r1 w1 s1))) =
      sample_busy_gateway\<lparr>gw_pools := [(''a'', serveRoute_finish ProxyError 4 u permit p)]\<rparr>"
    using run(2) p by (auto simp: serveRoute_def sample_busy_gateway_def sample_failing_env_def sample_env_def
      ReverseProxy_ServeHTTP_def sample_proxy_env_def set_pool_def Let_def SetBackend_def split: prod.splits option.splits)
  then show ?thesis
    unfolding t(1) using t(2) open'
    by (intro exI [of _ "serveRoute_finish ProxyError 4 u permit p"] exI [of _ t]) (simp add: sample_busy_gateway_def)
qed

definition sample_probing :: "cg_event list" where
  "sample_probing = Arrive (sample_env\<lparr>at_acquire := 20\<rparr>) (sample_get []) (Base sample_server) # replicate 4 (Advance 1)"

lemma sample_probing_run:
  "\<exists>p. map_of (gw_pools (gateway (cg_world (foldl cg_exec sample_failed sample_probing)))) ''a'' = Some p
    \<and> state (circuitBreaker p) = StateHalfOpen"
proof -
  let ?E = "sample_env\<lparr>at_acquire := 20\<rparr>" and ?w = "Base sample_server" and ?s = "cg_world sample_failed"
  obtain p t where p: "map_of (gw_pools (gateway ?s)) ''a'' = Some p" "cg_threads sample_failed = [t]"
    "gw_routes (gateway ?s) = gw_routes sample_busy_gateway" "state (snd (Breaker_Acquire 20 (circuitBreaker p))) = StateHalfOpen"
    using sample_failed_run by blast
  obtain t3 s3 where three: "((\<lambda>(t, s). thread_step t s) ^^ 3) (arriving ?E (sample_get []) ?w, ?s) = (t3, s3)"
    "th_stage t3 = AtPermit 0 None" "th_env t3 = ?E" "gateway s3 = gateway ?s" using plain_steps [OF p(3)] by blast
  have "((\<lambda>(t, s). thread_step t s) ^^ 4) (arriving ?E (sample_get []) ?w, ?s) = thread_step t3 s3"
    using three(1) funpow.simps(2) [of 3 "\<lambda>(t, s). thread_step t s"] by (simp add: numeral_eq_Suc)
  moreover have "foldl cg_exec sample_failed sample_probing =
      foldl cg_exec (sample_failed\<lparr>cg_world := ?s, cg_threads := [t] @ [arriving ?E (sample_get []) ?w]\<rparr>) (replicate 4 (Advance (length [t])))"
    by (simp add: sample_probing_def p(2))
  ultimately have w: "cg_world (foldl cg_exec sample_failed sample_probing) = snd (thread_step t3 s3)"
    unfolding advance_alone by simp
  have "thread_step t3 s3 = step_permit 0 None t3 s3" by (simp add: thread_step_def three(2))
  then have "map_of (gw_pools (gateway (snd (thread_step t3 s3)))) ''a'' = Some (p\<lparr>circuitBreaker := snd (Breaker_Acquire 20 (circuitBreaker p))\<rparr>)"
    using p(1,3) three(3,4) by (simp add: step_permit_def sample_busy_gateway_def Let_def split: prod.split sum.split)
  with w p(4) show ?thesis by simp
qed

definition sample_busy_schedule :: "cg_event list" where
  "sample_busy_schedule = Arrive sample_env (sample_get []) (Base sample_server) # replicate 5 (Advance 0)"

lemma sample_busy_run:
  "\<exists>p. map_of (gw_pools (gateway (cg_world (foldl cg_exec (cg_start sample_busy_world) sample_busy_schedule)))) ''a'' = Some p
    \<and> length (backends (balancer p)) = 1
    \<and> requests_on ''a'' 0 (foldl cg_exec (cg_start sample_busy_world) sample_busy_schedule) = 1"
proof -
  let ?s = sample_busy_world and ?w = "Base sample_server" and ?f = "\<lambda>(t, s). thread_step t s"
  have g: "gateway ?s = sample_busy_gateway" by (simp add: sample_busy_world_def sample_gateway_world_def)
  have "case Breaker_Acquire 3 (circuitBreaker sample_busy_pool) of
      (Inl e, b) \<Rightarrow> False
    | (Inr permit, b) \<Rightarrow> (case Pool_Acquire (balancer sample_busy_pool) of
        (None, q) \<Rightarrow> False
      | (Some k, q) \<Rightarrow> map_option backend_index (find (\<lambda>u. backend_index u = k) (upstreams sample_busy_pool)) = Some 0
          \<and> length (backends q) = 1)" by code_simp
  then obtain permit b k q u where pool: "Breaker_Acquire 3 (circuitBreaker sample_busy_pool) = (Inr permit, b)"
    "Pool_Acquire (balancer sample_busy_pool) = (Some k, q)"
    "find (\<lambda>u. backend_index u = k) (upstreams sample_busy_pool) = Some u" "backend_index u = 0" "length (backends q) = 1"
    by (auto split: prod.splits sum.splits option.splits)
  obtain t3 s3 where three: "(?f ^^ 3) (arriving sample_env (sample_get []) ?w, ?s) = (t3, s3)"
    "th_stage t3 = AtPermit 0 None" "th_env t3 = sample_env" "gateway s3 = sample_busy_gateway"
    using plain_steps [of ?s sample_env ?w] g by auto
  let ?t4 = "goto (AtBackend 0 None ''a'' permit) t3" and ?p4 = "sample_busy_pool\<lparr>circuitBreaker := b\<rparr>"
  let ?s4 = "set_pool ''a'' ?p4 s3"
  have four: "thread_step t3 s3 = (?t4, ?s4)"
    using three(2-) pool(1) by (simp add: thread_step_def step_permit_def sample_busy_gateway_def sample_env_def Let_def)
  have p4: "map_of (gw_pools (gateway ?s4)) ''a'' = Some ?p4" by simp
  have five: "thread_step ?t4 ?s4 = (goto (AtProxy 0 None ''a'' u permit) ?t4, set_pool ''a'' (?p4\<lparr>balancer := q\<rparr>) ?s4)"
    using pool(2,3) p4 by (simp add: thread_step_def step_backend_def del: set_pool_twice)
  have "(?f ^^ 5) (arriving sample_env (sample_get []) ?w, ?s) = ?f (?f ((?f ^^ 3) (arriving sample_env (sample_get []) ?w, ?s)))"
    by (simp add: numeral_eq_Suc)
  then have "(?f ^^ 5) (arriving sample_env (sample_get []) ?w, ?s)
      = (goto (AtProxy 0 None ''a'' u permit) ?t4, set_pool ''a'' (?p4\<lparr>balancer := q\<rparr>) ?s4)"
    using three(1) four five by simp
  moreover have "foldl cg_exec (cg_start ?s) sample_busy_schedule =
      foldl cg_exec ((cg_start ?s)\<lparr>cg_world := ?s, cg_threads := [] @ [arriving sample_env (sample_get []) ?w]\<rparr>) (replicate 5 (Advance (length ([] :: thread list))))"
    by (simp add: sample_busy_schedule_def cg_start_def)
  ultimately show ?thesis using pool(4,5) unfolding advance_alone by (simp add: requests_on_def)
qed

theorem concurrent_requests_leak_nothing_witness:
  "\<exists>p. map_of (gw_pools (gateway (cg_world (foldl cg_exec (cg_start sample_busy_world) sample_busy_schedule)))) ''a'' = Some p
    \<and> active_at (balancer p) 0 = 1"
proof -
  obtain p where p: "map_of (gw_pools (gateway (cg_world (foldl cg_exec (cg_start sample_busy_world) sample_busy_schedule)))) ''a'' = Some p"
    "length (backends (balancer p)) = 1" "requests_on ''a'' 0 (foldl cg_exec (cg_start sample_busy_world) sample_busy_schedule) = 1"
    using sample_busy_run by blast
  have "int (length sample_busy_schedule) < maxInt64" by (simp add: sample_busy_schedule_def maxInt64_def)
  from concurrent_requests_leak_nothing [OF sample_parse_ok sample_busy_ok sample_busy_new this refl p(1), of 0] p show ?thesis by simp
qed



theorem concurrent_pool_recovers_witness:
  "\<exists>p u permit. map_of (gw_pools (gateway (cg_world sample_failed))) ''a'' = Some p \<and> fst (pool_acquire 20 p) = Inr (u, permit)
    \<and> (\<forall>b \<in> set (backends (balancer p)). activeConnections b = 0)"
proof -
  obtain p t where p: "map_of (gw_pools (gateway (cg_world sample_failed))) ''a'' = Some p" "cg_threads sample_failed = [t]"
    "\<exists>ended. th_stage t = Finished ended" "openedAt (circuitBreaker p) = 4" "openTimeout (circuitBreaker p) = 10"
    "list_ex healthy (backends (balancer p))"
    using sample_failed_run by blast
  have small: "int (length (Arrive sample_failing_env (sample_get []) (Base sample_server) # replicate 8 (Advance 0))) < maxInt64"
    by (simp add: maxInt64_def)
  have "\<forall>t \<in> set (cg_threads sample_failed). \<exists>ended. th_stage t = Finished ended" "\<exists>b \<in> set (backends (balancer p)). healthy b"
    using p(2,3,6) by (auto simp: list_ex_iff)
  from concurrent_pool_recovers [OF sample_parse_ok sample_busy_ok sample_busy_new small sample_failed_def p(1) this, of 20] p(1,4,5)
  show ?thesis by auto
qed


end
