(* ===== verification/Recorder.thy ===== *)
theory Recorder
  imports Server
begin

text \<open>
  The recorder of \<^verbatim>\<open>src/internal/metrics/prometheus.go\<close> and its collector of breaker states: what it registers
  with Prometheus, when that fails, and how the counters it keeps agree.

  Of the Prometheus client the development knows what its documentation says. It is an argument: how a
  metric's name is built, the default histogram buckets, whether the registry accepts a collector beside those it has, the
  descriptors of the runtime and process collectors, and the scrape handler. \<^verbatim>\<open>MustRegister\<close> panics when the
  registry does not accept a collector; a constructor that panics gives \<open>None\<close>.
\<close>

section \<open>Model\<close>

record metric_desc =
  desc_fqName :: string
  desc_help :: string
  desc_labels :: "string list"

datatype 's collector =
    CounterVec metric_desc
  | HistogramVec metric_desc "float64 list"
  | GoCollector
  | ProcessCollector
  | CircuitBreakerCollector "'s \<Rightarrow> (string, State) gomap" metric_desc

record 's prometheus =
  prom_BuildFQName :: "string \<Rightarrow> string \<Rightarrow> string \<Rightarrow> string"
  prom_DefBuckets :: "float64 list"
  prom_Register :: "metric_desc list list \<Rightarrow> metric_desc list \<Rightarrow> bool"
  prom_go :: "metric_desc list"
  prom_process :: "metric_desc list"
  prom_HandlerFor :: "'s collector list \<Rightarrow> bool \<Rightarrow> 's handler"

text \<open>The descriptors of a collector; the one of the breaker states has \<^verbatim>\<open>Describe\<close> in the repository.\<close>

definition Describe :: "'s prometheus \<Rightarrow> 's collector \<Rightarrow> metric_desc list" where
  "Describe lib c =
    (case c of
       CounterVec d \<Rightarrow> [d]
     | HistogramVec d buckets \<Rightarrow> [d]
     | GoCollector \<Rightarrow> prom_go lib
     | ProcessCollector \<Rightarrow> prom_process lib
     | CircuitBreakerCollector source d \<Rightarrow> [d])"

fun MustRegister :: "'s prometheus \<Rightarrow> 's collector list \<Rightarrow> 's collector list \<Rightarrow> 's collector list option" where
  "MustRegister lib registered [] = Some registered"
| "MustRegister lib registered (c # cs) =
    (if prom_Register lib (map (Describe lib) registered) (Describe lib c)
     then MustRegister lib (registered @ [c]) cs
     else None)"

record 's Recorder =
  registry :: "'s collector list"
  requests :: "'s collector"
  requestErrors :: "'s collector"
  requestDuration :: "'s collector"

definition NewRecorder :: "'s prometheus \<Rightarrow> 's Recorder option" where
  "NewRecorder lib =
    (let requests = CounterVec \<lparr>desc_fqName = prom_BuildFQName lib ''gatex'' ''http'' ''requests_total'',
           desc_help = ''Total number of gateway HTTP requests.'', desc_labels = [''method'', ''route'', ''status'']\<rparr>;
         requestErrors = CounterVec \<lparr>desc_fqName = prom_BuildFQName lib ''gatex'' ''http'' ''request_errors_total'',
           desc_help = ''Total number of gateway HTTP requests completed with a 5xx status.'',
           desc_labels = [''method'', ''route'', ''status'']\<rparr>;
         requestDuration = HistogramVec \<lparr>desc_fqName = prom_BuildFQName lib ''gatex'' ''http'' ''request_duration_seconds'',
           desc_help = ''Gateway HTTP request latency in seconds.'', desc_labels = [''method'', ''route'', ''status'']\<rparr> (prom_DefBuckets lib)
     in case MustRegister lib [] [requests, requestErrors, requestDuration, GoCollector, ProcessCollector] of
          None \<Rightarrow> None
        | Some reg \<Rightarrow> Some \<lparr>registry = reg, requests = requests, requestErrors = requestErrors, requestDuration = requestDuration\<rparr>)"

definition newCircuitBreakerCollector :: "'s prometheus \<Rightarrow> ('s \<Rightarrow> (string, State) gomap) \<Rightarrow> 's collector" where
  "newCircuitBreakerCollector lib source =
    CircuitBreakerCollector source
      \<lparr>desc_fqName = prom_BuildFQName lib ''gatex'' ''circuit_breaker'' ''state'',
       desc_help = ''Current circuit-breaker state as a one-hot gauge.'', desc_labels = [''pool'', ''state'']\<rparr>"

definition RegisterCircuitBreakers :: "'s prometheus \<Rightarrow> ('s \<Rightarrow> (string, State) gomap) \<Rightarrow> 's Recorder \<Rightarrow> 's Recorder option" where
  "RegisterCircuitBreakers lib source m =
    (case MustRegister lib (registry m) [newCircuitBreakerCollector lib source] of
       None \<Rightarrow> None
     | Some reg \<Rightarrow> Some (m\<lparr>registry := reg\<rparr>))"

definition Recorder_Handler :: "'s prometheus \<Rightarrow> 's Recorder \<Rightarrow> 's handler" where
  "Recorder_Handler lib m = prom_HandlerFor lib (registry m) True"

text \<open>\<^verbatim>\<open>newGatewayHandler\<close> from the recorder on: the process has no handler when one of the registrations
  panics.\<close>

definition recorded_handler ::
  "gateway_world prometheus \<Rightarrow> gateway_world handler_env \<Rightarrow> Config \<Rightarrow> request_env \<Rightarrow> gateway_world handler option" where
  "recorded_handler lib H cfg E =
    (case NewRecorder lib of
       None \<Rightarrow> None
     | Some gatewayMetrics \<Rightarrow>
         (case RegisterCircuitBreakers lib (\<lambda>s. CircuitBreakerStates (gateway s)) gatewayMetrics of
            None \<Rightarrow> None
          | Some gatewayMetrics \<Rightarrow>
              Some (gatex_handler (H\<lparr>he_promhttp := \<lambda>_ _. Recorder_Handler lib gatewayMetrics\<rparr>) cfg E)))"

section \<open>The registrations\<close>

text \<open>The syntax of metric and label names in the data model of Prometheus. Labels that start with two underscores are
  reserved, and a descriptor names each label once.\<close>

definition valid_metric_name :: "string \<Rightarrow> bool" where
  "valid_metric_name s =
    (case s of [] \<Rightarrow> False
     | c # cs \<Rightarrow> (is_name_start c \<or> c = CHR '':'') \<and> list_all (\<lambda>c. is_name_char c \<or> c = CHR '':'') cs)"

definition valid_label_name :: "string \<Rightarrow> bool" where
  "valid_label_name s =
    ((case s of [] \<Rightarrow> False | c # cs \<Rightarrow> is_name_start c \<and> list_all is_name_char cs) \<and> \<not> HasPrefix s ''__'')"

definition valid_desc :: "metric_desc \<Rightarrow> bool" where
  "valid_desc d =
    (valid_metric_name (desc_fqName d) \<and> list_all valid_label_name (desc_labels d) \<and> distinct (desc_labels d))"

text \<open>What the library refuses whatever naming scheme it is set to.\<close>

definition invalid_desc :: "metric_desc \<Rightarrow> bool" where
  "invalid_desc d =
    (desc_fqName d = '''' \<or> '''' \<in> set (desc_labels d) \<or> list_ex (\<lambda>l. HasPrefix l ''__'') (desc_labels d) \<or>
     \<not> distinct (desc_labels d))"

lemma invalid_desc_not_valid: "invalid_desc d \<Longrightarrow> \<not> valid_desc d"
proof -
  have "\<not> valid_metric_name ''''" "\<not> valid_label_name ''''" by (simp_all add: valid_metric_name_def valid_label_name_def)
  moreover have "\<not> valid_label_name l" if "HasPrefix l ''__''" for l using that by (simp add: valid_label_name_def)
  ultimately show "invalid_desc d \<Longrightarrow> ?thesis" by (auto simp: invalid_desc_def valid_desc_def list_all_iff list_ex_iff)
qed

text \<open>What the documentation of the library says: a fully qualified name is its parts joined by
  underscores; a collector is accepted when its descriptors are valid and have names that are distinct and not yet
  used, and refused when one of its descriptors is invalid or registered already; the names of the runtime and the process
  metrics start with \<^verbatim>\<open>go_\<close> and \<^verbatim>\<open>process_\<close>, and their descriptors are valid.\<close>

definition prometheus_ok :: "'s prometheus \<Rightarrow> bool" where
  "prometheus_ok lib =
    ((\<forall>a b c. a \<noteq> '''' \<longrightarrow> b \<noteq> '''' \<longrightarrow> c \<noteq> '''' \<longrightarrow> prom_BuildFQName lib a b c = a @ ''_'' @ b @ ''_'' @ c) \<and>
     (\<forall>registered ds. list_all valid_desc ds \<longrightarrow> distinct (map desc_fqName ds) \<longrightarrow>
        (\<forall>d \<in> set ds. desc_fqName d \<notin> desc_fqName ` set (concat registered)) \<longrightarrow>
        prom_Register lib registered ds) \<and>
     (\<forall>registered ds. (\<exists>d \<in> set ds. invalid_desc d \<or> d \<in> set (concat registered)) \<longrightarrow> \<not> prom_Register lib registered ds) \<and>
     list_all valid_desc (prom_go lib) \<and> list_all valid_desc (prom_process lib) \<and>
     distinct (map desc_fqName (prom_go lib)) \<and> (\<forall>d \<in> set (prom_go lib). \<exists>rest. desc_fqName d = ''go_'' @ rest) \<and>
     distinct (map desc_fqName (prom_process lib)) \<and> (\<forall>d \<in> set (prom_process lib). \<exists>rest. desc_fqName d = ''process_'' @ rest))"

lemma prometheus_ok_name:
  "prometheus_ok lib \<Longrightarrow> a \<noteq> '''' \<Longrightarrow> b \<noteq> '''' \<Longrightarrow> c \<noteq> '''' \<Longrightarrow> prom_BuildFQName lib a b c = a @ ''_'' @ b @ ''_'' @ c"
  by (simp add: prometheus_ok_def)

lemma prometheus_ok_accepts:
  assumes "prometheus_ok lib" "list_all valid_desc ds" "distinct (map desc_fqName ds)"
    and "\<And>d. d \<in> set ds \<Longrightarrow> desc_fqName d \<notin> desc_fqName ` set (concat registered)"
  shows "prom_Register lib registered ds"
  using assms unfolding prometheus_ok_def by blast

lemma prometheus_ok_refuses:
  assumes "prometheus_ok lib" "d \<in> set ds" "invalid_desc d \<or> d \<in> set (concat registered)"
  shows "\<not> prom_Register lib registered ds"
  using assms unfolding prometheus_ok_def by blast

lemma prometheus_ok_library:
  assumes "prometheus_ok lib"
  shows "distinct (map desc_fqName (prom_go lib))" "distinct (map desc_fqName (prom_process lib))"
    and "d \<in> set (prom_go lib) \<Longrightarrow> \<exists>rest. desc_fqName d = ''go_'' @ rest"
    and "d \<in> set (prom_process lib) \<Longrightarrow> \<exists>rest. desc_fqName d = ''process_'' @ rest"
    and "list_all valid_desc (prom_go lib)" "list_all valid_desc (prom_process lib)"
  using assms by (simp_all add: prometheus_ok_def)

text \<open>The names the recorder chooses are valid.\<close>

lemma gatex_descs_valid:
  "valid_metric_name ''gatex_http_requests_total'' \<and> valid_metric_name ''gatex_http_request_errors_total''
    \<and> valid_metric_name ''gatex_http_request_duration_seconds'' \<and> valid_metric_name ''gatex_circuit_breaker_state''
    \<and> list_all valid_label_name [''method'', ''route'', ''status''] \<and> list_all valid_label_name [''pool'', ''state'']"
  by code_simp

lemma NewRecorder_registers:
  assumes "prometheus_ok lib"
  shows "\<exists>m. NewRecorder lib = Some m \<and> registry m = [requests m, requestErrors m, requestDuration m, GoCollector, ProcessCollector]
    \<and> (\<forall>c \<in> set (registry m). \<forall>d \<in> set (Describe lib c). desc_fqName d \<noteq> ''gatex_circuit_breaker_state'')"
proof -
  note names = prometheus_ok_name [OF assms] and accepts = prometheus_ok_accepts [OF assms]
  note library = prometheus_ok_library [OF assms]
  have go: "desc_fqName d \<noteq> ''gatex_'' @ x" if "d \<in> set (prom_go lib)" for d x using library(3) [OF that] by auto
  have process: "desc_fqName d \<noteq> ''gatex_'' @ x" "desc_fqName d \<notin> desc_fqName ` set (prom_go lib)"
    if "d \<in> set (prom_process lib)" for d x
    using library(4) [OF that] library(3) by fastforce+
  let ?r = "CounterVec \<lparr>desc_fqName = ''gatex_http_requests_total'',
      desc_help = ''Total number of gateway HTTP requests.'', desc_labels = [''method'', ''route'', ''status'']\<rparr>"
  let ?e = "CounterVec \<lparr>desc_fqName = ''gatex_http_request_errors_total'',
      desc_help = ''Total number of gateway HTTP requests completed with a 5xx status.'', desc_labels = [''method'', ''route'', ''status'']\<rparr>"
  let ?d = "HistogramVec \<lparr>desc_fqName = ''gatex_http_request_duration_seconds'',
      desc_help = ''Gateway HTTP request latency in seconds.'', desc_labels = [''method'', ''route'', ''status'']\<rparr> (prom_DefBuckets lib)"
  have valid: "list_all valid_desc (Describe lib ?r)" "list_all valid_desc (Describe lib ?e)" "list_all valid_desc (Describe lib ?d)"
    using gatex_descs_valid by (simp_all add: Describe_def valid_desc_def)
  have steps: "prom_Register lib (map (Describe lib) []) (Describe lib ?r)"
    "prom_Register lib (map (Describe lib) [?r]) (Describe lib ?e)"
    "prom_Register lib (map (Describe lib) [?r, ?e]) (Describe lib ?d)"
    by (rule accepts [OF valid(1)], simp_all add: Describe_def)
      (rule accepts [OF valid(2), unfolded Describe_def, simplified], simp_all,
       rule accepts [OF valid(3), unfolded Describe_def, simplified], simp_all)
  have go_step: "prom_Register lib (map (Describe lib) [?r, ?e, ?d]) (Describe lib GoCollector)"
    by (rule accepts) (use library(1,5) go in \<open>auto simp: Describe_def\<close>)
  have process_step: "prom_Register lib (map (Describe lib) [?r, ?e, ?d, GoCollector]) (Describe lib ProcessCollector)"
    by (rule accepts) (use library(2,6) process in \<open>auto simp: Describe_def\<close>)
  have "MustRegister lib [] [?r, ?e, ?d, GoCollector, ProcessCollector] = Some [?r, ?e, ?d, GoCollector, ProcessCollector]"
    using steps go_step process_step by simp
  then have "NewRecorder lib =
      Some \<lparr>registry = [?r, ?e, ?d, GoCollector, ProcessCollector], requests = ?r, requestErrors = ?e, requestDuration = ?d\<rparr>"
    by (simp add: NewRecorder_def names Let_def del: MustRegister.simps)
  moreover have "desc_fqName d \<noteq> ''gatex_circuit_breaker_state''"
    if "d \<in> set (prom_go lib) \<union> set (prom_process lib)" for d
    using go [of d "''circuit_breaker_state''"] process(1) [of d "''circuit_breaker_state''"] that by auto
  ultimately show ?thesis by (auto simp: Describe_def)
qed

lemma RegisterCircuitBreakers_once:
  assumes "prometheus_ok lib" "\<forall>c \<in> set (registry m). \<forall>d \<in> set (Describe lib c). desc_fqName d \<noteq> ''gatex_circuit_breaker_state''"
  shows "RegisterCircuitBreakers lib source m = Some (m\<lparr>registry := registry m @ [newCircuitBreakerCollector lib source]\<rparr>)"
    and "RegisterCircuitBreakers lib other (m\<lparr>registry := registry m @ [newCircuitBreakerCollector lib source]\<rparr>) = None"
proof -
  let ?d = "\<lparr>desc_fqName = ''gatex_circuit_breaker_state'', desc_help = ''Current circuit-breaker state as a one-hot gauge.'',
    desc_labels = [''pool'', ''state'']\<rparr>"
  have d: "Describe lib (newCircuitBreakerCollector lib src) = [?d]" for src
    using prometheus_ok_name [OF assms(1), of "''gatex''" "''circuit_breaker''" "''state''"]
    by (simp add: newCircuitBreakerCollector_def Describe_def)
  have "prom_Register lib (map (Describe lib) (registry m)) [?d]"
    by (rule prometheus_ok_accepts [OF assms(1)]) (use assms(2) gatex_descs_valid in \<open>fastforce simp: valid_desc_def\<close>)+
  then show "RegisterCircuitBreakers lib source m = Some (m\<lparr>registry := registry m @ [newCircuitBreakerCollector lib source]\<rparr>)"
    by (simp add: RegisterCircuitBreakers_def d)
  have "\<not> prom_Register lib (map (Describe lib) (registry m @ [newCircuitBreakerCollector lib source])) [?d]"
    by (rule prometheus_ok_refuses [OF assms(1), of ?d]) (simp_all add: d)
  then show "RegisterCircuitBreakers lib other (m\<lparr>registry := registry m @ [newCircuitBreakerCollector lib source]\<rparr>) = None"
    by (simp add: RegisterCircuitBreakers_def d)
qed

text \<open>C17 (error). The process gets its handler: with a Prometheus library that keeps to its documentation, which
  accepts a collector whose metric and label names are well-formed, distinct and new and panics on an ill-formed or a repeated one, no
  registration of the recorder panics, neither its own metrics nor the breaker states, and the scrape
  endpoint serves exactly the registered collectors. A second source of breaker states panics.\<close>

theorem recorder_registers:
  assumes "prometheus_ok lib"
  shows "\<exists>m m'. NewRecorder lib = Some m
    \<and> RegisterCircuitBreakers lib (\<lambda>s. CircuitBreakerStates (gateway s)) m = Some m'
    \<and> recorded_handler lib H cfg E = Some (gatex_handler (H\<lparr>he_promhttp := \<lambda>_ _. Recorder_Handler lib m'\<rparr>) cfg E)
    \<and> registry m' = [requests m, requestErrors m, requestDuration m, GoCollector, ProcessCollector,
        newCircuitBreakerCollector lib (\<lambda>s. CircuitBreakerStates (gateway s))]
    \<and> RegisterCircuitBreakers lib other m' = None"
proof -
  obtain m where m: "NewRecorder lib = Some m" "registry m = [requests m, requestErrors m, requestDuration m, GoCollector, ProcessCollector]"
    "\<forall>c \<in> set (registry m). \<forall>d \<in> set (Describe lib c). desc_fqName d \<noteq> ''gatex_circuit_breaker_state''"
    using NewRecorder_registers [OF assms] by blast
  note once = RegisterCircuitBreakers_once [OF assms m(3)]
  show ?thesis
    by (rule exI [of _ m],
        rule exI [of _ "m\<lparr>registry := registry m @ [newCircuitBreakerCollector lib (\<lambda>s. CircuitBreakerStates (gateway s))]\<rparr>"])
      (use m(1,2) once in \<open>simp add: recorded_handler_def\<close>)
qed

section \<open>The counters agree\<close>

text \<open>What a request adds to the calls on the metrics.\<close>

lemma Instrument_adds:
  assumes "metric_calls (snd (snd (nxt r (Measuring new_measuring w) s))) = metric_calls s"
  shows "\<exists>rt status d. metric_calls (snd (snd (Instrument a b nxt r w s))) = metric_calls s @ measurements r rt status d"
proof -
  obtain ended v s1 where run: "nxt r (Measuring new_measuring w) s = (ended, v, s1)" using prod_cases3 by blast
  obtain m w' where "measuring_of v = (m, w')" by fastforce
  with run assms show ?thesis by (auto simp: Instrument_def observe_measurements Let_def)
qed

lemma CORS_metric_calls:
  assumes "\<And>v. metric_calls (snd (snd (nxt r v s))) = metric_calls s"
  shows "metric_calls (snd (snd (CORS U options nxt r w s))) = metric_calls s"
  using assms
  by (cases "optAllowedOrigins options = []") (simp_all add: CORS_writer, simp add: CORS_def makeStringSet_def Let_def)

lemma ServeHTTP_metric_calls: "current r \<noteq> None \<Longrightarrow> metric_calls (snd (snd (ServeHTTP E r w s))) = metric_calls s"
proof -
  assume cur: "current r \<noteq> None"
  obtain ended w' s' where run: "ServeHTTP E r w s = (ended, w', s')" using prod_cases3 by blast
  have "metric_calls (note_route rt r s) = metric_calls s" for rt by (simp add: note_route_def split: option.splits)
  then show ?thesis using ServeHTTP_notes_route [OF run cur] run by (simp add: quiet_step_def)
qed

lemma gatewayPath_adds:
  fixes s :: gateway_world
  shows "\<exists>rt status d. metric_calls (snd (snd (gatewayPath H cfg (ServeHTTP E) r w s))) = metric_calls s @ measurements r rt status d"
proof -
  obtain r0 s0 where e: "Ensure (he_ids H) r s = (r0, s0)" by fastforce
  then have r0: "current r0 \<noteq> None" "metric_calls s0 = metric_calls s" "Method r0 = Method r"
    by (auto simp: Ensure_def current_def Let_def split: if_splits)
  let ?inner = "CORS (he_case H) (cors_options (cfgCORS cfg)) (ServeHTTP E)"
  let ?w = "update_header (Header_Set IDHeader (RequestID r0 s0)) (Logging new_logging w)"
  have "metric_calls (snd (snd (?inner r0 v s0))) = metric_calls s0" for v
    by (rule CORS_metric_calls) (rule ServeHTTP_metric_calls [OF r0(1)])
  from Instrument_adds [of ?inner, OF this] obtain rt status d where
    m: "metric_calls (snd (snd (Instrument (met_startedAt H) (met_finishedAt H) ?inner r0 ?w s0))) = metric_calls s @ measurements r0 rt status d"
    using r0(2) by metis
  have same: "measurements r0 = measurements r" by (simp add: measurements_def r0(3) fun_eq_iff)
  have "metric_calls (snd (snd (gatewayPath H cfg (ServeHTTP E) r w s)))
      = metric_calls (snd (snd (Instrument (met_startedAt H) (met_finishedAt H) ?inner r0 ?w s0)))"
    by (simp add: gatewayPath_def Chain_Cons Chain_Nil RequestLogger_def e logCompletedRequest_def emit_def split: prod.split)
  then show ?thesis using m same by auto
qed

definition measured_step :: "gateway_world \<Rightarrow> gateway_world \<Rightarrow> bool" where
  "measured_step s s' =
    (metric_calls s' = metric_calls s \<or> (\<exists>r rt status d. metric_calls s' = metric_calls s @ measurements r rt status d))"

lemma serve_measures:
  assumes "only_writes q"
  shows "measured_step s (serve cfg s q)"
proof -
  obtain H E r w where q: "q = (H, E, r, w)" using prod_cases4 by blast
  have recovered: "measured_step s (snd (snd (Recovery U h r w s)))" if "measured_step s (snd (snd (h r w s)))"
    for U and h :: "gateway_world handler"
  proof -
    have "metric_calls (snd (snd (Recovery U h r w s))) = metric_calls (snd (snd (h r w s)))"
      by (auto simp: Recovery_def emit_def split: flow.splits prod.splits)
    then show ?thesis using that by (simp add: measured_step_def)
  qed
  have state: "snd (snd (HealthHandler U j r v t)) = t" "snd (snd (ReadinessHandler U j src r v t)) = t"
    for U j src v and t :: gateway_world
    by (auto simp: HealthHandler_def ReadinessHandler_def Let_def split: prod.splits bool.splits option.splits)
  have path: "measured_step s (snd (snd (gatewayPath H cfg (ServeHTTP E) r w s)))" and refl: "measured_step s s"
    using gatewayPath_adds [of H cfg E r w s] by (auto simp: measured_step_def)
  show ?thesis
    unfolding serve_def q prod.case gatex_handler_def handler_dispatch
    by (rule recovered) (use assms state path refl in \<open>auto simp: q only_writes_def split: mux_outcome.split\<close>)
qed

text \<open>The calls with given labels.\<close>

definition times_counted :: "labels \<Rightarrow> metric_call list \<Rightarrow> nat" where
  "times_counted l calls = length (filter (\<lambda>c. c = RequestsInc l) calls)"

definition times_timed :: "labels \<Rightarrow> metric_call list \<Rightarrow> nat" where
  "times_timed l calls = length (filter (\<lambda>c. case c of DurationObserve k v \<Rightarrow> k = l | _ \<Rightarrow> False) calls)"

definition times_failed :: "labels \<Rightarrow> metric_call list \<Rightarrow> nat" where
  "times_failed l calls = length (filter (\<lambda>c. c = ErrorsInc l) calls)"

definition all_counted :: "metric_call list \<Rightarrow> nat" where
  "all_counted calls = length (filter (\<lambda>c. case c of RequestsInc k \<Rightarrow> True | _ \<Rightarrow> False) calls)"

definition counters_agree :: "metric_call list \<Rightarrow> bool" where
  "counters_agree calls =
    (\<forall>m rt status. times_timed (m, rt, FormatInt status) calls = times_counted (m, rt, FormatInt status) calls \<and>
       times_failed (m, rt, FormatInt status) calls = (if 500 \<le> status then times_counted (m, rt, FormatInt status) calls else 0))"

lemma times_append [simp]:
  "times_counted l (xs @ ys) = times_counted l xs + times_counted l ys"
  "times_timed l (xs @ ys) = times_timed l xs + times_timed l ys"
  "times_failed l (xs @ ys) = times_failed l xs + times_failed l ys"
  "all_counted (xs @ ys) = all_counted xs + all_counted ys"
  by (simp_all add: times_counted_def times_timed_def times_failed_def all_counted_def)

lemma times_measurements:
  "counters_agree (measurements r rt status d)" "all_counted (measurements r rt status d) = 1"
  by (auto simp: counters_agree_def measurements_def times_counted_def times_timed_def times_failed_def all_counted_def Let_def FormatInt_inj)

lemma counters_agree_append: "counters_agree xs \<Longrightarrow> counters_agree ys \<Longrightarrow> counters_agree (xs @ ys)"
  by (simp add: counters_agree_def)

lemma served_counters:
  assumes "metric_calls s = []" "list_all only_writes reqs"
  shows "counters_agree (metric_calls (foldl (serve cfg) s reqs)) \<and> all_counted (metric_calls (foldl (serve cfg) s reqs)) \<le> length reqs"
  using assms(2)
proof (induction reqs rule: rev_induct)
  case Nil
  then show ?case using assms(1)
    by (simp add: counters_agree_def times_counted_def times_timed_def times_failed_def all_counted_def)
next
  case (snoc q reqs)
  then have "measured_step (foldl (serve cfg) s reqs) (serve cfg (foldl (serve cfg) s reqs) q)" by (intro serve_measures) simp
  then show ?case
    using snoc times_measurements by (auto simp: measured_step_def counters_agree_append)
qed

text \<open>What \<open>served_counters\<close> says holds between requests. While requests overlap, the goroutines that are in \<^verbatim>\<open>observe\<close>
  make their calls one at a time, and a scrape reads the counters at any moment: \<open>calls_made\<close> are the calls made so far,
  \<open>calls_left\<close> those each goroutine has still to make.\<close>

record metrics_sys =
  calls_made :: "metric_call list"
  calls_left :: "metric_call list list"

datatype metrics_event =
    EnterObserve Request int duration gateway_world
  | NextCall nat

fun metrics_exec :: "metrics_sys \<Rightarrow> metrics_event \<Rightarrow> metrics_sys" where
  "metrics_exec s (EnterObserve r status d g) = s\<lparr>calls_left := calls_left s @ [observe_calls r status d g]\<rparr>"
| "metrics_exec s (NextCall j) =
    (if j < length (calls_left s)
     then case calls_left s ! j of
            [] \<Rightarrow> s
          | c # cs \<Rightarrow> s\<lparr>calls_made := calls_made s @ [c], calls_left := (calls_left s)[j := cs]\<rparr>
     else s)"

definition metrics_start :: metrics_sys where
  "metrics_start = \<lparr>calls_made = [], calls_left = []\<rparr>"

text \<open>The goroutines that have counted their request under given labels and not yet timed it, and those that have still to count
  the error.\<close>

definition untimed :: "labels \<Rightarrow> metric_call list \<Rightarrow> bool" where
  "untimed l cs = (case cs of DurationObserve k v # _ \<Rightarrow> k = l | _ \<Rightarrow> False)"

definition unblamed :: "labels \<Rightarrow> metric_call list \<Rightarrow> bool" where
  "unblamed l cs = (cs = [ErrorsInc l])"

abbreviation number :: "('a \<Rightarrow> bool) \<Rightarrow> 'a list \<Rightarrow> nat" where
  "number P xs \<equiv> length (filter P xs)"

text \<open>What a goroutine has still to do is the rest of one observation.\<close>

definition observation_rest :: "metric_call list \<Rightarrow> bool" where
  "observation_rest cs =
    (\<exists>m rt status v. let l = (m, rt, FormatInt status) in
       cs \<in> {[RequestsInc l, DurationObserve l v], [DurationObserve l v]} \<and> status < 500 \<or>
       cs \<in> {[RequestsInc l, DurationObserve l v, ErrorsInc l], [DurationObserve l v, ErrorsInc l], [ErrorsInc l]} \<and> 500 \<le> status \<or>
       cs = [])"

definition metrics_inv :: "metrics_sys \<Rightarrow> bool" where
  "metrics_inv s =
    ((\<forall>cs \<in> set (calls_left s). observation_rest cs) \<and>
     (\<forall>l. times_counted l (calls_made s) = times_timed l (calls_made s) + number (untimed l) (calls_left s)) \<and>
     (\<forall>m rt status. let l = (m, rt, FormatInt status) in
        if 500 \<le> status then times_timed l (calls_made s) = times_failed l (calls_made s) + number (unblamed l) (calls_left s)
        else times_failed l (calls_made s) = 0))"

lemma observe_calls_rest: "observation_rest (observe_calls r status d g)"
  by (auto simp: observation_rest_def observe_calls_def Let_def)

lemma observe_calls_fresh: "\<not> untimed l (observe_calls r status d g)" "\<not> unblamed l (observe_calls r status d g)"
  by (simp_all add: untimed_def unblamed_def observe_calls_def Let_def)

lemma times_single:
  "times_counted l [c] = (if c = RequestsInc l then 1 else 0)"
  "times_timed l [c] = (if \<exists>v. c = DurationObserve l v then 1 else 0)"
  "times_failed l [c] = (if c = ErrorsInc l then 1 else 0)"
  by (auto simp: times_counted_def times_timed_def times_failed_def split: metric_call.splits)

lemma metrics_inv_call:
  assumes "metrics_inv s" "j < length (calls_left s)" "calls_left s ! j = c # cs"
  shows "metrics_inv (s\<lparr>calls_made := calls_made s @ [c], calls_left := (calls_left s)[j := cs]\<rparr>)"
proof -
  let ?left = "calls_left s"
  have rest: "observation_rest (c # cs)" using assms nth_mem [OF assms(2)] by (simp add: metrics_inv_def)
  then obtain m rt status v where l: "let l = (m, rt, FormatInt status) in
       c # cs \<in> {[RequestsInc l, DurationObserve l v], [DurationObserve l v]} \<and> status < 500 \<or>
       c # cs \<in> {[RequestsInc l, DurationObserve l v, ErrorsInc l], [DurationObserve l v, ErrorsInc l], [ErrorsInc l]} \<and> 500 \<le> status"
    unfolding observation_rest_def Let_def by blast
  let ?l = "(m, rt, FormatInt status)"
  have count: "number P (?left[j := cs]) + (if P (c # cs) then 1 else 0) = number P ?left + (if P cs then 1 else 0)" for P
    using filter_count_update [OF assms(2), where P = P and y = cs] assms(3) by simp
  consider (count) "c = RequestsInc ?l" "cs = [DurationObserve ?l v] \<or> cs = [DurationObserve ?l v, ErrorsInc ?l]"
    | (time) "c = DurationObserve ?l v" "cs = [] \<and> status < 500 \<or> cs = [ErrorsInc ?l] \<and> 500 \<le> status"
    | (blame) "c = ErrorsInc ?l" "cs = []" "500 \<le> status"
    using l by (auto simp: Let_def)
  note cases = this
  have "observation_rest cs" using l by (auto simp: observation_rest_def Let_def)
  then have "\<forall>x \<in> set (?left[j := cs]). observation_rest x"
    using assms(1) by (intro ball_list_update) (auto simp: metrics_inv_def)
  moreover have "times_counted k (calls_made s @ [c]) = times_timed k (calls_made s @ [c]) + number (untimed k) (?left[j := cs])" for k
  proof -
    have "times_counted k (calls_made s) = times_timed k (calls_made s) + number (untimed k) ?left"
      using assms(1) unfolding metrics_inv_def by blast
    then show ?thesis using count [of "untimed k"] by (cases rule: cases) (auto simp: untimed_def times_single)
  qed
  moreover have "let k = (m', rt', FormatInt status') in
      if 500 \<le> status' then times_timed k (calls_made s @ [c]) = times_failed k (calls_made s @ [c]) + number (unblamed k) (?left[j := cs])
      else times_failed k (calls_made s @ [c]) = 0" for m' rt' status'
  proof -
    let ?k = "(m', rt', FormatInt status')"
    have "if 500 \<le> status' then times_timed ?k (calls_made s) = times_failed ?k (calls_made s) + number (unblamed ?k) ?left
        else times_failed ?k (calls_made s) = 0"
      using assms(1) by (simp add: metrics_inv_def Let_def)
    then show ?thesis
      using count [of "unblamed ?k"] by (cases rule: cases) (auto simp: unblamed_def times_single Let_def FormatInt_inj)
  qed
  ultimately have "metrics_inv \<lparr>calls_made = calls_made s @ [c], calls_left = ?left[j := cs]\<rparr>"
    unfolding metrics_inv_def metrics_sys.select_convs by blast
  then show ?thesis by (cases s) simp
qed

lemma metrics_inv_exec: "metrics_inv s \<Longrightarrow> metrics_inv (metrics_exec s e)"
proof (cases e)
  case (EnterObserve r status d g)
  then show "metrics_inv s \<Longrightarrow> ?thesis" by (auto simp: metrics_inv_def observe_calls_rest observe_calls_fresh Let_def)
next
  case (NextCall j)
  then show "metrics_inv s \<Longrightarrow> ?thesis" using metrics_inv_call [of s j] by (auto split: list.split)
qed

interpretation metrics_machine: invariant_machine metrics_exec "\<lambda>_. True" metrics_inv
  by unfold_locales (simp_all add: metrics_inv_exec)


section \<open>Concrete runs\<close>

definition sample_prometheus :: "gateway_world prometheus" where
  "sample_prometheus =
    \<lparr>prom_BuildFQName = (\<lambda>a b c. Join (filter (\<lambda>s. s \<noteq> '''') [a, b, c]) ''_''),
     prom_DefBuckets = [fl (5 / 1000), fl (1 / 100), fl (25 / 1000), fl (5 / 100), fl (1 / 10), fl (25 / 100), fl (5 / 10), fl 1, fl (25 / 10), fl 5, fl 10],
     prom_Register = (\<lambda>registered ds. list_all valid_desc ds \<and> distinct (map desc_fqName ds) \<and>
       list_all (\<lambda>d. desc_fqName d \<notin> set (map desc_fqName (concat registered))) ds),
     prom_go = [\<lparr>desc_fqName = ''go_goroutines'', desc_help = ''Number of goroutines that currently exist.'', desc_labels = []\<rparr>],
     prom_process = [\<lparr>desc_fqName = ''process_open_fds'', desc_help = ''Number of open file descriptors.'', desc_labels = []\<rparr>],
     prom_HandlerFor = (\<lambda>collectors openMetrics r w s. (Returned, w, s))\<rparr>"

lemma sample_prometheus_ok: "prometheus_ok sample_prometheus"
proof -
  have names: "valid_metric_name ''go_goroutines'' \<and> valid_metric_name ''process_open_fds''" by code_simp
  have refuses: "\<not> prom_Register sample_prometheus registered ds" if "d \<in> set ds" "invalid_desc d \<or> d \<in> set (concat registered)" for registered ds d
  proof (cases "invalid_desc d")
    case True
    then show ?thesis using that(1) invalid_desc_not_valid by (auto simp: sample_prometheus_def list_all_iff)
  next
    case False
    then have "desc_fqName d \<in> set (map desc_fqName (concat registered))" using that(2) by force
    then show ?thesis using that(1) by (auto simp: sample_prometheus_def list_all_iff)
  qed
  have accepts: "prom_Register sample_prometheus registered ds"
    if "list_all valid_desc ds" "distinct (map desc_fqName ds)" "\<forall>d \<in> set ds. desc_fqName d \<notin> desc_fqName ` set (concat registered)"
    for registered ds using that by (simp add: sample_prometheus_def list_all_iff)
  have library: "list_all valid_desc (prom_go sample_prometheus)" "list_all valid_desc (prom_process sample_prometheus)"
    using names by (simp_all add: sample_prometheus_def valid_desc_def)
  show ?thesis
    unfolding prometheus_ok_def using refuses accepts library
    by (intro conjI allI impI; (elim bexE)?; blast?) (simp_all add: sample_prometheus_def)
qed

theorem recorder_registers_witness:
  "\<exists>m m'. NewRecorder sample_prometheus = Some m
    \<and> RegisterCircuitBreakers sample_prometheus (\<lambda>s. CircuitBreakerStates (gateway s)) m = Some m' \<and> length (registry m') = 6
    \<and> RegisterCircuitBreakers sample_prometheus (\<lambda>s. []) m' = None"
  using recorder_registers [OF sample_prometheus_ok, of sample_handler_env sample_cfg sample_env "\<lambda>s. []"] by fastforce

text \<open>Three requests fail with 502. The first observation is complete, the second has counted its request only, the third
  has yet to count its error.\<close>

definition sample_scrape :: "metrics_event list" where
  "sample_scrape =
    replicate 3 (EnterObserve (sample_get []) 502 7 (sample_gateway_world sample_cached_gateway)) @
    [NextCall 0, NextCall 2, NextCall 0, NextCall 1, NextCall 2, NextCall 0]"


end
