(* ===== verification/Mock_Backend.thy ===== *)
theory Mock_Backend
  imports Process
begin

text \<open>
  The upstream for local runs and load tests, \<^verbatim>\<open>src/cmd/mockbackend/main.go\<close>: a multiplexer with a health
  endpoint and a handler that waits, names itself and answers.

  The flags are the fields of \<open>mock_options\<close>. Whether the request was cancelled before the timer fired is an argument of
  the handler; the state is the list of log lines, of which the error's own text is left out.

  Shown here: what the backend answers, and that the gateway's health checks keep it healthy.
\<close>

section \<open>Model\<close>

definition Millisecond :: duration where
  "Millisecond = 1000000"

record mock_options =
  mock_listen :: string
  mock_name :: string
  mock_delay :: duration

definition mock_defaults :: mock_options where
  "mock_defaults = \<lparr>mock_listen = ''127.0.0.1:18081'', mock_name = ''backend'', mock_delay = 2 * Millisecond\<rparr>"

definition mock_healthz :: "unicode_case \<Rightarrow> string list handler" where
  "mock_healthz U r w s = (Returned, WriteHeader U 204 w, s)"

definition mock_root :: "unicode_case \<Rightarrow> mock_options \<Rightarrow> bool \<Rightarrow> string list handler" where
  "mock_root U options doneFirst r w s =
    (if mock_delay options > 0 \<and> doneFirst then (Returned, w, s)
     else
       let w = update_header (Header_Set ''Content-Type'' ''text/plain; charset=utf-8'') w;
           w = update_header (Header_Set ''X-Mock-Backend'' (mock_name options)) w;
           (n, err, w) = Write U (mock_name options @ [CHR 0x0A]) w
       in (Returned, w, if err then s @ [''write response''] else s))"

definition mock_handler :: "unicode_case \<Rightarrow> (string \<Rightarrow> string list handler) \<Rightarrow> mock_options \<Rightarrow> bool \<Rightarrow> string list handler" where
  "mock_handler U redirect options doneFirst =
    ServeMux_ServeHTTP U redirect [(''/healthz'', mock_healthz U), (''/'', mock_root U options doneFirst)]"

definition mock_server :: "mock_options \<Rightarrow> http_server" where
  "mock_server options =
    \<lparr>server_Addr = mock_listen options, ReadHeaderTimeout = 5 * Second, server_IdleTimeout = 30 * Second\<rparr>"

section \<open>What it answers\<close>

lemma mock_dispatch:
  assumes "ServeMux_match [''/healthz'', ''/''] r = MuxPattern p"
  shows "mock_handler U redirect options doneFirst r w s =
    (if p = ''/healthz'' then mock_healthz U r w s else mock_root U options doneFirst r w s)"
proof -
  have "p \<in> set [''/healthz'', ''/'']"
    using assms by (auto simp: ServeMux_match_def Let_def split: if_splits dest: mux_lookup_pattern)
  then show ?thesis using assms by (auto simp: mock_handler_def ServeMux_ServeHTTP_def)
qed

lemma mock_healthz_response:
  assumes "writer_ok U w" "unwritten w" "mock_healthz U r w s = (ended, w', s')"
  shows "ended = Returned \<and> base_status (base_of w') = Some 204 \<and> base_body (base_of w') = base_body (base_of w)"
proof -
  have "base_of w' = base_WriteHeader 204 (base_of w)" using assms(3) writer_WriteHeader [OF assms(1), of 204] by (auto simp: mock_healthz_def)
  then show ?thesis using assms(2,3) by (simp add: base_WriteHeader_def is_informational_def unwritten_def mock_healthz_def)
qed

lemma mock_root_response:
  assumes "writer_ok U w" "unwritten w" "unfailed w" "\<not> (mock_delay options > 0 \<and> doneFirst)"
    and "mock_root U options doneFirst r w s = (ended, w', s')"
  shows "ended = Returned \<and> s' = s \<and> base_status (base_of w') = Some 200
    \<and> base_body (base_of w') = mock_name options @ [CHR 0x0A]
    \<and> Header_Get (sent_header (base_of w')) ''X-Mock-Backend'' = mock_name options"
proof -
  let ?h = "\<lambda>w. update_header (Header_Set ''X-Mock-Backend'' (mock_name options))
    (update_header (Header_Set ''Content-Type'' ''text/plain; charset=utf-8'') w)"
  obtain n err v where wr: "Write U (mock_name options @ [CHR 0x0A]) (?h w) = (n, err, v)" using prod_cases3 by blast
  have ok: "writer_ok U (?h w)" "unfailed (?h w)" using assms(1,3) by simp_all
  have full: "n = length (mock_name options @ [CHR 0x0A])" "\<not> err" using unfailed_Write [OF ok(2) wr] by simp_all
  have res: "ended = Returned" "w' = v" "s' = s" using assms(4,5) wr full by (auto simp: mock_root_def)
  have "base_Write (mock_name options @ [CHR 0x0A]) (base_of (?h w)) = (n, err, base_of v)"
    using writer_Write [OF ok(1) wr] by simp
  from base_Write_effect [OF this] show ?thesis
    using assms(2) writer_ok_base [OF assms(1)] full res
    by (auto simp: unwritten_def base_ok_def)
qed

section \<open>The health checks of the gateway\<close>

text \<open>A backend whose health endpoint is the one of the mock backend passes every check that reaches it.\<close>

theorem mock_backend_passes_checks:
  assumes "resolve_url world (url b) (path h) = Some checkURL" "request_ok world checkURL"
    and "writer_ok U w" "unwritten w" "ServeMux_match [''/healthz'', ''/''] r = MuxPattern ''/healthz''"
    and "mock_handler U redirect options doneFirst r w s = (ended, w', s')"
    and "exchange world checkURL (timeout h) = ProbeResponse (client_status ended (base_of w')) True"
  shows "healthy (checkBackend h world b)"
proof -
  have "mock_healthz U r w s = (ended, w', s')" using assms(5,6) by (simp add: mock_dispatch)
  from mock_healthz_response [OF assms(3,4) this] assms(1,2,7) show ?thesis
    by (simp add: checkBackend_eq probe_ok_def client_status_def)
qed

end
