(* ===== verification/Rate_Window.thy ===== *)
theory Rate_Window
  imports Rate_Limiter
begin

text \<open>
  The rate limit of \<^verbatim>\<open>src/internal/ratelimiter/client_limiter.go\<close> over a window of time. A limiter drops the bucket of an idle
  client, and the client's next request gets a full one. That gives nothing away, since \<^verbatim>\<open>newClientLimiter\<close> makes the
  idle time at least as long as \<^verbatim>\<open>bucketRefillDuration\<close>, in which an empty bucket would fill up. Shown here with the
  rounding of both computations.
\<close>

section \<open>The refill duration\<close>

lemma refill_nanoseconds:
  assumes "float64_of_int burst = Fin c" "tps = Fin r" "0 < c" "0 < r"
    and "bucketRefillDuration tps burst \<le> d" "d < maxInt64"
  shows "fl_round (fl_round (c / r) * of_int Second) \<le> of_int d"
proof -
  let ?y = "fl_round (c / r)"
  let ?z = "fl_round (?y * of_int Second)"
  have S: "float64_of_int Second = Fin (of_int Second)" by (simp add: Second_def float64_of_int_small)
  have y0: "0 \<le> ?y" using assms(3,4) by (intro fl_round_nonneg) simp
  have full: "float64_of_int maxInt64 \<le> PosInf"
    using float64_of_int_pos(1) [of maxInt64] by (simp add: maxInt64_def less_eq_float64_def)
  have div: "float64_of_int burst / tps = fl (c / r)" using assms by (simp add: float64_op_defs)
  have nano: "Ceil (float64_of_int burst / tps * float64_of_int Second) \<noteq> PosInf"
    using assms(5,6) full by (auto simp: bucketRefillDuration_def Let_def)
  have y: "fl (c / r) = Fin ?y"
  proof (rule fl_nonneg_cases [of "c / r"])
    assume "fl (c / r) = PosInf"
    then show ?thesis using nano unfolding div S by (simp add: times_float64_def Second_def)
  qed (use assms(3,4) in simp_all)
  have z: "fl (?y * of_int Second) = Fin ?z"
  proof (rule fl_nonneg_cases [of "?y * of_int Second"])
    assume "fl (?y * of_int Second) = PosInf"
    then show ?thesis using nano unfolding div y S by (simp add: times_float64_def)
  qed (use y0 in \<open>simp_all add: Second_def\<close>)
  have z0: "0 \<le> ?z" using y0 by (intro fl_round_nonneg) (simp add: Second_def)
  have "\<lceil>?z\<rceil> \<le> d"
    using assms(5,6) z0
    unfolding bucketRefillDuration_def div y S by (auto simp: Let_def times_float64_def z split: if_splits)
  then show ?thesis by (simp add: ceiling_le_iff)
qed

text \<open>An idle time as long as the refill duration earns the whole burst: the four roundings that \<open>earned\<close>
  allows for make up for the two of the computation.\<close>

lemma refill_duration_covers:
  assumes "validateBucketConfig tps burst = None" "wf64 tps" "burst \<le> maxInt64"
    and "bucketRefillDuration tps burst \<le> d" "0 < d" "d < maxInt64"
  shows "val64 (float64_of_int burst) \<le> earned (newBucketAt tps burst t) d"
proof -
  have "bucket_wf (newBucketAt tps burst t)" using assms(1-3) by (rule bucket_wf_newBucketAt)
  then obtain r c where r: "tps = Fin r" "0 < r" and c: "float64_of_int burst = Fin c" "1 \<le> c"
    by (auto simp: bucket_wf_def elim!: finite64_cases)
  define x where "x = c / r"
  let ?S = "of_int Second :: rat"
  have S: "?S = 10 ^ 9" "float64_of_int Second = Fin ?S"
    by (simp_all add: Second_def float64_of_int_small)
  have "c \<le> r * (of_int d / ?S) * (1 + fl_unit) ^ 4"
  proof (cases "x * ?S \<le> 1")
    case True
    then have "c * ?S \<le> r" using r by (simp add: x_def divide_le_eq)
    moreover have "r \<le> r * of_int d" using r assms(5) by simp
    ultimately have "c \<le> r * (of_int d / ?S)" by (simp add: S(1) le_divide_eq)
    also have "\<dots> \<le> r * (of_int d / ?S) * (1 + fl_unit) ^ 4"
      using mult_left_mono [OF one_le_power [of "1 + fl_unit" 4], of "r * (of_int d / ?S)"] r assms(5) by (simp add: S(1))
    finally show ?thesis .
  next
    case False
    then have big: "1 / ?S < x" by (simp add: S(1) divide_less_eq)
    have "(2 :: rat) powi (- 1000) \<le> 1 / ?S" by (simp add: S(1) power_int_minus)
    then have y: "x * (1 - 5 / 4 * fl_unit) \<le> fl_round x" using big by (intro fl_round_ge_rel) linarith
    have k: "0 \<le> 1 - 5 / 4 * fl_unit" "1 / 2 \<le> 1 - 5 / 4 * fl_unit" by (simp_all add: fl_unit_def)
    have "1 / ?S * (1 / 2) \<le> x * (1 - 5 / 4 * fl_unit)" using big k by (intro mult_mono) (simp_all add: S(1))
    then have y0: "1 / 2 \<le> fl_round x * ?S" using y by (simp add: S(1) divide_le_eq)
    have "(2 :: rat) powi (- 1000) \<le> 1 / 2" by (simp add: power_int_minus)
    then have z: "fl_round x * ?S * (1 - 5 / 4 * fl_unit) \<le> fl_round (fl_round x * ?S)"
      using y0 by (intro fl_round_ge_rel) linarith
    have nano: "fl_round (fl_round x * ?S) \<le> of_int d" unfolding x_def using c r assms(4,6) by (intro refill_nanoseconds) simp_all
    have "x * ?S * (1 - 5 / 4 * fl_unit) ^ 2 \<le> fl_round x * ?S * (1 - 5 / 4 * fl_unit)"
      using mult_right_mono [OF y, of "?S * (1 - 5 / 4 * fl_unit)"] k by (simp add: S(1) power2_eq_square algebra_simps)
    also have "\<dots> \<le> of_int d" using z nano by linarith
    finally have "x * (1 - 5 / 4 * fl_unit) ^ 2 \<le> of_int d / ?S" by (simp add: S(1) le_divide_eq algebra_simps)
    then have "r * x * ((1 - 5 / 4 * fl_unit) ^ 2 * (1 + fl_unit) ^ 4) \<le> r * (of_int d / ?S) * (1 + fl_unit) ^ 4"
      unfolding mult.assoc [of r x] mult.assoc [of x, symmetric] mult.assoc [of r _ "_ ^ 4"]
      using r by (intro mult_left_mono mult_right_mono) simp_all
    moreover have "1 \<le> (1 - 5 / 4 * fl_unit) ^ 2 * (1 + fl_unit) ^ 4" by (simp add: fl_unit_def power_divide)
    then have "c \<le> r * x * ((1 - 5 / 4 * fl_unit) ^ 2 * (1 + fl_unit) ^ 4)"
      using c r by (simp add: x_def)
    ultimately show ?thesis by linarith
  qed
  then show ?thesis by (simp add: earned_def r c)
qed


section \<open>The entries of a limiter\<close>

definition entry_ok :: "ClientLimiter \<Rightarrow> clientEntry \<Rightarrow> bool" where
  "entry_ok l e =
    (bucket_wf (bucket e) \<and> lastRefill (bucket e) = lastSeen e \<and> tokensPerSecond (bucket e) = limTokensPerSecond l
      \<and> capacity (bucket e) = float64_of_int (limBurst l))"

definition entries_ok :: "time \<Rightarrow> ClientLimiter \<Rightarrow> bool" where
  "entries_ok now l = (\<forall>key e. client_entry l key = Some e \<longrightarrow> entry_ok l e \<and> lastSeen e \<le> now)"

lemma surviving_entry: "surviving now l key = Some e \<Longrightarrow> client_entry l key = Some e"
  by (auto simp: surviving_def split: option.splits if_splits)

lemma request_entry_ok:
  assumes "limiter_wf l" "entries_ok t l" "t \<le> now"
  shows "bucket_wf (bucket (request_entry now l key))"
    and "tokensPerSecond (bucket (request_entry now l key)) = limTokensPerSecond l"
    and "capacity (bucket (request_entry now l key)) = float64_of_int (limBurst l)"
    and "lastRefill (bucket (request_entry now l key)) \<le> now" and "lastSeen (request_entry now l key) = now"
  using request_entry_wf [OF assms(1), of now key] assms(2,3) surviving_entry [of now l key]
  by (fastforce simp: request_entry_def entries_ok_def entry_ok_def split: option.splits)+

lemma entries_ok_Allow:
  assumes "limiter_wf l" "entries_ok t l" "t \<le> now"
  shows "entries_ok now (snd (ClientLimiter_Allow now key l))"
proof -
  let ?e = "request_entry now l key"
  have same: "entry_ok (snd (ClientLimiter_Allow now key l)) = entry_ok l" by (simp add: entry_ok_def fun_eq_iff)
  have "entry_ok l (?e\<lparr>bucket := snd (Bucket_allowAt now (bucket ?e))\<rparr>)" "lastSeen ?e \<le> now"
    using request_entry_ok [OF assms, of key] by (simp_all add: entry_ok_def bucket_wf_allowAt max_def)
  then show ?thesis
    using assms(2,3) surviving_entry unfolding entries_ok_def same Allow_entries [OF assms(1)]
    by (fastforce split: if_splits)
qed

lemma limiter_run_entries_ok:
  assumes "limiter_wf l" "entries_ok t l" "sorted (t # map fst reqs)" "\<forall>u \<in> set (t # map fst reqs). u \<le> t'"
  shows "entries_ok t' (snd (limiter_run reqs l))"
  using assms
proof (induction reqs arbitrary: l t)
  case Nil
  then show ?case by (auto simp: entries_ok_def intro: order_trans)
next
  case (Cons r reqs)
  obtain now k where r: "r = (now, k)" by fastforce
  with Cons.prems(3) have "t \<le> now" by simp
  note step = limiter_wf_Allow [OF Cons.prems(1), of now k] entries_ok_Allow [OF Cons.prems(1,2) this, of k]
  show ?case using Cons.IH [OF step] Cons.prems(3,4) by (simp add: r split_beta)
qed

section \<open>The account of a window\<close>

text \<open>A client that stayed away long enough to be forgotten has earned its whole burst meanwhile.\<close>

definition refills_when_idle :: "ClientLimiter \<Rightarrow> duration \<Rightarrow> bool" where
  "refills_when_idle l width =
    (\<forall>d. clientIdleTTL l \<le> d \<longrightarrow> d \<le> width \<longrightarrow>
      val64 (float64_of_int (limBurst l)) \<le> earned (newBucketAt (limTokensPerSecond l) (limBurst l) 0) d)"

abbreviation limit_earned :: "ClientLimiter \<Rightarrow> duration \<Rightarrow> rat" where
  "limit_earned l \<equiv> earned (newBucketAt (limTokensPerSecond l) (limBurst l) 0)"

abbreviation limit_slack :: "ClientLimiter \<Rightarrow> rat" where
  "limit_slack l \<equiv> bucket_slack (newBucketAt (limTokensPerSecond l) (limBurst l) 0)"

text \<open>From the start \<open>t0\<close> of a window on, a client asked and was admitted some number of times. As long as the limiter
  has its bucket, admissions and tokens together are covered by the burst and what was earned; when it has none,
  what was earned alone covers the admissions, so a new bucket may be full. Before the first
  admission nothing need be known of the bucket.\<close>

definition window_account :: "time \<Rightarrow> time \<Rightarrow> nat \<Rightarrow> nat \<Rightarrow> ClientLimiter \<Rightarrow> clientEntry option \<Rightarrow> bool" where
  "window_account t0 now admitted asked l entry =
    (case entry of
       None \<Rightarrow> of_nat admitted \<le> limit_earned l (now - t0) + of_nat asked * limit_slack l
     | Some e \<Rightarrow> admitted = 0 \<or>
         t0 \<le> lastSeen e \<and> lastSeen e \<le> now \<and>
         of_nat admitted + val64 (tokens (bucket e))
           \<le> val64 (float64_of_int (limBurst l)) + limit_earned l (lastSeen e - t0) + of_nat asked * limit_slack l)"

lemma limit_earned:
  assumes "limiter_wf l"
  shows "limit_earned l (c - b) + limit_earned l (b - a) = limit_earned l (c - a)"
    and "c \<le> d \<Longrightarrow> limit_earned l c \<le> limit_earned l d" and "limit_earned l 0 = 0" and "0 \<le> limit_slack l"
proof -
  have wf: "bucket_wf (newBucketAt (limTokensPerSecond l) (limBurst l) 0)"
    using assms by (intro bucket_wf_newBucketAt) (simp_all add: limiter_wf_def)
  then have r: "0 < val64 (limTokensPerSecond l)" "1 \<le> val64 (float64_of_int (limBurst l))" by (simp_all add: bucket_wf_def)
  show "limit_earned l (c - b) + limit_earned l (b - a) = limit_earned l (c - a)"
    by (simp add: earned_def algebra_simps add_divide_distrib diff_divide_distrib)
  show "limit_earned l c \<le> limit_earned l d" if "c \<le> d"
    using that r(1) by (simp add: earned_def Second_def divide_right_mono mult_right_mono)
  show "limit_earned l 0 = 0" "0 \<le> limit_slack l" using r by (simp_all add: earned_def bucket_slack_def)
qed

lemma window_account_waits:
  assumes "limiter_wf l" "refills_when_idle l (now' - t0)" "t0 \<le> now" "now \<le> now'" "entries_ok now l"
    and "window_account t0 now admitted asked l (client_entry l key)"
  shows "window_account t0 now' admitted asked l (surviving now' l key)"
    and "window_account t0 now' admitted asked l (client_entry l key)"
proof -
  note e = limit_earned [OF assms(1)]
  have mono: "limit_earned l (now - t0) \<le> limit_earned l (now' - t0)" using assms(4) by (intro e(2)) simp
  then show same: "window_account t0 now' admitted asked l (client_entry l key)"
    using assms(4,6) by (auto simp: window_account_def split: option.splits)
  show "window_account t0 now' admitted asked l (surviving now' l key)"
  proof (cases "surviving now' l key = client_entry l key")
    case False
    then obtain c where c: "client_entry l key = Some c" "surviving now' l key = None" "lastSeen c + clientIdleTTL l \<le> now'"
      by (auto simp: surviving_def split: option.splits if_splits)
    show ?thesis
    proof (cases "admitted = 0")
      case True
      have "0 \<le> limit_earned l (now' - t0)" using e(2) [of 0 "now' - t0"] e(3) assms(3,4) by simp
      then show ?thesis using True e(4) c(2) by (simp add: window_account_def)
    next
      case False
      then have a: "t0 \<le> lastSeen c" "of_nat admitted + val64 (tokens (bucket c))
          \<le> val64 (float64_of_int (limBurst l)) + limit_earned l (lastSeen c - t0) + of_nat asked * limit_slack l"
        using assms(6) c(1) by (simp_all add: window_account_def)
      have "val64 (float64_of_int (limBurst l)) \<le> limit_earned l (now' - lastSeen c)"
        using assms(2) c(3) a(1) by (simp add: refills_when_idle_def)
      moreover have "0 \<le> val64 (tokens (bucket c))"
        using assms(5) c(1) by (auto simp: entries_ok_def entry_ok_def bucket_wf_def)
      ultimately show ?thesis using a(2) e(1) [of now' "lastSeen c" t0] c(2) by (simp add: window_account_def)
    qed
  qed (use same in simp)
qed

lemma allowAt_full:
  assumes "bucket_wf b"
  shows "of_bool (fst (Bucket_allowAt now b)) + val64 (tokens (snd (Bucket_allowAt now b))) \<le> val64 (capacity b) + bucket_slack b"
proof -
  let ?b = "Bucket_refill now b"
  have wf: "bucket_wf ?b" using assms by (rule bucket_wf_refill)
  have "Bucket_refill now ?b = ?b" by (simp add: Bucket_refill_def [of now ?b])
  then have "Bucket_allowAt now ?b = Bucket_allowAt now b" by (simp add: Bucket_allowAt_def)
  moreover have "bucket_slack ?b = bucket_slack b" "earned ?b (max now (lastRefill ?b) - lastRefill ?b) = 0"
    by (simp_all add: bucket_slack_def earned_def)
  ultimately show ?thesis using allowAt_potential [OF wf, of now] wf by (simp add: bucket_wf_def)
qed

lemma window_account_request:
  assumes "limiter_wf l" "entries_ok t l" "t \<le> now" "t0 \<le> now"
    and "window_account t0 now admitted asked l (surviving now l key)"
  defines "e \<equiv> request_entry now l key"
  shows "window_account t0 now (admitted + of_bool (fst (Bucket_allowAt now (bucket e)))) (Suc asked) l
    (Some (e\<lparr>bucket := snd (Bucket_allowAt now (bucket e))\<rparr>))"
proof -
  note ok = request_entry_ok [OF assms(1-3), of key, folded e_def]
  note el = limit_earned [OF assms(1)]
  let ?c = "val64 (float64_of_int (limBurst l))"
  let ?a = "of_bool (fst (Bucket_allowAt now (bucket e))) + val64 (tokens (snd (Bucket_allowAt now (bucket e))))"
  have same: "earned (bucket e) = limit_earned l" "bucket_slack (bucket e) = limit_slack l"
    using ok(2,3) by (simp_all add: earned_def bucket_slack_def fun_eq_iff)
  have "of_nat admitted + ?a \<le> ?c + limit_earned l (now - t0) + of_nat asked * limit_slack l + limit_slack l"
  proof (cases "admitted = 0")
    case True
    have "0 \<le> limit_earned l (now - t0)" using el(2) [of 0 "now - t0"] el(3) assms(4) by simp
    moreover have "0 \<le> of_nat asked * limit_slack l" using el(4) by simp
    ultimately show ?thesis using allowAt_full [OF ok(1), of now] True ok(3) same(2) by simp
  next
    case False
    have "of_nat admitted + val64 (tokens (bucket e))
        \<le> ?c + limit_earned l (lastRefill (bucket e) - t0) + of_nat asked * limit_slack l"
    proof (cases "surviving now l key")
      case None
      then show ?thesis using assms(5) by (simp add: window_account_def e_def request_entry_def)
    next
      case (Some c)
      then have "bucket e = bucket c" "lastRefill (bucket c) = lastSeen c"
        using assms(2) surviving_entry [OF Some] by (auto simp: e_def request_entry_def entries_ok_def entry_ok_def)
      then show ?thesis using assms(5) Some False by (simp add: window_account_def)
    qed
    then show ?thesis
      using allowAt_potential [OF ok(1), of now] ok(4) el(1) [of now "lastRefill (bucket e)" t0]
      by (simp add: same max_absorb1)
  qed
  then show ?thesis using assms(4) ok(5) by (simp add: window_account_def algebra_simps)
qed

lemma window_account_total:
  assumes "limiter_wf l" "entries_ok t l" "t0 \<le> t" "window_account t0 t admitted asked l (client_entry l key)"
  shows "of_nat admitted \<le> val64 (float64_of_int (limBurst l)) + limit_earned l (t - t0) + of_nat asked * limit_slack l"
proof -
  note e = limit_earned [OF assms(1)]
  have c: "1 \<le> val64 (float64_of_int (limBurst l))"
    using bucket_wf_newBucketAt [of "limTokensPerSecond l" "limBurst l" 0] assms(1) by (simp add: limiter_wf_def bucket_wf_def)
  have pos: "0 \<le> limit_earned l (t - t0)" "0 \<le> of_nat asked * limit_slack l"
    using e(2) [of 0 "t - t0"] e(3,4) assms(3) by simp_all
  show ?thesis
  proof (cases "client_entry l key")
    case None
    then show ?thesis using assms(4) c by (simp add: window_account_def)
  next
    case (Some x)
    then have "0 \<le> val64 (tokens (bucket x))" "limit_earned l (lastSeen x - t0) \<le> limit_earned l (t - t0)"
      using assms(2) by (auto simp: entries_ok_def entry_ok_def bucket_wf_def intro: e(2))
    then show ?thesis using assms(4) Some c pos by (auto simp: window_account_def)
  qed
qed

lemma window_account_Allow [simp]:
  "window_account t0 now a n (snd (ClientLimiter_Allow t k l)) = window_account t0 now a n l"
  by (simp add: window_account_def fun_eq_iff split: option.split)

lemma window_step:
  assumes "limiter_wf l" "entries_ok t l" "t0 \<le> t" "t \<le> now" "refills_when_idle l (now - t0)"
    and "window_account t0 t admitted asked l (client_entry l key)"
  shows "window_account t0 now
    (admitted + of_bool (k = key \<and> fst (ClientLimiter_Allow now k l))) (asked + of_bool (k = key)) l
    (client_entry (snd (ClientLimiter_Allow now k l)) key)"
proof -
  note waits = window_account_waits [OF assms(1,5,3,4,2,6)]
  have "t0 \<le> now" using assms(3,4) by simp
  note asks = window_account_request [OF assms(1,2,4) this waits(1)]
  have "fst (ClientLimiter_Allow now key l) = fst (Bucket_allowAt now (bucket (request_entry now l key)))"
    by (simp add: Allow_unfold [OF assms(1)])
  with asks waits show ?thesis by (cases "k = key") (simp_all add: Allow_entries [OF assms(1)])
qed

lemma window_bound:
  assumes "limiter_wf l" "entries_ok t l" "t0 \<le> t" "sorted (t # map fst reqs @ [t1])" "refills_when_idle l (t1 - t0)"
    and "window_account t0 t admitted asked l (client_entry l key)"
  shows "of_nat (admitted + allowed_count (decisions_for key reqs (fst (limiter_run reqs l))))
    \<le> val64 (float64_of_int (limBurst l)) + limit_earned l (t1 - t0) + of_nat (asked + length (times_of key reqs)) * limit_slack l"
  using assms
proof (induction reqs arbitrary: l t admitted asked)
  case Nil
  have "limit_earned l (t - t0) \<le> limit_earned l (t1 - t0)" using Nil.prems(4) by (intro limit_earned(2) [OF Nil.prems(1)]) simp
  then show ?case
    using window_account_total [OF Nil.prems(1-3,6)] by (simp add: decisions_for_def times_of_def allowed_count_def)
next
  case (Cons r reqs)
  obtain now k where r: "r = (now, k)" by fastforce
  let ?l = "snd (ClientLimiter_Allow now k l)"
  have t: "t \<le> now" "now \<le> t1" "t0 \<le> now" using Cons.prems(3,4) by (simp_all add: r)
  have "refills_when_idle l (now - t0)" using Cons.prems(5) t(2) by (simp add: refills_when_idle_def)
  from window_step [OF Cons.prems(1-3) t(1) this Cons.prems(6), of k]
  have step: "window_account t0 now (admitted + of_bool (k = key \<and> fst (ClientLimiter_Allow now k l))) (asked + of_bool (k = key))
      ?l (client_entry ?l key)" by simp
  have "refills_when_idle ?l (t1 - t0)" using Cons.prems(5) by (simp add: refills_when_idle_def)
  from Cons.IH [OF limiter_wf_Allow [OF Cons.prems(1)] entries_ok_Allow [OF Cons.prems(1,2) t(1)] t(3) _ this step] Cons.prems(4)
  show ?case by (cases "k = key") (auto simp: r split_beta decisions_for_def times_of_def allowed_count_def)
qed

lemma limiter_run_fields:
  "limTokensPerSecond (snd (limiter_run reqs l)) = limTokensPerSecond l" "limBurst (snd (limiter_run reqs l)) = limBurst l"
  "clientIdleTTL (snd (limiter_run reqs l)) = clientIdleTTL l"
  unfolding limiter_run_foldl by (induction reqs arbitrary: l) simp_all

lemma newClientLimiter_refills:
  assumes "newClientLimiter tps burst options = Inr l" "wf64 tps" "burst \<le> maxInt64" "width < maxInt64"
  shows "refills_when_idle l width"
proof -
  have l: "validateBucketConfig tps burst = None" "limTokensPerSecond l = tps" "limBurst l = burst"
    "0 < clientIdleTTL l" "bucketRefillDuration tps burst \<le> clientIdleTTL l"
    using assms(1) by (auto simp: newClientLimiter_def split: option.splits if_splits)
  show ?thesis unfolding refills_when_idle_def l(2,3)
    using l(4,5) assms(4) by (intro allI impI refill_duration_covers [OF l(1) assms(2,3)]) simp_all
qed

text \<open>The start of a window, at any moment of a limiter's life.\<close>

lemma window_start:
  assumes "newClientLimiter tps burst options = Inr l0" "wf64 tps" "burst \<le> maxInt64" "optShardCount options \<le> maxInt64"
    and "sorted (map fst before @ [t0])" "width < maxInt64" "l = snd (limiter_run before l0)"
  shows "limiter_wf l" "entries_ok t0 l" "refills_when_idle l width" "window_account t0 t0 0 0 l (client_entry l key)"
    and "limTokensPerSecond l = tps" "limBurst l = burst"
proof -
  note new = newClientLimiter_wf [OF assms(1-4)]
  show "limTokensPerSecond l = tps" "limBurst l = burst"
    using assms(1,7) by (auto simp: limiter_run_fields newClientLimiter_def split: option.splits if_splits)
  show wf: "limiter_wf l" unfolding assms(7) using new(1) by (rule limiter_run_wf)
  let ?first = "hd (map fst before @ [t0])"
  have first: "sorted (?first # map fst before)" "\<forall>u \<in> set (?first # map fst before). u \<le> t0"
    using assms(5) by (cases before; auto simp: sorted_append)+
  have "entries_ok ?first l0" using new(2) by (simp add: entries_ok_def)
  from limiter_run_entries_ok [OF new(1) this first] show "entries_ok t0 l" by (simp add: assms(7))
  show "refills_when_idle l width"
    using newClientLimiter_refills [OF assms(1-3,6)] by (simp add: refills_when_idle_def limiter_run_fields assms(7))
  show "window_account t0 t0 0 0 l (client_entry l key)"
    using limit_earned(3) [OF wf] by (simp add: window_account_def split: option.split)
qed

section \<open>Property\<close>

text \<open>C8 (bounds). The rate limit holds for every client in every window of time: at any moment of a limiter's life, however
  the requests of all clients interleave, and although the entries of idle clients are dropped and come back with
  a full bucket, a client is admitted between \<open>t0\<close> and \<open>t1\<close> at most its burst plus what the configured rate
  earns in that time. The bound carries the rounding of \<^verbatim>\<open>float64\<close>: a relative error of four roundings on what is
  earned, and \<open>bucket_slack\<close> per request. The window is shorter than the 292 years of a \<^verbatim>\<open>time.Duration\<close>, and the
  readings of the clock reach the limiter in order.\<close>

theorem client_rate_bound:
  assumes "newClientLimiter tps burst options = Inr l0" "wf64 tps" "burst \<le> maxInt64" "optShardCount options \<le> maxInt64"
    and "sorted (map fst before @ [t0] @ map fst reqs @ [t1])" "t1 - t0 < maxInt64"
    and "l = snd (limiter_run before l0)"
  shows "of_nat (allowed_count (decisions_for key reqs (fst (limiter_run reqs l))))
    \<le> val64 (float64_of_int burst) + earned (newBucketAt tps burst t0) (t1 - t0)
      + of_nat (length (times_of key reqs)) * bucket_slack (newBucketAt tps burst t0)"
proof -
  have before: "sorted (map fst before @ [t0])" using assms(5) by (auto simp: sorted_append)
  note start = window_start [OF assms(1-4) before assms(6,7)]
  show ?thesis using window_bound [OF start(1,2) order_refl _ start(3,4), of reqs] assms(5)
    by (simp add: start(5,6) sorted_append earned_def bucket_slack_def)
qed

section \<open>Concrete run\<close>

theorem client_rate_bound_witness:
  "of_nat (allowed_count (decisions_for ''a'' [(1, ''a''), (2, ''b''), (10000000000, ''a''), (10000000000, ''a'')]
      (fst (limiter_run [(1, ''a''), (2, ''b''), (10000000000, ''a''), (10000000000, ''a'')] (snd (limiter_run [(0, ''a'')] sample_limiter))))))
    \<le> val64 (float64_of_int 3) + earned (newBucketAt (Fin (5 / 2)) 3 1) 9999999999 + 3 * bucket_slack (newBucketAt (Fin (5 / 2)) 3 1)"
  using client_rate_bound [OF sample_limiter_facts(1) sample_bucket_facts(2,3) sample_limiter_facts(2) _ _ refl,
      of "[(0, ''a'')]" 1 "[(1, ''a''), (2, ''b''), (10000000000, ''a''), (10000000000, ''a'')]" 10000000000 "''a''"]
  by (simp add: maxInt64_def times_of_def)

end
