(* ===== verification/Concurrent_Limits.thy ===== *)
theory Concurrent_Limits
  imports Concurrent_Gateway Rate_Window
begin

text \<open>
  The rate limits of the gateway under concurrent requests: from the configuration through the limiters that
  \<^verbatim>\<open>NewGatewayWithTransport\<close> builds to the threads that ask them. Every route has its own limiter, which
  only the step of \<^verbatim>\<open>rateLimit\<close> touches, so a run of the gateway contains a run of each limiter, and the bound of
  \<^verbatim>\<open>Rate_Window\<close> carries over.
\<close>

section \<open>Questions to a limiter\<close>

text \<open>The question an event puts to the limiter of a route, if it does.\<close>

definition asks_limit :: "nat \<Rightarrow> concurrent \<Rightarrow> cg_event \<Rightarrow> (time \<times> string) option" where
  "asks_limit i c e =
    (case e of
       Advance j \<Rightarrow>
         if j < length (cg_threads c) \<and> th_stage (cg_threads c ! j) = AtLimit i
         then let t = cg_threads c ! j; E = th_env t
              in Some (at_limit E, clientKeyFromRemoteAddr (env_ParseAddrPort E) (env_ParseAddr E) (RemoteAddr (th_request t)))
         else None
     | _ \<Rightarrow> None)"

text \<open>The event takes a thread past the limit of the route.\<close>

definition passes_limit :: "nat \<Rightarrow> concurrent \<Rightarrow> cg_event \<Rightarrow> bool" where
  "passes_limit i c e =
    (case e of Advance j \<Rightarrow> th_stage (cg_threads (cg_exec c e) ! j) = AtLookup i | _ \<Rightarrow> False)"

text \<open>The questions of a run in the order in which the limiter gets them, and how many requests of a client get past.\<close>

fun limit_requests :: "nat \<Rightarrow> concurrent \<Rightarrow> cg_event list \<Rightarrow> (time \<times> string) list" where
  "limit_requests i c [] = []"
| "limit_requests i c (e # es) =
    (case asks_limit i c e of None \<Rightarrow> [] | Some q \<Rightarrow> [q]) @ limit_requests i (cg_exec c e) es"

fun passed_limit :: "nat \<Rightarrow> string \<Rightarrow> concurrent \<Rightarrow> cg_event list \<Rightarrow> nat" where
  "passed_limit i key c [] = 0"
| "passed_limit i key c (e # es) =
    (case asks_limit i c e of None \<Rightarrow> 0 | Some (now, k) \<Rightarrow> of_bool (k = key \<and> passes_limit i c e)) + passed_limit i key (cg_exec c e) es"

abbreviation limiter_at :: "nat \<Rightarrow> gateway_world \<Rightarrow> ClientLimiter option" where
  "limiter_at i s \<equiv> limiter (route_at i s)"

section \<open>A run of the gateway is a run of each limiter\<close>

lemma set_route_other: "k \<noteq> i \<Longrightarrow> route_at i (set_route k f s) = route_at i s"
  by (simp add: set_route_def)

lemma set_route_limiter:
  "(\<And>rt. limiter (f rt) = limiter rt) \<Longrightarrow> limiter_at i (set_route k f s) = limiter_at i s"
  by (cases "k = i"; cases "i < length (gw_routes (gateway s))") (simp_all add: set_route_def list_update_beyond)

lemma set_route_length [simp]: "length (gw_routes (gateway (set_route k f s))) = length (gw_routes (gateway s))"
  by (simp add: set_route_def)

lemma step_limit_asks:
  assumes "limiter_at i s = Some l" "i < length (gw_routes (gateway s))"
    and "now = at_limit (th_env t)"
    and "key = clientKeyFromRemoteAddr (env_ParseAddrPort (th_env t)) (env_ParseAddr (th_env t)) (RemoteAddr (th_request t))"
  shows "limiter_at i (snd (step_limit i t s)) = Some (snd (ClientLimiter_Allow now key l))"
    and "th_stage (fst (step_limit i t s)) = AtLookup i \<longleftrightarrow> fst (ClientLimiter_Allow now key l)"
  using assms by (auto simp: step_limit_def Let_def route_at_set_route split: prod.splits)

lemma step_limit_other: "k \<noteq> i \<Longrightarrow> limiter_at i (snd (step_limit k t s)) = limiter_at i s"
  by (auto simp: step_limit_def Let_def set_route_other split: option.splits prod.splits)

lemma on_pool_routes [simp]: "gw_routes (gateway (on_pool name f s)) = gw_routes (gateway s)"
  by (simp add: on_pool_def split: option.split)

lemma quiet_limiters:
  "limiter_at i (snd (step_entry t s)) = limiter_at i s"
  "limiter_at i (snd (step_lookup k t s)) = limiter_at i s"
  "limiter_at i (snd (step_store k key v t s)) = limiter_at i s"
  "gw_routes (gateway (snd (step_permit k store t s))) = gw_routes (gateway s)"
  "gw_routes (gateway (snd (step_backend k store name permit t s))) = gw_routes (gateway s)"
  "gw_routes (gateway (snd (step_proxy k store name u permit t s))) = gw_routes (gateway s)"
  by (auto simp: step_entry_def step_lookup_def step_store_def step_permit_def step_backend_def step_proxy_def Let_def gateway_Ensure
      set_route_limiter split: prod.splits option.splits sum.splits)

lemma thread_step_limiter: "th_stage t \<noteq> AtLimit i \<Longrightarrow> limiter_at i (snd (thread_step t s)) = limiter_at i s"
  by (cases "th_stage t") (simp_all add: thread_step_def step_limit_other quiet_limiters)

lemma thread_step_routes: "length (gw_routes (gateway (snd (thread_step t s)))) = length (gw_routes (gateway s))"
  by (cases "th_stage t") (auto simp: thread_step_def step_entry_def step_limit_def step_lookup_def step_store_def
      quiet_limiters Let_def gateway_Ensure split: prod.splits option.splits)

lemma cg_exec_limiter:
  assumes "limiter_at i (cg_world c) = Some l" "i < length (gw_routes (gateway (cg_world c)))"
  shows "case asks_limit i c e of
      None \<Rightarrow> limiter_at i (cg_world (cg_exec c e)) = Some l
    | Some (now, key) \<Rightarrow> limiter_at i (cg_world (cg_exec c e)) = Some (snd (ClientLimiter_Allow now key l))
        \<and> (passes_limit i c e \<longleftrightarrow> fst (ClientLimiter_Allow now key l))"
    and "i < length (gw_routes (gateway (cg_world (cg_exec c e))))"
proof -
  show "case asks_limit i c e of
      None \<Rightarrow> limiter_at i (cg_world (cg_exec c e)) = Some l
    | Some (now, key) \<Rightarrow> limiter_at i (cg_world (cg_exec c e)) = Some (snd (ClientLimiter_Allow now key l))
        \<and> (passes_limit i c e \<longleftrightarrow> fst (ClientLimiter_Allow now key l))"
  proof (cases e)
    case (Advance j)
    let ?t = "cg_threads c ! j"
    show ?thesis
      using assms step_limit_asks [OF assms refl refl, of ?t] thread_step_limiter [of ?t i "cg_world c"]
      by (auto simp: Advance asks_limit_def passes_limit_def Let_def thread_step_def split_beta)
  qed (use assms in \<open>simp_all add: asks_limit_def\<close>)
  show "i < length (gw_routes (gateway (cg_world (cg_exec c e))))"
    using assms(2) by (cases e) (simp_all add: thread_step_routes split_beta)
qed

lemma cg_run_limiter:
  assumes "limiter_at i (cg_world c) = Some l" "i < length (gw_routes (gateway (cg_world c)))"
  shows "limiter_at i (cg_world (foldl cg_exec c es)) = Some (snd (limiter_run (limit_requests i c es) l))
    \<and> i < length (gw_routes (gateway (cg_world (foldl cg_exec c es))))
    \<and> passed_limit i key c es = allowed_count (decisions_for key (limit_requests i c es) (fst (limiter_run (limit_requests i c es) l)))"
  using assms
proof (induction es arbitrary: c l)
  case (Cons e es)
  note step = cg_exec_limiter [OF Cons.prems, of e]
  show ?case
  proof (cases "asks_limit i c e")
    case None
    then show ?thesis using step Cons.IH by simp
  next
    case (Some q)
    obtain now k where q: "q = (now, k)" by fastforce
    then have "limiter_at i (cg_world (cg_exec c e)) = Some (snd (ClientLimiter_Allow now k l))"
      "passes_limit i c e \<longleftrightarrow> fst (ClientLimiter_Allow now k l)" using step(1) Some by simp_all
    then show ?thesis using Cons.IH [OF _ step(2)] Some q
      by (simp add: split_beta decisions_for_def allowed_count_def)
  qed
qed (simp add: decisions_for_def allowed_count_def)

lemma gateway_route_limiter:
  assumes "gateway_route started cfg rc = Inr rt"
    and "limit = (case routeRateLimit rc of None \<Rightarrow> cfgRateLimit cfg | Some l \<Rightarrow> l)" "Fin 0 < RequestsPerSecond limit"
  shows "\<exists>l. limiter rt = Some l \<and> NewClientLimiter (RequestsPerSecond limit) (Burst limit) started = Inr l"
  using assms by (auto simp: gateway_route_def Let_def split: sum.splits option.splits if_splits)

lemma new_gateway_limiter:
  assumes "NewGatewayWithTransport parse U started cfg transport = Inr g" "i < length (Routes cfg)"
    and "limit = (case routeRateLimit (Routes cfg ! i) of None \<Rightarrow> cfgRateLimit cfg | Some l \<Rightarrow> l)" "Fin 0 < RequestsPerSecond limit"
  shows "\<exists>l. limiter (gw_routes g ! i) = Some l \<and> NewClientLimiter (RequestsPerSecond limit) (Burst limit) started = Inr l"
    and "i < length (gw_routes g)"
proof -
  have "build_all (gateway_route started cfg) (Routes cfg) = Inr (gw_routes g)"
    using assms(1) by (auto simp: NewGatewayWithTransport_def split: option.splits if_splits sum.splits)
  then have built: "list_all2 (\<lambda>x y. gateway_route started cfg x = Inr y) (Routes cfg) (gw_routes g)" unfolding build_all_Inr .
  then show "i < length (gw_routes g)" using assms(2) by (simp add: list_all2_lengthD)
  have "gateway_route started cfg (Routes cfg ! i) = Inr (gw_routes g ! i)" using built assms(2) by (rule list_all2_nthD)
  from gateway_route_limiter [OF this assms(3,4)]
  show "\<exists>l. limiter (gw_routes g ! i) = Some l \<and> NewClientLimiter (RequestsPerSecond limit) (Burst limit) started = Inr l" .
qed

section \<open>Property\<close>

text \<open>C14 (bounds). The configured rate limit holds for the concurrent gateway: on a route with a rate limit, its own or the
  global one, and in any interleaving of any requests from any clients, the requests of one client that get past the limit
  between \<open>t0\<close> and \<open>t1\<close> are at most the burst plus what the configured rate earns in that time, up to the
  rounding of \<^verbatim>\<open>float64\<close>. The window may start at any moment of the gateway's life. It is shorter than 292
  years, and the limiter gets the clock readings, which are taken before its lock, in order.\<close>

theorem concurrent_rate_limit:
  assumes "NewGatewayWithTransport parse U started cfg transport = Inr (gateway s)" "i < length (Routes cfg)"
    and "limit = (case routeRateLimit (Routes cfg ! i) of None \<Rightarrow> cfgRateLimit cfg | Some l \<Rightarrow> l)" "Fin 0 < RequestsPerSecond limit"
    and "wf64 (RequestsPerSecond limit)" "Burst limit \<le> maxInt64"
    and "c = foldl cg_exec (cg_start s) before" "t1 - t0 < maxInt64"
    and "sorted (map fst (limit_requests i (cg_start s) before) @ [t0] @ map fst (limit_requests i c es) @ [t1])"
  shows "of_nat (passed_limit i key c es)
    \<le> val64 (float64_of_int (Burst limit)) + earned (newBucketAt (RequestsPerSecond limit) (Burst limit) t0) (t1 - t0)
      + of_nat (length (times_of key (limit_requests i c es))) * bucket_slack (newBucketAt (RequestsPerSecond limit) (Burst limit) t0)"
proof -
  obtain l where l: "limiter_at i s = Some l" "NewClientLimiter (RequestsPerSecond limit) (Burst limit) started = Inr l"
    using new_gateway_limiter(1) [OF assms(1-4)] by blast
  have now: "limiter_at i (cg_world c) = Some (snd (limiter_run (limit_requests i (cg_start s) before) l))"
    "i < length (gw_routes (gateway (cg_world c)))"
    using cg_run_limiter [where c = "cg_start s" and es = before and i = i and l = l] l(1) new_gateway_limiter(2) [OF assms(1-4)] by (simp_all add: assms(7) cg_start_def)
  have before: "sorted (map fst (limit_requests i (cg_start s) before) @ [t0])" using assms(9) by (auto simp: sorted_append)
  have "optShardCount \<lparr>optShardCount = defaultShardCount, optClientIdleTTL = defaultClientIdleTTL,
       optCleanupInterval = defaultCleanupInterval, optNow = Some started\<rparr> \<le> maxInt64" by (simp add: defaultShardCount_def maxInt64_def)
  note start = window_start [OF l(2) [unfolded NewClientLimiter_def] assms(5,6) this before assms(8) refl]
  show ?thesis using window_bound [OF start(1,2) order_refl _ start(3,4), of "limit_requests i c es" key] assms(9)
    using cg_run_limiter [OF now, of es key]
    by (simp add: start(5,6) sorted_append earned_def bucket_slack_def)
qed


section \<open>Concrete run\<close>

text \<open>Two requests of one client, whose steps alternate.\<close>

definition sample_limited_cfg :: Config where
  "sample_limited_cfg = sample_busy_cfg\<lparr>cfgRateLimit := \<lparr>RequestsPerSecond = Fin 2, Burst = 3\<rparr>\<rparr>"

lemma sample_limited_cfg_valid: "Validate sample_parse U sample_limited_cfg = None"
proof -
  have "validateRateLimit n \<lparr>RequestsPerSecond = Fin 2, Burst = 3\<rparr> = None" for n
    by (simp add: validateRateLimit_def IsNaN_def IsInf_def less_float64_def)
  moreover have "Validate sample_parse U sample_busy_cfg = None" by (rule sample_busy_cfg_valid)
  ultimately show ?thesis unfolding Validate_None by (simp add: sample_limited_cfg_def validateRoute_def)
qed

definition sample_limited_schedule :: "cg_event list" where
  "sample_limited_schedule = replicate 2 (Arrive sample_env (sample_get []) (Base sample_server)) @ [Advance 0, Advance 1, Advance 0, Advance 1]"

lemma sample_limited_run:
  assumes "NewGatewayWithTransport sample_parse sample_case 0 sample_limited_cfg OtherTransport = Inr g"
  shows "limit_requests 0 (cg_start (sample_gateway_world g)) sample_limited_schedule = [(1, ''192.0.2.1''), (1, ''192.0.2.1'')]"
proof -
  have "build_all (gateway_route 0 sample_limited_cfg) (Routes sample_limited_cfg) = Inr (gw_routes g)"
    using assms by (auto simp: NewGatewayWithTransport_def split: option.splits if_splits sum.splits)
  then obtain rt where "gateway_route 0 sample_limited_cfg (hd (Routes sample_limited_cfg)) = Inr rt" "gw_routes g = [rt]"
    by (auto simp: sample_limited_cfg_def sample_busy_cfg_def split: sum.splits)
  then have rt: "gw_routes g = [rt]" "pathPrefix rt = ''/''" "\<not> protected rt"
    by (auto simp: gateway_route_def Let_def sample_limited_cfg_def sample_busy_cfg_def split: sum.splits option.splits if_splits)
  show ?thesis
    by (simp add: sample_limited_schedule_def numeral_eq_Suc cg_start_def sample_gateway_world_def asks_limit_def thread_step_def arriving_def
      step_entry_def Let_def Ensure_def sample_get_def current_def rt matchRoute_def prefixMatches_def SetRoute_def sample_env_def
      clientKeyFromRemoteAddr_def nth_append split: prod.split)
qed

theorem concurrent_rate_limit_witness:
  "\<exists>s. NewGatewayWithTransport sample_parse sample_case 0 sample_limited_cfg OtherTransport = Inr (gateway s)
    \<and> limit_requests 0 (cg_start s) sample_limited_schedule = [(1, ''192.0.2.1''), (1, ''192.0.2.1'')]
    \<and> of_nat (passed_limit 0 ''192.0.2.1'' (cg_start s) sample_limited_schedule)
      \<le> val64 (float64_of_int 3) + earned (newBucketAt (Fin 2) 3 1) 8 + 2 * bucket_slack (newBucketAt (Fin 2) 3 1)"
proof -
  have "\<forall>(name, pc) \<in> set (BackendPools sample_limited_cfg). length (poolBackends pc) < 2 ^ 63"
    using sample_busy_ok(1) by (simp add: sample_limited_cfg_def)
  then obtain g where g: "NewGatewayWithTransport sample_parse sample_case 0 sample_limited_cfg OtherTransport = Inr g"
    using gateway_builds [OF sample_parse_ok _ sample_limited_cfg_valid, of OtherTransport] by blast
  let ?s = "sample_gateway_world g"
  have world: "gateway ?s = g" by (simp add: sample_gateway_world_def)
  note run = sample_limited_run [OF g]
  have wf: "wf64 (Fin 2)" by code_simp
  have limit: "cfgRateLimit sample_limited_cfg = \<lparr>RequestsPerSecond = Fin 2, Burst = 3\<rparr>"
    "Routes sample_limited_cfg = [\<lparr>PathPrefix = ''/'', BackendPool = ''a'', routeRateLimit = None, routeCache = None, Protected = False\<rparr>]"
    by (simp_all add: sample_limited_cfg_def sample_busy_cfg_def)
  show ?thesis
    using concurrent_rate_limit [of sample_parse sample_case 0 sample_limited_cfg OtherTransport ?s 0
        "\<lparr>RequestsPerSecond = Fin 2, Burst = 3\<rparr>" "cg_start ?s" "[]" 9 1 sample_limited_schedule "''192.0.2.1''"] g wf
    by (intro exI [of _ ?s]) (simp add: world run limit less_float64_def maxInt64_def times_of_def)
qed

end
