(* ===== verification/Spec2Isabelle.thy ===== *)
theory Spec2Isabelle
  imports Circuit_Breaker Rate_Limiter Load_Balancer Response_Cache Routing Upstream_Pool Config
    Cache_Policy Response_Writers Request_Meta Middleware Metrics Reverse_Proxy Gateway Request_Path Server Process Buffer_Pool
    Pool_Use Request_Thread Concurrent_Gateway Recorder Mock_Backend Concurrent_Limits
begin

text \<open>
  Gatex is an HTTP API gateway in Go. A configuration file names pools of backends and routes, path
  prefixes that lead to a pool. A request passes panic recovery, the request log, request metrics and
  CORS, is matched to the most specific route, checked against the route's API keys, its rate limit and
  its response cache, and is then sent by a reverse proxy to a backend that the pool's circuit
  breaker and load balancer give it. Health checks run beside the requests, and probe and scrape
  endpoints report on the pools. This development models these parts from the sources under
  \<^verbatim>\<open>src/\<close>, each as executable definitions with the names of the code, and proves what makes each of them
  and their composition correct.

  \<^bold>\<open>Conventions.\<close> Prelude fixes how Go's types are represented: times and durations are integers in
  nanoseconds with the saturating \<^verbatim>\<open>Sub\<close>, \<^verbatim>\<open>int64\<close> counters wrap by \<open>int64_add\<close>, \<^verbatim>\<open>uint64\<close> is a 64-bit word, maps
  are association lists whose order is Go's iteration order, an operation that can fail returns a
  sum with the error on the left. Every reading of the clock is an argument. A mutex makes a
  method one step; where the code is lock-free or goroutines overlap, the steps are separate and
  interleave. Float64 models IEEE double arithmetic with rounding to nearest even, overflow and
  infinities, without fused operations. Go_Strings, Url and Http model the parts of the standard library
  the sources use: trimming, splitting and case, URL escaping, headers, requests and the server's response
  writer, which may take a write only in part and fail.

  \<^bold>\<open>Components.\<close>
  \<^item> Circuit_Breaker: \<^verbatim>\<open>internal/breaker/breaker.go\<close>. States, permits with generations, half-open probes. It
    refines an abstract breaker without generations (\<open>breaker_refines_spec\<close>), never loses or
    duplicates a probe slot, and is never stuck half-open.
  \<^item> Rate_Limiter: \<^verbatim>\<open>internal/ratelimiter\<close>. The token bucket with its rounding errors and the sharded table of
    clients with idle cleanup: the rate bound of a bucket, the range of tokens, isolation of clients. Rate_Window: the rate bound
    of every client in every window of time, idle cleanup included.
  \<^item> Load_Balancer: \<^verbatim>\<open>internal/balancer\<close>. Round robin with its wrapping cursor, least connections, active
    counts, the compare-and-swap loop of \<^verbatim>\<open>Release\<close> as interleaved steps, health checks. The two strategies
    interpret the locale \<open>backend_selector\<close>.
  \<^item> Response_Cache: \<^verbatim>\<open>internal/cache/cache.go\<close>. It refines an LRU list with expiry, interprets the locale
    \<open>response_store\<close>, and does not share memory with its callers.
  \<^item> Routing: matching, URL rewriting, client keys and \<^verbatim>\<open>Retry-After\<close> of \<^verbatim>\<open>internal/proxy/gateway.go\<close>.
  \<^item> Upstream_Pool: a pool's breaker and balancer together, with overlapping requests from acquire to
    release.
  \<^item> Config: \<^verbatim>\<open>internal/config/config.go\<close>. Data, \<^verbatim>\<open>Load\<close>, \<^verbatim>\<open>Validate\<close> and environment placeholders.
  \<^item> Cache_Policy and Response_Writers: \<^verbatim>\<open>internal/proxy/cache.go\<close> and the three response writers of the
    repository, with the proof that they are transparent and record the truth.
  \<^item> Request_Meta: \<^verbatim>\<open>internal/requestmeta\<close>; the metadata that requests share through their context is in
    a store.
  \<^item> Middleware: \<^verbatim>\<open>internal/middleware\<close>. A handler maps a request, a writer and a state to how it ended,
    the writer and the state; a panic is a value that the outer handlers may recover.
  \<^item> Metrics: \<^verbatim>\<open>internal/metrics\<close>. Request measurements, the breaker gauge, liveness and readiness.
  \<^item> Reverse_Proxy: the hooks of \<^verbatim>\<open>newReverseProxy\<close> inside a model of \<^verbatim>\<open>httputil.ReverseProxy\<close>.
  \<^item> Gateway: construction from a configuration, and the reports on pools.
  \<^item> Request_Path: \<^verbatim>\<open>ServeHTTP\<close>, the handlers of a route and \<^verbatim>\<open>serveRoute\<close>; the locale \<open>request_server\<close> proves
    once, for any server whose requests run the pools as the gateway does, that nothing stays in flight.
  \<^item> Server: \<^verbatim>\<open>newGatewayHandler\<close> of \<^verbatim>\<open>cmd/gateway/main.go\<close> with the request multiplexer. The locale
    \<open>observed_handler\<close> is the contract of the handler that logging and metrics wrap; the gateway
    interprets it.
  \<^item> Process: start-up, the health-check goroutines and the shutdown as a transition system.
  \<^item> Buffer_Pool: \<^verbatim>\<open>internal/proxy/buffer_pool.go\<close>.
  \<^item> Pool_Use, Request_Thread and Concurrent_Gateway: requests that overlap. Request_Thread cuts a request where it
    takes a lock: every request is a thread that makes one locked operation at a time, on the limiter, the
    cache, a pool's breaker or its balancer. Concurrent_Gateway runs any number of threads in any order, beside arriving
    requests and health changes. The locale \<open>pool_client\<close> of Pool_Use says how a thread may use a pool and carries the accounts of
    permits and active counts; the gateway interprets it. Shown: nothing leaks in any interleaving and the pool
    recovers (\<open>concurrent_requests_leak_nothing\<close>, \<open>concurrent_pool_recovers\<close>), probes stay within their limit, every thread
    ends, metadata is not mixed up, and a thread that is not interrupted does what \<open>ServeHTTP\<close> of Request_Path
    does (\<open>uninterrupted_request\<close>). Concurrent_Limits: the configured rate limit of a route holds for every client in every
    interleaving.
  \<^item> Recorder: the registrations of \<^verbatim>\<open>internal/metrics\<close> with Prometheus, and that its counters agree.
  \<^item> Mock_Backend: \<^verbatim>\<open>cmd/mockbackend/main.go\<close>, which passes the gateway's health checks.

  The locale \<open>invariant_machine\<close> of Prelude carries the invariants of the machines (breaker, limiter, balancer,
  buffer pool) over sequences of operations.

  \<^bold>\<open>Bounds.\<close> No definition uses fuel; recursive functions terminate, and the one loop that may run without
  end, the compare-and-swap loop, is a step relation with a proof that it ends when it runs alone. The
  breaker's generation is a 64-bit counter, so its theorems hold for fewer than \<open>2 ^ 64\<close> state changes; the
  active count is an \<^verbatim>\<open>int64\<close>, so accounting holds for fewer than \<open>2 ^ 63\<close> acquisitions; a pool has fewer
  than \<open>2 ^ 63\<close> backends, as a Go slice does.

  \<^bold>\<open>Parameters.\<close> \<^verbatim>\<open>url.Parse\<close> and URL resolution, \<^verbatim>\<open>netip\<close> and \<^verbatim>\<open>net.SplitHostPort\<close>, SHA-256, random bytes, Unicode case
  tables beyond ASCII, JSON quoting, the YAML library, the file system and environment, the Prometheus
  library, how the multiplexer writes a redirect, and the network: the answers of upstreams, probes and clients. Where a
  theorem needs something of them it is a hypothesis, such as that the digest tells two keys
  apart, or that a URL with a scheme is not blank.

  \<^bold>\<open>Composition.\<close> A request is modelled from start to end in Request_Path and Server, one after the other, and cut
  at its locks in Concurrent_Gateway, where requests and health changes interleave. A balancer's \<^verbatim>\<open>Acquire\<close> is one step,
  although it reads health flags and active counts one by one while \<^verbatim>\<open>Release\<close> and \<^verbatim>\<open>SetHealthy\<close> do not take its lock; the
  properties of Concurrent_Gateway do not depend on which backend it picks. Health checks and shutdown meet in Process.

  \<^bold>\<open>Not modelled.\<close> How Prometheus collects and writes a scrape (a library); log lines other than the
  request log, recovered panics and failed replays; HTTP wire format, connection handling and request deadlines,
  which appear as outcomes of the exchange with an upstream; status codes outside 100 to 999, for which
  the server's writer panics, other than in \<open>refused_status_logged\<close>; \<^verbatim>\<open>Unwrap\<close> of the writers, through which a controller reaches flushing and hijacking.

  \<^bold>\<open>Findings.\<close> \<open>rewrite_base_path_drops_escapes\<close>: with an upstream base path, escapes in the client's path are lost.
  \<open>request_id_sent_twice\<close>: a proxied response carries the request identifier twice.
  \<open>early_response_clears_headers\<close>: an informational response of an upstream removes the CORS headers and the cache
  marker of the final one. \<open>redirected_request_not_logged\<close>: a request with an unclean path is redirected outside the log.
  \<open>refused_status_logged\<close>: a status the server refuses is logged and counted as it came from the upstream, while the client
  gets a 500.
\<close>

section \<open>The process and its requests\<close>

text \<open>C3 (invariant). A process started from a configuration file serves any sequence of requests - probes, scrapes and
  redirects, preflights, requests that are refused, served from a cache, failed or aborted in the middle of a
  response, with any behaviour of clients and upstreams - and afterwards no backend of any pool has an
  active request left, the pools are the configured ones, and each pool has only taken the steps of
  complete requests.\<close>

theorem process_leaves_nothing_in_flight:
  assumes "parse_ok parse" "\<forall>(name, pc) \<in> set (BackendPools cfg). length (poolBackends pc) < 2 ^ 63"
    and "Load parse U src (case flag of Some pth \<Rightarrow> pth | None \<Rightarrow> configPathFromEnvironment (src_LookupEnv src)) = Inr cfg"
    and "gomap_wf (BackendPools cfg)" "main_start parse U now src flag = Inr proc" "gateway s = proc_gateway proc"
    and "list_all only_writes reqs" "2 * int (length reqs) < maxInt64"
  shows "dom (map_of (gw_pools (gateway (foldl (serve cfg) s reqs)))) = dom (map_of (BackendPools cfg))
    \<and> (\<forall>name p. map_of (gw_pools (gateway (foldl (serve cfg) s reqs))) name = Some p \<longrightarrow>
        (\<forall>b \<in> set (backends (balancer p)). activeConnections b = 0)
        \<and> (\<exists>p0 es. map_of (gw_pools (gateway s)) name = Some p0 \<and> p = tpool (foldl traffic_exec (traffic_start p0) es)))"
proof -
  note started = main_start_gateway [OF assms(5,3)]
  have "gateway_wf parse cfg (gateway s)"
    using gateway_builds [OF assms(1,2) started(2), of "HTTPTransport (NewTransport (cfgTimeouts cfg))" now] started(1) assms(6)
    by (auto simp: NewGateway_def)
  then have wf: "list_all2 (pool_built parse) (BackendPools cfg) (gw_pools (gateway s))" by (simp add: gateway_wf_def)
  have "dom (map_of (gw_pools (gateway s))) = dom (map_of (BackendPools cfg))"
    using map_of_pools [OF wf] by (auto simp: dom_def)
  then show ?thesis
    using server.same_pools_after [OF assms(7)] server.nothing_in_flight [OF wf assms(4,7,8)] by blast
qed

theorem process_leaves_nothing_in_flight_witness:
  "\<exists>proc. main_start sample_parse sample_case 0 sample_config_source None = Inr proc
    \<and> dom (map_of (gw_pools (gateway (foldl (serve sample_cfg) (sample_gateway_world (proc_gateway proc))
        (replicate 3 (sample_handler_env, sample_env, sample_get [], Base sample_server)))))) = {''a'', ''b''}"
proof -
  obtain g where "NewGateway sample_parse sample_case 0 sample_cfg = Inr g"
    unfolding NewGateway_def using gateway_builds [OF sample_parse_ok sample_backends_small sample_cfg_valid] by blast
  then obtain proc where start: "main_start sample_parse sample_case 0 sample_config_source None = Inr proc"
    using sample_loaded by (simp add: main_start_def)
  have "gomap_wf (BackendPools sample_cfg)" "dom (map_of (BackendPools sample_cfg)) = {''a'', ''b''}"
    by (auto simp: sample_cfg_def gomap_wf_def dom_def)
  moreover have "Load sample_parse sample_case sample_config_source
      (case None of Some pth \<Rightarrow> pth | None \<Rightarrow> configPathFromEnvironment (src_LookupEnv sample_config_source)) = Inr sample_cfg"
    using sample_loaded by simp
  moreover have "gateway (sample_gateway_world (proc_gateway proc)) = proc_gateway proc" by (simp add: sample_gateway_world_def)
  moreover have "list_all only_writes (replicate 3 (sample_handler_env, sample_env, sample_get [], Base sample_server))"
    by (simp add: list_all_iff only_writes_def sample_handler_env_def)
  ultimately show ?thesis
    using process_leaves_nothing_in_flight [OF sample_parse_ok sample_backends_small _ _ start] start
    by (auto simp: maxInt64_def)
qed

end
